(* ===== verification/Xsky_Prelude.thy ===== *)
theory Xsky_Prelude
  imports Main "HOL-Library.Word" "HOL-Library.Monad_Syntax"
begin

unbundle bit_operations_syntax

text \<open>
  Shared types, C library routines and generic lemmas of the XSKY development.

  \<^item> the fixed-width integers of the C and C++ sources as words;
  \<^item> byte order: loads and stores of 16- and 32-bit values in a byte list, and the
    \<open>htons\<close> of the C library for both byte orders;
  \<^item> \<open>memcpy\<close>, \<open>memset\<close> and \<open>memcmp\<close> on byte lists, with \<open>None\<close> for an access outside
    one of the two buffers (the C behaviour is undefined there);
  \<^item> lemmas on words used as counters, on list updates and on indices modulo a length.
\<close>

section \<open>Machine types\<close>

type_synonym byte = "8 word"
type_synonym u8 = "8 word"
type_synonym u16 = "16 word"
type_synonym u32 = "32 word"
type_synonym u64 = "64 word"
type_synonym cint = "32 word" \<comment> \<open>a C++ \<open>int\<close>, read with \<open>sint\<close>\<close>
type_synonym qint64 = "64 word" \<comment> \<open>a signed 64-bit integer, read with \<open>sint\<close>\<close>

named_theorems xsky_mem "unfolding rules of the C memory routines"
named_theorems xsky_word "rules for words used as counters and flags"

section \<open>Byte order\<close>

datatype endian = Little_endian | Big_endian

definition swap16 :: "u16 \<Rightarrow> u16" where
  "swap16 w = push_bit 8 w OR drop_bit 8 w"

definition htons :: "endian \<Rightarrow> u16 \<Rightarrow> u16" where
  "htons e w = (case e of Little_endian \<Rightarrow> swap16 w | Big_endian \<Rightarrow> w)"

text \<open>\<open>ntohs (load16 p)\<close> of two bytes in network order, the same on every host.\<close>

definition be16 :: "byte \<Rightarrow> byte \<Rightarrow> u16" where
  "be16 hi lo = push_bit 8 (ucast hi) OR ucast lo"

definition le16_bytes :: "u16 \<Rightarrow> byte list" where
  "le16_bytes w = [ucast w, ucast (drop_bit 8 w)]"

definition le32_bytes :: "u32 \<Rightarrow> byte list" where
  "le32_bytes w = [ucast w, ucast (drop_bit 8 w), ucast (drop_bit 16 w), ucast (drop_bit 24 w)]"

section \<open>The C memory routines\<close>

definition memcpy :: "byte list \<Rightarrow> byte list \<Rightarrow> nat \<Rightarrow> byte list option" where
  "memcpy dst src n =
     (if n \<le> length dst \<and> n \<le> length src then Some (take n src @ drop n dst) else None)"

definition memset0 :: "byte list \<Rightarrow> nat \<Rightarrow> byte list option" where
  "memset0 dst n = (if n \<le> length dst then Some (replicate n 0 @ drop n dst) else None)"

definition memcmp_eq :: "byte list \<Rightarrow> byte list \<Rightarrow> nat \<Rightarrow> bool option" where
  "memcmp_eq a b n =
     (if n \<le> length a \<and> n \<le> length b then Some (take n a = take n b) else None)"

lemma memcpy_Some [xsky_mem]:
  "n \<le> length dst \<Longrightarrow> n \<le> length src \<Longrightarrow> memcpy dst src n = Some (take n src @ drop n dst)"
  by (simp add: memcpy_def)

lemma memcpy_length: "memcpy dst src n = Some d \<Longrightarrow> length d = length dst"
  by (auto simp: memcpy_def split: if_splits)

lemma memcpy_take: "memcpy dst src n = Some d \<Longrightarrow> take n d = take n src"
  by (auto simp: memcpy_def split: if_splits)

lemma memset0_Some [xsky_mem]:
  "n \<le> length dst \<Longrightarrow> memset0 dst n = Some (replicate n 0 @ drop n dst)"
  by (simp add: memset0_def)

lemma memcmp_eq_Some [xsky_mem]:
  "n \<le> length a \<Longrightarrow> n \<le> length b \<Longrightarrow> memcmp_eq a b n = Some (take n a = take n b)"
  by (simp add: memcmp_eq_def)

text \<open>The \<open>n\<close> bytes at offset \<open>off\<close>; \<open>None\<close> when they run past the end.\<close>

definition bytes_at :: "byte list \<Rightarrow> nat \<Rightarrow> nat \<Rightarrow> byte list option" where
  "bytes_at bs off n = (if off + n \<le> length bs then Some (take n (drop off bs)) else None)"

definition byte_at :: "byte list \<Rightarrow> nat \<Rightarrow> byte option" where
  "byte_at bs off = (if off < length bs then Some (bs ! off) else None)"

lemma bytes_at_Some [xsky_mem]: "off + n \<le> length bs \<Longrightarrow> bytes_at bs off n = Some (take n (drop off bs))"
  by (simp add: bytes_at_def)

lemma byte_at_Some [xsky_mem]: "off < length bs \<Longrightarrow> byte_at bs off = Some (bs ! off)"
  by (simp add: byte_at_def)

section \<open>Netfilter verdicts\<close>

datatype nf_verdict = NF_DROP | NF_ACCEPT | NF_QUEUE

section \<open>Words used as counters\<close>

lemma unat_inc_less [xsky_word]:
  fixes a b :: "'a::len word"
  assumes "unat a < unat b" shows "unat (a + 1) = Suc (unat a)"
proof -
  have "Suc (unat a) < 2 ^ LENGTH('a)"
    using assms unsigned_less [where w = b] by (meson Suc_lessI less_trans_Suc le_less_trans not_less_eq)
  then show ?thesis by (simp add: unat_word_ariths)
qed

lemma unat_dec_pos [xsky_word]:
  fixes a :: "'a::len word"
  assumes "a \<noteq> 0" shows "unat (a - 1) = unat a - 1"
  using assms by (simp add: unat_minus_one)

section \<open>Indices modulo a length\<close>

lemma mod_shift_neq:
  fixes b h k n :: nat
  assumes "k < h" "h < n" shows "(b + k) mod n \<noteq> (b + h) mod n"
proof
  assume "(b + k) mod n = (b + h) mod n"
  then have "n dvd (b + h) - (b + k)"
    using assms by (metis mod_eq_dvd_iff_nat add_left_mono less_imp_le)
  then have "n dvd h - k" by simp
  then show False using assms by (auto dest: dvd_imp_le)
qed

lemma mod_add_step: "(b mod n + k) mod n = (b + k) mod (n::nat)"
  by (simp add: mod_add_left_eq)

lemma nth_mod_neq:
  assumes "distinct xs" "k < h" "h < length xs"
  shows "xs ! ((b + k) mod length xs) \<noteq> xs ! ((b + h) mod length xs)"
proof -
  have "0 < length xs" using assms(2,3) by linarith
  then have "(b + k) mod length xs < length xs" "(b + h) mod length xs < length xs" by simp_all
  with assms(1) mod_shift_neq [OF assms(2,3), of b] show ?thesis
    by (metis nth_eq_iff_index_eq)
qed

section \<open>Signed words that are small or not negative\<close>

lemma unat_u8: "unat (w :: u8) < 256"
  using unsigned_less [of w, where ?'a = nat] by simp

lemma sint_small:
  fixes x :: "'a::len word"
  assumes "2 * unat x < 2 ^ LENGTH('a)"
  shows "sint x = int (unat x)"
proof -
  obtain m where m: "LENGTH('a) = Suc m" using len_gt_0 [where 'a = 'a] by (metis gr0_implies_Suc)
  have "2 * unat x < 2 * 2 ^ m" using assms by (simp add: m)
  then have "unat x < 2 ^ m" by simp
  then have "int (unat x) < 2 ^ m" by (metis of_nat_less_iff of_nat_numeral of_nat_power)
  then have "uint x < 2 ^ m" by simp
  then have "signed_take_bit m (uint x) = uint x"
    by (intro signed_take_bit_int_eq_self) (simp_all add: order_trans [OF _ uint_ge_0])
  then show ?thesis by (simp add: sint_uint m)
qed

lemma unat_of_nat_u64: "n < 2 ^ 64 \<Longrightarrow> unat (of_nat n :: u64) = n"
  by (simp add: unat_of_nat take_bit_nat_eq_self)

lemma unat_of_nat_cint: "n < 2 ^ 32 \<Longrightarrow> unat (of_nat n :: cint) = n"
  by (simp add: unat_of_nat take_bit_nat_eq_self)

lemma sint_nonneg:
  fixes x :: "'a::len word"
  assumes "0 \<le> sint x"
  shows "sint x = int (unat x)"
proof -
  obtain m where m: "LENGTH('a) = Suc m" using len_gt_0 [where 'a = 'a] by (metis gr0_implies_Suc)
  have s: "sint x = signed_take_bit m (uint x)" by (simp add: sint_uint m)
  have "\<not> bit (uint x) m" using assms by (simp add: s)
  then have "signed_take_bit m (uint x) = take_bit m (uint x)" by (rule signed_take_bit_eq_if_positive)
  moreover have "take_bit (Suc m) (uint x) = uint x" by (metis m take_bit_int_eq_self uint_lt2p uint_ge_0)
  moreover have "take_bit (Suc m) (uint x) = 2 ^ m * of_bool (bit (uint x) m) + take_bit m (uint x)"
    by (rule take_bit_Suc_from_most)
  ultimately show ?thesis using \<open>\<not> bit (uint x) m\<close> s by simp
qed

lemma qint64_nonneg: "0 \<le> sint x \<Longrightarrow> unat x < 2 ^ 63" for x :: qint64
  using sint_nonneg [of x] sint_lt [of x] by (simp del: of_nat_unat)

end
