(* ===== verification/Ring_Queue.thy ===== *)
theory Ring_Queue
  imports Xsky_Prelude
begin

text \<open>
  The packet queue of the route module (\<open>route/queue.h\<close>): a ring of preallocated cells
  linked by \<open>next\<close> and \<open>previous\<close> pointers, with a \<open>begin\<close> and an \<open>end\<close> pointer into the
  ring and a count \<open>have\<close> of the occupied cells.

  The ring lives in a store of cells (\<open>q_cells\<close>), so that what the code does through a
  pointer is a read or an update of that store; following a null or dangling pointer, or a
  copy past a buffer, is \<open>None\<close>. The operations are the C functions. \<open>push\<close> and \<open>pop\<close> test
  \<open>have\<close> before they take the spin lock, so each is split into the unlocked test and the
  locked body; the interleavings of these two steps are the subject of \<open>Queue_Concurrency\<close>.

  The lemmas: the ring invariant is established by \<open>xsky_queue_init\<close> and kept by every
  operation, and under it the ring implements a bounded first-in first-out queue of byte
  strings (the locale \<open>packet_fifo\<close>, interpreted here on the ring).
\<close>

section \<open>Data\<close>

type_synonym addr = nat
type_synonym ptr = "addr option" \<comment> \<open>\<open>None\<close> is the null pointer\<close>

definition XSKY_MTU :: nat where "XSKY_MTU = 1501"

record xsky_queue_data =
  qd_next :: ptr
  qd_previous :: ptr
  qd_size :: u64
  qd_data :: "byte list"

record xsky_queue =
  q_begin :: ptr
  q_end :: ptr
  q_list :: ptr
  q_have :: u64
  q_size :: u64
  q_cells :: "addr \<rightharpoonup> xsky_queue_data"

definition zero_cell :: xsky_queue_data where
  "zero_cell = \<lparr>qd_next = None, qd_previous = None, qd_size = 0, qd_data = replicate XSKY_MTU 0\<rparr>"

definition zero_queue :: xsky_queue where
  "zero_queue = \<lparr>q_begin = None, q_end = None, q_list = None, q_have = 0, q_size = 0,
     q_cells = Map.empty\<rparr>"

definition cell_at :: "xsky_queue \<Rightarrow> ptr \<Rightarrow> xsky_queue_data option" where
  "cell_at q p = (case p of None \<Rightarrow> None | Some a \<Rightarrow> q_cells q a)"

definition put_cell :: "xsky_queue \<Rightarrow> addr \<Rightarrow> xsky_queue_data \<Rightarrow> xsky_queue" where
  "put_cell q a c = q\<lparr>q_cells := (q_cells q)(a \<mapsto> c)\<rparr>"

section \<open>Initialisation\<close>

text \<open>
  The allocator is not part of the sources: \<open>alloc n\<close> is the address the \<open>n\<close>-th cell
  allocation returns, \<open>None\<close> when it fails (the \<open>memset\<close> after it then faults).
  The arguments of the loop are the iterations left, \<open>n\<close>, \<open>tmp_pre\<close> and the queue.
\<close>

fun init_loop :: "(nat \<Rightarrow> ptr) \<Rightarrow> nat \<Rightarrow> nat \<Rightarrow> ptr \<Rightarrow> xsky_queue \<Rightarrow> (ptr \<times> xsky_queue) option" where
  "init_loop alloc 0 n tmp_pre q = Some (tmp_pre, q)"
| "init_loop alloc (Suc left) n tmp_pre q =
     (case alloc n of
        None \<Rightarrow> None
      | Some tmp \<Rightarrow>
          if n = 0 then
            init_loop alloc left (Suc n) (Some tmp) ((put_cell q tmp zero_cell)\<lparr>q_list := Some tmp\<rparr>)
          else do {
            pre \<leftarrow> tmp_pre;
            c \<leftarrow> q_cells q pre;
            init_loop alloc left (Suc n) (Some tmp)
              (put_cell (put_cell q pre (c\<lparr>qd_next := Some tmp\<rparr>)) tmp
                 (zero_cell\<lparr>qd_previous := Some pre\<rparr>))
          })"

definition xsky_queue_init :: "(nat \<Rightarrow> ptr) \<Rightarrow> nat \<Rightarrow> xsky_queue option" where
  "xsky_queue_init alloc qsize = do {
     (tmp, q) \<leftarrow> init_loop alloc qsize 0 None zero_queue;
     l \<leftarrow> q_list q;
     lc \<leftarrow> q_cells q l;
     let q = put_cell q l (lc\<lparr>qd_previous := tmp\<rparr>);
     t \<leftarrow> tmp;
     tc \<leftarrow> q_cells q t;
     let q = put_cell q t (tc\<lparr>qd_next := q_list q\<rparr>);
     Some (q\<lparr>q_size := of_nat qsize\<rparr>)
   }"

section \<open>Push and pop\<close>

definition push_check :: "xsky_queue \<Rightarrow> u64 \<Rightarrow> int" where
  "push_check q sz =
     (if unat sz > XSKY_MTU then -1 else if q_size q = q_have q then -2 else 0)"

definition push_locked :: "xsky_queue \<Rightarrow> byte list \<Rightarrow> u64 \<Rightarrow> xsky_queue option" where
  "push_locked q data sz = do {
     (q, tmp) \<leftarrow>
       (if q_have q = 0 then do {
          tmp \<leftarrow> q_list q;
          c \<leftarrow> q_cells q tmp;
          d \<leftarrow> memcpy (qd_data c) data (unat sz);
          Some ((put_cell q tmp (c\<lparr>qd_size := sz, qd_data := d\<rparr>))\<lparr>q_begin := Some tmp\<rparr>, tmp)
        } else do {
          lst \<leftarrow> cell_at q (q_end q);
          tmp \<leftarrow> qd_next lst;
          c \<leftarrow> q_cells q tmp;
          d \<leftarrow> memcpy (qd_data c) data (unat sz);
          Some (put_cell q tmp (c\<lparr>qd_size := sz, qd_data := d\<rparr>), tmp)
        });
     Some (q\<lparr>q_end := Some tmp, q_have := q_have q + 1\<rparr>)
   }"

definition xsky_queue_push :: "xsky_queue \<Rightarrow> byte list \<Rightarrow> u64 \<Rightarrow> (xsky_queue \<times> int) option" where
  "xsky_queue_push q data sz =
     (let r = push_check q sz
      in if r \<noteq> 0 then Some (q, r) else do { q' \<leftarrow> push_locked q data sz; Some (q', 0) })"

definition pop_check :: "xsky_queue \<Rightarrow> bool" where
  "pop_check q \<longleftrightarrow> q_have q \<noteq> 0"

definition pop_locked :: "xsky_queue \<Rightarrow> (xsky_queue \<times> ptr) option" where
  "pop_locked q = do {
     c \<leftarrow> cell_at q (q_begin q);
     Some (q\<lparr>q_begin := qd_next c, q_have := q_have q - 1\<rparr>, q_begin q)
   }"

definition xsky_queue_pop :: "xsky_queue \<Rightarrow> (xsky_queue \<times> ptr) option" where
  "xsky_queue_pop q = (if pop_check q then pop_locked q else Some (q, None))"

definition xsky_queue_reset :: "xsky_queue \<Rightarrow> xsky_queue" where
  "xsky_queue_reset q = q\<lparr>q_have := 0\<rparr>"

section \<open>Release\<close>

text \<open>The cells that are freed leave the store, so a use after free is \<open>None\<close>.\<close>

fun release_loop :: "nat \<Rightarrow> ptr \<Rightarrow> xsky_queue \<Rightarrow> xsky_queue option" where
  "release_loop 0 tmp_a q = Some q"
| "release_loop (Suc left) tmp_a q = do {
     a \<leftarrow> tmp_a;
     c \<leftarrow> q_cells q a;
     release_loop left (qd_next c) (q\<lparr>q_cells := (q_cells q)(a := None)\<rparr>)
   }"

definition xsky_queue_release :: "xsky_queue \<Rightarrow> (addr \<rightharpoonup> xsky_queue_data) option" where
  "xsky_queue_release q =
     map_option q_cells (release_loop (unat (q_size q)) (q_list q) q)"

section \<open>The ring invariant\<close>

definition ring_cells :: "xsky_queue \<Rightarrow> addr list \<Rightarrow> bool" where
  "ring_cells q xs \<longleftrightarrow> xs \<noteq> [] \<and> distinct xs \<and>
     (\<forall>i < length xs. \<exists>c. q_cells q (xs ! i) = Some c \<and>
        qd_next c = Some (xs ! ((i + 1) mod length xs)) \<and>
        qd_previous c = Some (xs ! ((i + length xs - 1) mod length xs)) \<and>
        length (qd_data c) = XSKY_MTU \<and> unat (qd_size c) \<le> XSKY_MTU)"

definition payload :: "xsky_queue \<Rightarrow> addr \<Rightarrow> byte list" where
  "payload q a =
     (case q_cells q a of None \<Rightarrow> [] | Some c \<Rightarrow> take (unat (qd_size c)) (qd_data c))"

text \<open>
  \<open>ring_inv q xs b\<close>: the cells of the ring are \<open>xs\<close>, in \<open>next\<close> order from \<open>list\<close>; when the
  queue is not empty, \<open>begin\<close> is the cell of index \<open>b\<close> (modulo the ring's length) and
  \<open>end\<close> the cell \<open>have - 1\<close> places after it.
\<close>

definition ring_inv :: "xsky_queue \<Rightarrow> addr list \<Rightarrow> nat \<Rightarrow> bool" where
  "ring_inv q xs b \<longleftrightarrow> ring_cells q xs \<and> q_list q = Some (xs ! 0) \<and>
     unat (q_size q) = length xs \<and> unat (q_have q) \<le> length xs \<and>
     (q_have q \<noteq> 0 \<longrightarrow>
        q_begin q = Some (xs ! (b mod length xs)) \<and>
        q_end q = Some (xs ! ((b + (unat (q_have q) - 1)) mod length xs)))"

text \<open>\<open>queue_on xs q\<close>: moreover the store holds the ring's cells and no others.\<close>

definition queue_on :: "addr list \<Rightarrow> xsky_queue \<Rightarrow> bool" where
  "queue_on xs q \<longleftrightarrow> (\<exists>b. ring_inv q xs b) \<and> dom (q_cells q) = set xs"

definition queue_ok :: "xsky_queue \<Rightarrow> bool" where
  "queue_ok q \<longleftrightarrow> (\<exists>xs. queue_on xs q)"

text \<open>The queue's contents: what \<open>have\<close> steps along \<open>next\<close> from \<open>begin\<close> meet.\<close>

fun walk :: "xsky_queue \<Rightarrow> nat \<Rightarrow> ptr \<Rightarrow> byte list list" where
  "walk q 0 p = []"
| "walk q (Suc n) None = []"
| "walk q (Suc n) (Some a) =
     payload q a # (case q_cells q a of None \<Rightarrow> [] | Some c \<Rightarrow> walk q n (qd_next c))"

definition q_contents :: "xsky_queue \<Rightarrow> byte list list" where
  "q_contents q = walk q (unat (q_have q)) (q_begin q)"

lemma ring_cells_length: "ring_cells q xs \<Longrightarrow> 0 < length xs"
  by (auto simp: ring_cells_def)

lemma ring_cellsD:
  assumes "ring_cells q xs"
  obtains c where "q_cells q (xs ! (k mod length xs)) = Some c"
    "qd_next c = Some (xs ! ((k + 1) mod length xs))" "length (qd_data c) = XSKY_MTU"
    "unat (qd_size c) \<le> XSKY_MTU"
proof -
  have "k mod length xs < length xs" using ring_cells_length [OF assms] by simp
  then obtain c where "q_cells q (xs ! (k mod length xs)) = Some c"
    "qd_next c = Some (xs ! ((k mod length xs + 1) mod length xs))" "length (qd_data c) = XSKY_MTU"
    "unat (qd_size c) \<le> XSKY_MTU"
    using assms unfolding ring_cells_def by blast
  then show ?thesis using that by (simp add: mod_Suc_eq)
qed

lemma walk_ring:
  assumes "ring_cells q xs"
  shows "walk q m (Some (xs ! (b mod length xs))) =
           map (\<lambda>k. payload q (xs ! ((b + k) mod length xs))) [0..<m]"
proof (induction m arbitrary: b)
  case (Suc m)
  obtain c where "q_cells q (xs ! (b mod length xs)) = Some c"
    "qd_next c = Some (xs ! ((b + 1) mod length xs))"
    using ring_cellsD [OF assms] by blast
  then have "walk q (Suc m) (Some (xs ! (b mod length xs))) =
      payload q (xs ! (b mod length xs)) #
        map (\<lambda>k. payload q (xs ! ((b + 1 + k) mod length xs))) [0..<m]"
    using Suc by simp
  also have "\<dots> = map (\<lambda>k. payload q (xs ! ((b + k) mod length xs))) [0..<Suc m]"
    by (simp add: upt_conv_Cons map_Suc_upt [symmetric] comp_def del: upt_Suc)
  finally show ?case .
qed simp

lemma contents_ring:
  assumes "ring_inv q xs b"
  shows "q_contents q =
           map (\<lambda>k. payload q (xs ! ((b + k) mod length xs))) [0..<unat (q_have q)]"
  using assms walk_ring [of q xs "unat (q_have q)" b]
  by (cases "q_have q = 0") (auto simp: q_contents_def ring_inv_def)

lemma contents_length: "queue_on xs q \<Longrightarrow> length (q_contents q) = unat (q_have q)"
  by (auto simp: queue_on_def contents_ring)

section \<open>Push appends, pop removes the front\<close>

text \<open>Writing one cell's size and data keeps the ring's shape.\<close>

lemma ring_cells_write:
  assumes "ring_cells q xs" and "q_cells q (xs ! (j mod length xs)) = Some c"
    and "length d = XSKY_MTU" and "unat s \<le> XSKY_MTU"
  shows "ring_cells (put_cell q (xs ! (j mod length xs)) (c\<lparr>qd_size := s, qd_data := d\<rparr>)) xs"
  using assms unfolding ring_cells_def put_cell_def by fastforce

lemma ring_cells_frame [simp]:
  "ring_cells (q\<lparr>q_begin := p\<rparr>) xs = ring_cells q xs"
  "ring_cells (q\<lparr>q_end := p\<rparr>) xs = ring_cells q xs"
  "ring_cells (q\<lparr>q_have := h\<rparr>) xs = ring_cells q xs"
  by (simp_all add: ring_cells_def)

lemma payload_frame [simp]:
  "payload (q\<lparr>q_begin := p\<rparr>) a = payload q a"
  "payload (q\<lparr>q_end := p\<rparr>) a = payload q a"
  "payload (q\<lparr>q_have := h\<rparr>) a = payload q a"
  "payload (put_cell q x c) a =
     (if a = x then take (unat (qd_size c)) (qd_data c) else payload q a)"
  by (simp_all add: payload_def put_cell_def)

lemma put_cell_frame [simp]:
  "q_begin (put_cell q a c) = q_begin q" "q_end (put_cell q a c) = q_end q"
  "q_list (put_cell q a c) = q_list q" "q_have (put_cell q a c) = q_have q"
  "q_size (put_cell q a c) = q_size q"
  "q_cells (put_cell q a c) = (q_cells q)(a \<mapsto> c)"
  by (simp_all add: put_cell_def)

text \<open>The locked body of push, with the index of the cell it writes.\<close>

lemma push_locked_eq:
  assumes inv: "ring_inv q xs b" and sz: "unat sz \<le> XSKY_MTU" "unat sz \<le> length data"
    and b: "b' = (if q_have q = 0 then 0 else b)"
  obtains c q' where
    "q_cells q (xs ! ((b' + unat (q_have q)) mod length xs)) = Some c"
    "push_locked q data sz = Some q'"
    "q' = (put_cell q (xs ! ((b' + unat (q_have q)) mod length xs))
            (c\<lparr>qd_size := sz, qd_data := take (unat sz) data @ drop (unat sz) (qd_data c)\<rparr>))
            \<lparr>q_begin := Some (xs ! (b' mod length xs)),
             q_end := Some (xs ! ((b' + unat (q_have q)) mod length xs)), q_have := q_have q + 1\<rparr>"
    "length (qd_data c) = XSKY_MTU"
proof (cases "q_have q = 0")
  case True
  have r: "ring_cells q xs" using inv by (simp add: ring_inv_def)
  obtain c where c: "q_cells q (xs ! (0 mod length xs)) = Some c" "length (qd_data c) = XSKY_MTU"
    using ring_cellsD [OF r, of 0] by blast
  show ?thesis
  proof (rule that)
    show "q_cells q (xs ! ((b' + unat (q_have q)) mod length xs)) = Some c"
      using c b True by simp
    show "push_locked q data sz = Some ((put_cell q (xs ! ((b' + unat (q_have q)) mod length xs))
            (c\<lparr>qd_size := sz, qd_data := take (unat sz) data @ drop (unat sz) (qd_data c)\<rparr>))
            \<lparr>q_begin := Some (xs ! (b' mod length xs)),
             q_end := Some (xs ! ((b' + unat (q_have q)) mod length xs)), q_have := q_have q + 1\<rparr>)"
      using c b True inv sz by (simp add: push_locked_def ring_inv_def xsky_mem)
  qed (use c in simp_all)
next
  case False
  have r: "ring_cells q xs" using inv by (simp add: ring_inv_def)
  have h: "b + (unat (q_have q) - 1) + 1 = b + unat (q_have q)"
    using False by (simp add: unat_gt_0)
  obtain l where l: "q_cells q (xs ! ((b + (unat (q_have q) - 1)) mod length xs)) = Some l"
    "qd_next l = Some (xs ! ((b + unat (q_have q)) mod length xs))"
    using ring_cellsD [OF r, of "b + (unat (q_have q) - 1)"] h by metis
  obtain c where c: "q_cells q (xs ! ((b + unat (q_have q)) mod length xs)) = Some c"
    "length (qd_data c) = XSKY_MTU"
    using ring_cellsD [OF r, of "b + unat (q_have q)"] by blast
  show ?thesis
  proof (rule that)
    show "q_cells q (xs ! ((b' + unat (q_have q)) mod length xs)) = Some c"
      using c b False by simp
    show "push_locked q data sz = Some ((put_cell q (xs ! ((b' + unat (q_have q)) mod length xs))
            (c\<lparr>qd_size := sz, qd_data := take (unat sz) data @ drop (unat sz) (qd_data c)\<rparr>))
            \<lparr>q_begin := Some (xs ! (b' mod length xs)),
             q_end := Some (xs ! ((b' + unat (q_have q)) mod length xs)), q_have := q_have q + 1\<rparr>)"
      using c l b False inv sz
      by (simp add: push_locked_def ring_inv_def cell_at_def xsky_mem)
  qed (use c in simp_all)
qed

lemma push_locked_inv:
  assumes inv: "ring_inv q xs b" and sz: "unat sz \<le> XSKY_MTU" "unat sz \<le> length data"
    and room: "unat (q_have q) < unat (q_size q)"
  obtains q' b' where "push_locked q data sz = Some q'" "ring_inv q' xs b'"
    "q_contents q' = q_contents q @ [take (unat sz) data]"
    "q_size q' = q_size q" "q_have q' = q_have q + 1" "dom (q_cells q') = dom (q_cells q)"
proof -
  define b' where "b' = (if q_have q = 0 then 0 else b)"
  let ?h = "unat (q_have q)" and ?n = "length xs"
  have inv': "ring_inv q xs b'" using inv by (auto simp: ring_inv_def b'_def)
  obtain c q' where c: "q_cells q (xs ! ((b' + ?h) mod ?n)) = Some c"
    and run: "push_locked q data sz = Some q'"
    and q': "q' = (put_cell q (xs ! ((b' + ?h) mod ?n))
            (c\<lparr>qd_size := sz, qd_data := take (unat sz) data @ drop (unat sz) (qd_data c)\<rparr>))
            \<lparr>q_begin := Some (xs ! (b' mod ?n)),
             q_end := Some (xs ! ((b' + ?h) mod ?n)), q_have := q_have q + 1\<rparr>"
    and len: "length (qd_data c) = XSKY_MTU"
    using push_locked_eq [OF inv sz b'_def] by blast
  have r: "ring_cells q xs" and n: "?h < ?n" and d: "distinct xs"
    using inv room by (auto simp: ring_inv_def ring_cells_def)
  have have': "unat (q_have q') = Suc ?h" using q' room by (simp add: unat_inc_less)
  have "ring_cells q' xs"
    unfolding q' using ring_cells_write [OF r c, of "take (unat sz) data @ drop (unat sz) (qd_data c)" sz]
      len sz by simp
  then have ok: "ring_inv q' xs b'"
    using inv' have' n by (auto simp: ring_inv_def q')
  have "q_contents q' = map (\<lambda>k. payload q' (xs ! ((b' + k) mod ?n))) [0..<Suc ?h]"
    using contents_ring [OF ok] have' by simp
  also have "\<dots> = map (\<lambda>k. payload q (xs ! ((b' + k) mod ?n))) [0..<?h] @ [take (unat sz) data]"
    using nth_mod_neq [OF d _ n, of _ b'] sz len by (auto simp: q')
  also have "\<dots> = q_contents q @ [take (unat sz) data]"
    using contents_ring [OF inv'] by simp
  moreover have "dom (q_cells q') = dom (q_cells q)" using c q' by auto
  ultimately show ?thesis using that run ok q' by simp
qed

lemma pop_locked_inv:
  assumes inv: "ring_inv q xs b" and ne: "q_have q \<noteq> 0"
  obtains q' a where "pop_locked q = Some (q', Some a)" "ring_inv q' xs (b + 1)"
    "q_contents q = payload q' a # q_contents q'"
    "q_size q' = q_size q" "q_have q' = q_have q - 1" "q_cells q' = q_cells q"
proof -
  let ?h = "unat (q_have q)" and ?n = "length xs"
  have r: "ring_cells q xs" using inv by (simp add: ring_inv_def)
  have bg: "q_begin q = Some (xs ! (b mod ?n))" using inv ne by (simp add: ring_inv_def)
  obtain c where c: "q_cells q (xs ! (b mod ?n)) = Some c" "qd_next c = Some (xs ! ((b + 1) mod ?n))"
    using ring_cellsD [OF r] by blast
  define q' where "q' = q\<lparr>q_begin := qd_next c, q_have := q_have q - 1\<rparr>"
  have run: "pop_locked q = Some (q', Some (xs ! (b mod ?n)))"
    using bg c by (simp add: pop_locked_def cell_at_def q'_def)
  have pos: "0 < ?h" using ne by (simp add: unat_gt_0)
  have h: "unat (q_have q - 1) = ?h - 1" using ne by (simp add: unat_dec_pos)
  have ok: "ring_inv q' xs (b + 1)"
  proof -
    have "b + 1 + (?h - 1 - 1) = b + (?h - 1)" if "q_have q - 1 \<noteq> 0"
      using that h by (metis One_nat_def Suc_pred add.assoc add.commute diff_is_0_eq' gr0I
          le_numeral_extra(4) pos unat_gt_0 zero_less_diff plus_1_eq_Suc)
    then show ?thesis using inv c ne h pos by (auto simp: ring_inv_def q'_def)
  qed
  have "q_contents q = map (\<lambda>k. payload q (xs ! ((b + k) mod ?n))) [0..<Suc (?h - 1)]"
    using contents_ring [OF inv] pos by simp
  also have "\<dots> = payload q' (xs ! (b mod ?n)) # q_contents q'"
    using contents_ring [OF ok] h
    by (simp add: q'_def upt_conv_Cons map_Suc_upt [symmetric] comp_def del: upt_Suc)
  finally show ?thesis using that run ok by (simp add: q'_def)
qed

lemma have_neq_room:
  "ring_inv q xs b \<Longrightarrow> q_size q \<noteq> q_have q \<Longrightarrow> unat (q_have q) < unat (q_size q)"
  by (metis le_neq_implies_less ring_inv_def unsigned_word_eqI)

section \<open>Initialisation and release\<close>

text \<open>The chain the initialisation loop has built after \<open>n\<close> cells.\<close>

definition chain_inv :: "(nat \<Rightarrow> addr) \<Rightarrow> nat \<Rightarrow> xsky_queue \<Rightarrow> bool" where
  "chain_inv f n q \<longleftrightarrow> q_have q = 0 \<and> dom (q_cells q) = f ` {..<n} \<and>
     (0 < n \<longrightarrow> q_list q = Some (f 0)) \<and>
     (\<forall>i < n. \<exists>c. q_cells q (f i) = Some c \<and> length (qd_data c) = XSKY_MTU \<and> qd_size c = 0 \<and>
        qd_next c = (if i + 1 < n then Some (f (i + 1)) else None) \<and>
        qd_previous c = (if i = 0 then None else Some (f (i - 1))))"

lemma chain_invE:
  assumes "chain_inv f n q" "i < n"
  obtains c where "q_cells q (f i) = Some c" "length (qd_data c) = XSKY_MTU" "qd_size c = 0"
    "qd_next c = (if i + 1 < n then Some (f (i + 1)) else None)"
    "qd_previous c = (if i = 0 then None else Some (f (i - 1)))"
  using assms unfolding chain_inv_def by blast

lemma zero_cell_data [simp]: "length (qd_data zero_cell) = XSKY_MTU"
  "qd_next zero_cell = None" "qd_previous zero_cell = None" "qd_size zero_cell = 0"
  by (simp_all add: zero_cell_def)

lemma chain_inv_step:
  assumes ch: "chain_inv f n q" and n: "0 < n" and inj: "inj_on f {..<Suc n}"
    and c: "q_cells q (f (n - 1)) = Some c"
  shows "chain_inv f (Suc n) (put_cell (put_cell q (f (n - 1)) (c\<lparr>qd_next := Some (f n)\<rparr>)) (f n)
           (zero_cell\<lparr>qd_previous := Some (f (n - 1))\<rparr>))"
    (is "chain_inv f (Suc n) ?q'")
proof -
  have neq: "i < Suc n \<Longrightarrow> j < Suc n \<Longrightarrow> f i = f j \<longleftrightarrow> i = j" for i j
    using inj by (auto simp: inj_on_def)
  have cells: "\<exists>d. q_cells ?q' (f i) = Some d \<and> length (qd_data d) = XSKY_MTU \<and> qd_size d = 0 \<and>
      qd_next d = (if i + 1 < Suc n then Some (f (i + 1)) else None) \<and>
      qd_previous d = (if i = 0 then None else Some (f (i - 1)))" if i: "i < Suc n" for i
  proof -
    consider "i = n" | "i = n - 1" "i \<noteq> n" | "i < n" "i \<noteq> n - 1" using i by linarith
    then show ?thesis
    proof cases
      case 1
      then show ?thesis using n by simp
    next
      case 2
      then have "f i \<noteq> f n" using n neq [of i n] by simp
      moreover have "i < n" using 2 n by simp
      ultimately show ?thesis using 2 n c
        by - (rule chain_invE [OF ch, of i], assumption, auto)
    next
      case 3
      then have "f i \<noteq> f n" "f i \<noteq> f (n - 1)" using neq [of i n] neq [of i "n - 1"] i by auto
      then show ?thesis using 3 ch by (auto simp: chain_inv_def)
    qed
  qed
  have "dom (q_cells ?q') = f ` {..<Suc n}"
    using ch c n by (auto simp: chain_inv_def lessThan_Suc)
  with cells show ?thesis using ch n by (simp add: chain_inv_def)
qed

lemma init_loop_chain:
  assumes "\<And>k. k < n + left \<Longrightarrow> alloc k = Some (f k)" "inj_on f {..<n + left}"
    "chain_inv f n q" "tmp = (if n = 0 then None else Some (f (n - 1)))"
  shows "\<exists>q'. init_loop alloc left n tmp q =
           Some (if n + left = 0 then None else Some (f (n + left - 1)), q') \<and> chain_inv f (n + left) q'"
  using assms
proof (induction left arbitrary: n tmp q)
  case (Suc left)
  have al: "alloc n = Some (f n)" using Suc.prems(1) by simp
  have inj: "inj_on f {..<Suc n}" using Suc.prems(2) by (rule inj_on_subset) auto
  show ?case
  proof (cases "n = 0")
    case True
    have "chain_inv f (Suc n) ((put_cell q (f n) zero_cell)\<lparr>q_list := Some (f n)\<rparr>)"
      using Suc.prems(3) True by (simp add: chain_inv_def lessThan_Suc)
    from Suc.IH [OF _ _ this] Suc.prems al True show ?thesis by simp
  next
    case False
    then obtain c where c: "q_cells q (f (n - 1)) = Some c"
      using Suc.prems(3) by (metis One_nat_def bot_nat_0.not_eq_extremum chain_inv_def diff_Suc_less)
    from chain_inv_step [OF Suc.prems(3) _ inj c] False
    have "chain_inv f (Suc n) (put_cell (put_cell q (f (n - 1)) (c\<lparr>qd_next := Some (f n)\<rparr>)) (f n)
           (zero_cell\<lparr>qd_previous := Some (f (n - 1))\<rparr>))" by simp
    from Suc.IH [OF _ _ this] Suc.prems al False c show ?thesis by simp
  qed
qed simp

lemma mod_pred: "i < n \<Longrightarrow> (i + n - 1) mod n = (if i = 0 then n - 1 else i - 1)" for i n :: nat
  by (cases i) (auto simp: mod_if)

lemma mod_succ: "i < n \<Longrightarrow> (i + 1) mod n = (if i + 1 < n then i + 1 else 0)" for i n :: nat
  by (auto simp: mod_if)

text \<open>The last cell of the chain once the first one has its backward pointer.\<close>

lemma chain_tail:
  assumes ch: "chain_inv f n q" and n: "0 < n" and inj: "inj_on f {..<n}"
    and lc: "q_cells q (f 0) = Some lc" "length (qd_data lc) = XSKY_MTU" "qd_size lc = 0"
    and q1: "q1 = put_cell q (f 0) (lc\<lparr>qd_previous := Some (f (n - 1))\<rparr>)"
  obtains tc where "q_cells q1 (f (n - 1)) = Some tc" "length (qd_data tc) = XSKY_MTU" "qd_size tc = 0"
    "qd_previous tc = Some (f (if n = 1 then n - 1 else n - 2))"
proof (cases "n = 1")
  case False
  then have "f (n - 1) \<noteq> f 0" using n inj_onD [OF inj, of "n - 1" 0] by auto
  moreover obtain c where "q_cells q (f (n - 1)) = Some c" "length (qd_data c) = XSKY_MTU" "qd_size c = 0"
    "qd_previous c = Some (f (n - 1 - 1))"
  proof (rule chain_invE [OF ch, of "n - 1"])
    show "n - 1 < n" using n by simp
  qed (use False n in \<open>auto intro: that\<close>)
  ultimately show ?thesis using that False by (simp add: q1 numeral_2_eq_2)
qed (use that lc in \<open>simp add: q1\<close>)

text \<open>Every cell of the closed ring.\<close>

lemma closed_cell:
  assumes ch: "chain_inv f n q" and n: "0 < n" and inj: "inj_on f {..<n}" and l: "q_list q = Some (f 0)"
    and lc: "q_cells q (f 0) = Some lc" "length (qd_data lc) = XSKY_MTU" "qd_size lc = 0"
      "qd_next lc = (if 1 < n then Some (f 1) else None)"
    and q1: "q1 = put_cell q (f 0) (lc\<lparr>qd_previous := Some (f (n - 1))\<rparr>)"
    and tc: "q_cells q1 (f (n - 1)) = Some tc" "length (qd_data tc) = XSKY_MTU" "qd_size tc = 0"
      "qd_previous tc = Some (f (if n = 1 then n - 1 else n - 2))"
    and q2: "q2 = put_cell q1 (f (n - 1)) (tc\<lparr>qd_next := q_list q1\<rparr>)" and i: "i < n"
  shows "\<exists>c. q_cells q2 (f i) = Some c \<and> length (qd_data c) = XSKY_MTU \<and> qd_size c = 0 \<and>
    qd_next c = Some (f ((i + 1) mod n)) \<and> qd_previous c = Some (f ((i + n - 1) mod n))"
proof -
  have neq: "i < n \<Longrightarrow> j < n \<Longrightarrow> f i = f j \<longleftrightarrow> i = j" for i j
    using inj by (auto simp: inj_on_def)
  consider "i = n - 1" | "i = 0" "i \<noteq> n - 1" | "0 < i" "i < n - 1" using i by linarith
  then show ?thesis
  proof cases
    case 1
    then show ?thesis using tc l i mod_pred [OF i] mod_succ [OF i]
      by (auto simp: q2 q1 numeral_2_eq_2)
  next
    case 2
    then have "f 0 \<noteq> f (n - 1)" using neq [of 0 "n - 1"] n by simp
    then show ?thesis using 2 lc mod_pred [OF i] mod_succ [OF i] by (auto simp: q2 q1)
  next
    case 3
    then have "f i \<noteq> f (n - 1)" "f i \<noteq> f 0" using neq [of i "n - 1"] neq [of i 0] i by auto
    moreover have "\<exists>c. q_cells q (f i) = Some c \<and> length (qd_data c) = XSKY_MTU \<and> qd_size c = 0 \<and>
        qd_next c = Some (f (i + 1)) \<and> qd_previous c = Some (f (i - 1))"
      by (rule chain_invE [OF ch i]) (use 3 in simp)
    ultimately show ?thesis using 3 mod_pred [OF i] mod_succ [OF i] by (auto simp: q2 q1)
  qed
qed

lemma chain_close:
  assumes ch: "chain_inv f n q" and n: "0 < n" and inj: "inj_on f {..<n}"
  obtains q' where
    "(do { l \<leftarrow> q_list q;
           lc \<leftarrow> q_cells q l;
           let q = put_cell q l (lc\<lparr>qd_previous := Some (f (n - 1))\<rparr>);
           t \<leftarrow> Some (f (n - 1));
           tc \<leftarrow> q_cells q t;
           let q = put_cell q t (tc\<lparr>qd_next := q_list q\<rparr>);
           Some (q\<lparr>q_size := of_nat n\<rparr>) }) = Some q'"
    "ring_cells q' (map f [0..<n])" "q_list q' = Some (f 0)" "q_have q' = 0"
    "q_size q' = of_nat n" "dom (q_cells q') = f ` {..<n}"
proof -
  obtain lc where lc: "q_cells q (f 0) = Some lc" "length (qd_data lc) = XSKY_MTU" "qd_size lc = 0"
    "qd_next lc = (if 1 < n then Some (f 1) else None)"
    by (rule chain_invE [OF ch n]) simp
  define q1 where "q1 = put_cell q (f 0) (lc\<lparr>qd_previous := Some (f (n - 1))\<rparr>)"
  obtain tc where tc: "q_cells q1 (f (n - 1)) = Some tc" "length (qd_data tc) = XSKY_MTU" "qd_size tc = 0"
    "qd_previous tc = Some (f (if n = 1 then n - 1 else n - 2))"
    by (rule chain_tail [OF ch n inj lc(1-3) q1_def])
  define q2 where "q2 = put_cell q1 (f (n - 1)) (tc\<lparr>qd_next := q_list q1\<rparr>)"
  have l: "q_list q = Some (f 0)" using ch n by (simp add: chain_inv_def)
  note cell = closed_cell [OF ch n inj l lc q1_def tc q2_def]
  have dom: "dom (q_cells q2) = f ` {..<n}"
    using ch lc tc by (auto simp: q2_def q1_def chain_inv_def)
  have "\<exists>c. q_cells q2 (f i) = Some c \<and> length (qd_data c) = XSKY_MTU \<and> unat (qd_size c) \<le> XSKY_MTU \<and>
      qd_next c = Some (f ((i + 1) mod n)) \<and> qd_previous c = Some (f ((i + n - 1) mod n))"
    if "i < n" for i using cell [OF that] by fastforce
  then have ring: "ring_cells (q2\<lparr>q_size := of_nat n\<rparr>) (map f [0..<n])"
    using n inj by (auto simp: ring_cells_def distinct_map atLeast0LessThan)
  show ?thesis
    by (rule that [of "q2\<lparr>q_size := of_nat n\<rparr>"])
      (use ring dom l lc tc ch in \<open>simp_all add: q2_def q1_def chain_inv_def\<close>)
qed

lemma init_ring:
  assumes "\<And>k. k < n \<Longrightarrow> alloc k = Some (f k)" "inj_on f {..<n}" "0 < n" "n < 2 ^ 64"
  obtains q where "xsky_queue_init alloc n = Some q" "ring_inv q (map f [0..<n]) 0"
    "q_have q = 0" "unat (q_size q) = n" "dom (q_cells q) = f ` {..<n}"
proof -
  have z: "chain_inv f 0 zero_queue" by (simp add: chain_inv_def zero_queue_def)
  obtain q where q: "init_loop alloc n 0 None zero_queue = Some (Some (f (n - 1)), q)"
    and ch: "chain_inv f n q"
    using init_loop_chain [of 0 n alloc f zero_queue None] assms z by auto
  obtain q' where "xsky_queue_init alloc n = Some q'" "ring_cells q' (map f [0..<n])"
    "q_list q' = Some (f 0)" "q_have q' = 0" "q_size q' = of_nat n" "dom (q_cells q') = f ` {..<n}"
    by (rule chain_close [OF ch assms(3,2)]) (use q in \<open>simp add: xsky_queue_init_def\<close>)
  then show ?thesis using that assms by (simp add: ring_inv_def unat_of_nat take_bit_nat_eq_self)
qed

lemma release_loop_ring:
  assumes r: "ring_cells q xs" and "j + left = length xs"
  shows "release_loop left (Some (xs ! (j mod length xs))) (q\<lparr>q_cells := q_cells q |` (- set (take j xs))\<rparr>) =
           Some (q\<lparr>q_cells := q_cells q |` (- set xs)\<rparr>)"
  using assms(2)
proof (induction left arbitrary: j)
  case (Suc left)
  have j: "j < length xs" using Suc.prems by simp
  obtain c where c: "q_cells q (xs ! j) = Some c" "qd_next c = Some (xs ! ((j + 1) mod length xs))"
    using ring_cellsD [OF r, of j] j by (metis mod_less)
  have fresh: "xs ! j \<notin> set (take j xs)"
    using r j by (auto simp: ring_cells_def in_set_conv_nth nth_eq_iff_index_eq)
  have "(q_cells q |` (- set (take j xs)))(xs ! j := None) = q_cells q |` (- set (take (Suc j) xs))"
    using j by (auto simp: restrict_map_def take_Suc_conv_app_nth fun_eq_iff)
  then show ?case using Suc.IH [of "Suc j"] Suc.prems c fresh j by (simp add: restrict_map_def)
qed simp

lemma release_ring:
  assumes "ring_inv q xs b"
  shows "xsky_queue_release q = Some (q_cells q |` (- set xs))"
proof -
  have r: "ring_cells q xs" using assms by (simp add: ring_inv_def)
  have "q\<lparr>q_cells := q_cells q |` UNIV\<rparr> = q" by (simp add: restrict_map_def)
  then show ?thesis using release_loop_ring [OF r, of 0 "length xs"] assms ring_cells_length [OF r]
    by (simp add: xsky_queue_release_def ring_inv_def)
qed

section \<open>The interface: a bounded first-in first-out queue\<close>

text \<open>
  What the route module's hook and its character device rely on. The laws are over an
  abstraction \<open>contents\<close> of the queue and the reading \<open>view\<close> of a popped cell.
\<close>

datatype fifo_op = Push "byte list" u64 | Pop

fun fifo_run :: "('q \<Rightarrow> byte list \<Rightarrow> u64 \<Rightarrow> ('q \<times> int) option) \<Rightarrow> ('q \<Rightarrow> ('q \<times> 'c option) option) \<Rightarrow>
    ('q \<Rightarrow> 'c \<Rightarrow> byte list) \<Rightarrow> fifo_op list \<Rightarrow> 'q \<Rightarrow> ('q \<times> byte list list \<times> byte list list) option" where
  "fifo_run push pop view [] q = Some (q, [], [])"
| "fifo_run push pop view (Push d s # ops) q = do {
     (q', r) \<leftarrow> push q d s;
     (q'', acc, out) \<leftarrow> fifo_run push pop view ops q';
     Some (q'', if r = 0 then take (unat s) d # acc else acc, out)
   }"
| "fifo_run push pop view (Pop # ops) q = do {
     (q', c) \<leftarrow> pop q;
     (q'', acc, out) \<leftarrow> fifo_run push pop view ops q';
     Some (q'', acc, case c of None \<Rightarrow> out | Some c \<Rightarrow> view q' c # out)
   }"

fun op_sized :: "fifo_op \<Rightarrow> bool" where
  "op_sized (Push d s) \<longleftrightarrow> unat s \<le> length d"
| "op_sized Pop \<longleftrightarrow> True"

locale packet_fifo =
  fixes inv :: "'q \<Rightarrow> bool"
    and contents :: "'q \<Rightarrow> byte list list"
    and cap :: "'q \<Rightarrow> nat"
    and push :: "'q \<Rightarrow> byte list \<Rightarrow> u64 \<Rightarrow> ('q \<times> int) option"
    and pop :: "'q \<Rightarrow> ('q \<times> 'c option) option"
    and view :: "'q \<Rightarrow> 'c \<Rightarrow> byte list"
    and reset :: "'q \<Rightarrow> 'q"
  assumes bounded: "inv q \<Longrightarrow> length (contents q) \<le> cap q"
    and push_big: "inv q \<Longrightarrow> XSKY_MTU < unat s \<Longrightarrow> push q d s = Some (q, -1)"
    and push_full: "inv q \<Longrightarrow> unat s \<le> XSKY_MTU \<Longrightarrow> length (contents q) = cap q \<Longrightarrow>
      push q d s = Some (q, -2)"
    and push_room: "inv q \<Longrightarrow> unat s \<le> XSKY_MTU \<Longrightarrow> unat s \<le> length d \<Longrightarrow>
      length (contents q) < cap q \<Longrightarrow>
      \<exists>q'. push q d s = Some (q', 0) \<and> inv q' \<and> contents q' = contents q @ [take (unat s) d] \<and>
        cap q' = cap q"
    and pop_empty: "inv q \<Longrightarrow> contents q = [] \<Longrightarrow> pop q = Some (q, None)"
    and pop_front: "inv q \<Longrightarrow> contents q = x # xs \<Longrightarrow>
      \<exists>q' c. pop q = Some (q', Some c) \<and> inv q' \<and> view q' c = x \<and> contents q' = xs \<and> cap q' = cap q"
    and reset_empties: "inv q \<Longrightarrow> inv (reset q) \<and> contents (reset q) = [] \<and> cap (reset q) = cap q"
begin

lemma push_total:
  assumes "inv q" "unat s \<le> length d"
  obtains q' r where "push q d s = Some (q', r)" "inv q'" "cap q' = cap q"
    "r = 0 \<longleftrightarrow> unat s \<le> XSKY_MTU \<and> length (contents q) < cap q"
    "contents q' = (if r = 0 then contents q @ [take (unat s) d] else contents q)"
proof (cases "XSKY_MTU < unat s")
  case True
  then show ?thesis using that [of q "-1"] push_big [OF assms(1) True] assms by simp
next
  case False
  show ?thesis
  proof (cases "length (contents q) < cap q")
    case True
    then show ?thesis
      using that push_room [OF assms(1) _ assms(2)] False by fastforce
  next
    case f: False
    then have "length (contents q) = cap q" using bounded [OF assms(1)] by simp
    then show ?thesis using that [of q "-2"] push_full [OF assms(1), of s d] False assms by simp
  qed
qed

lemma pop_total:
  assumes "inv q"
  obtains q' c where "pop q = Some (q', c)" "inv q'" "cap q' = cap q"
    "contents q = (case c of None \<Rightarrow> [] | Some c \<Rightarrow> [view q' c]) @ contents q'"
    "c = None \<longleftrightarrow> contents q = []"
proof (cases "contents q")
  case Nil
  then show ?thesis using that [of q None] pop_empty [OF assms] assms by simp
next
  case (Cons x xs)
  then show ?thesis using that pop_front [OF assms Cons] by fastforce
qed

lemma run_fifo:
  assumes "inv q" "list_all op_sized ops"
  shows "\<exists>q' acc out. fifo_run push pop view ops q = Some (q', acc, out) \<and> inv q' \<and>
           cap q' = cap q \<and> contents q @ acc = out @ contents q'"
  using assms
proof (induction ops arbitrary: q)
  case (Cons x ops)
  show ?case
  proof (cases x)
    case (Push d s)
    then have "unat s \<le> length d" using Cons.prems by simp
    with Cons.prems obtain q1 r where step: "push q d s = Some (q1, r)" "inv q1" "cap q1 = cap q"
      "contents q1 = (if r = 0 then contents q @ [take (unat s) d] else contents q)"
      by (auto elim: push_total [of q s d])
    moreover obtain q2 acc out where "fifo_run push pop view ops q1 = Some (q2, acc, out)" "inv q2"
      "cap q2 = cap q1" "contents q1 @ acc = out @ contents q2"
      using Cons.IH [OF step(2)] Cons.prems by auto
    ultimately show ?thesis using Push by auto
  next
    case Pop
    obtain q1 c where step: "pop q = Some (q1, c)" "inv q1" "cap q1 = cap q"
      "contents q = (case c of None \<Rightarrow> [] | Some c \<Rightarrow> [view q1 c]) @ contents q1"
      using pop_total Cons.prems(1) by metis
    moreover obtain q2 acc out where "fifo_run push pop view ops q1 = Some (q2, acc, out)" "inv q2"
      "cap q2 = cap q1" "contents q1 @ acc = out @ contents q2"
      using Cons.IH [OF step(2)] Cons.prems by auto
    ultimately show ?thesis using Pop by (auto split: option.splits)
  qed
qed simp

end

section \<open>The ring implements it\<close>

definition q_cap :: "xsky_queue \<Rightarrow> nat" where "q_cap q = unat (q_size q)"

lemma ring_push_room:
  assumes "queue_on xs q" "unat sz \<le> XSKY_MTU" "unat sz \<le> length d" "length (q_contents q) < q_cap q"
  shows "\<exists>q'. xsky_queue_push q d sz = Some (q', 0) \<and> queue_on xs q' \<and>
           q_contents q' = q_contents q @ [take (unat sz) d] \<and> q_cap q' = q_cap q"
proof -
  obtain b where inv: "ring_inv q xs b" using assms(1) by (auto simp: queue_on_def)
  have room: "unat (q_have q) < unat (q_size q)"
    using assms(4) contents_length [OF assms(1)] by (simp add: q_cap_def)
  obtain q' b' where "push_locked q d sz = Some q'" "ring_inv q' xs b'"
    "q_contents q' = q_contents q @ [take (unat sz) d]" "q_size q' = q_size q"
    "dom (q_cells q') = dom (q_cells q)"
    using push_locked_inv [OF inv assms(2,3) room] by metis
  moreover have "push_check q sz = 0" using assms(2) room by (auto simp: push_check_def)
  ultimately show ?thesis using assms(1) by (auto simp: xsky_queue_push_def queue_on_def q_cap_def)
qed

lemma ring_pop_front:
  assumes "queue_on xs q" "q_contents q = x # ys"
  shows "\<exists>q' a. xsky_queue_pop q = Some (q', Some a) \<and> queue_on xs q' \<and> payload q' a = x \<and>
           q_contents q' = ys \<and> q_cap q' = q_cap q"
proof -
  obtain b where inv: "ring_inv q xs b" using assms(1) by (auto simp: queue_on_def)
  have ne: "q_have q \<noteq> 0" using assms contents_length [OF assms(1)] by auto
  obtain q' a where "pop_locked q = Some (q', Some a)" "ring_inv q' xs (b + 1)"
    "q_contents q = payload q' a # q_contents q'" "q_size q' = q_size q" "q_cells q' = q_cells q"
    using pop_locked_inv [OF inv ne] by metis
  then show ?thesis using assms ne
    by (auto simp: xsky_queue_pop_def pop_check_def queue_on_def q_cap_def)
qed

lemma ring_reset: "queue_on xs q \<Longrightarrow> queue_on xs (xsky_queue_reset q) \<and>
    q_contents (xsky_queue_reset q) = [] \<and> q_cap (xsky_queue_reset q) = q_cap q"
  by (auto simp: queue_on_def xsky_queue_reset_def ring_inv_def q_contents_def q_cap_def)

interpretation ring: packet_fifo "queue_on xs" q_contents q_cap xsky_queue_push xsky_queue_pop
  payload xsky_queue_reset for xs
proof unfold_locales
  fix q :: xsky_queue assume ok: "queue_on xs q"
  show "length (q_contents q) \<le> q_cap q"
    using ok contents_length [OF ok] by (auto simp: queue_on_def ring_inv_def q_cap_def)
next
  fix q d and s :: u64 assume "queue_on xs q" "XSKY_MTU < unat s"
  then show "xsky_queue_push q d s = Some (q, -1)"
    by (simp add: xsky_queue_push_def push_check_def)
next
  fix q d and s :: u64
  assume "queue_on xs q" "unat s \<le> XSKY_MTU" "length (q_contents q) = q_cap q"
  then show "xsky_queue_push q d s = Some (q, -2)"
    by (auto simp: xsky_queue_push_def push_check_def contents_length q_cap_def word_unat_eq_iff)
next
  fix q assume "queue_on xs q" "q_contents q = []"
  then show "xsky_queue_pop q = Some (q, None)"
    using contents_length [of xs q] by (simp add: xsky_queue_pop_def pop_check_def unat_eq_0)
qed (use ring_push_room ring_pop_front ring_reset in blast)+

section \<open>Properties\<close>

text \<open>C19: push is total on a well-formed queue, on every branch: a packet larger than the MTU is
refused with \<open>-1\<close>, a full queue refuses with \<open>-2\<close>, and otherwise exactly the packet's first
\<open>size\<close> bytes are appended, no copy runs past a cell's buffer and no pointer dangles.\<close>

theorem queue_push_total:
  assumes "queue_ok q" "unat sz \<le> length d"
  shows "\<exists>q' r. xsky_queue_push q d sz = Some (q', r) \<and> queue_ok q' \<and>
           r = (if XSKY_MTU < unat sz then -1
                else if length (q_contents q) = unat (q_size q) then -2 else 0) \<and>
           q_contents q' = (if r = 0 then q_contents q @ [take (unat sz) d] else q_contents q)"
proof -
  obtain xs where on: "queue_on xs q" using assms(1) by (auto simp: queue_ok_def)
  show ?thesis
  proof (cases "XSKY_MTU < unat sz \<or> length (q_contents q) = q_cap q")
    case True
    then show ?thesis using assms ring.push_big [OF on, of sz d] ring.push_full [OF on, of sz d]
      by (auto simp: q_cap_def)
  next
    case False
    then show ?thesis
      using ring.push_room [OF on _ assms(2)] ring.bounded [OF on]
      by (fastforce simp: q_cap_def queue_ok_def)
  qed
qed

lemma run_release:
  assumes "queue_on xs q" shows "xsky_queue_release q = Some Map.empty"
proof -
  obtain b where "ring_inv q xs b" "dom (q_cells q) = set xs" using assms by (auto simp: queue_on_def)
  then show ?thesis using release_ring by (auto simp: restrict_map_def fun_eq_iff)
qed

lemma init_queue_on:
  assumes "\<And>k. k < n \<Longrightarrow> alloc k = Some (f k)" "inj_on f {..<n}" "0 < n" "n < 2 ^ 64"
  obtains q where "xsky_queue_init alloc n = Some q" "queue_on (map f [0..<n]) q"
    "q_contents q = []" "q_cap q = n"
proof -
  obtain q where "xsky_queue_init alloc n = Some q" "ring_inv q (map f [0..<n]) 0"
    "q_have q = 0" "unat (q_size q) = n" "dom (q_cells q) = f ` {..<n}"
    using init_ring [OF assms] by metis
  then show ?thesis using that
    by (auto simp: queue_on_def q_contents_def q_cap_def atLeast0LessThan)
qed


section \<open>Witnesses\<close>

definition three_ops :: "fifo_op list" where
  "three_ops = [Push [1, 2, 3] 2, Pop, Push [4] 1]"

lemma three_ops_sized: "list_all op_sized three_ops" by (simp add: three_ops_def)

lemma sample_queue_ok: "queue_ok (the (xsky_queue_init Some 2))"
proof -
  have "inj_on (\<lambda>k. k) {..<2::nat}" by simp
  then obtain q where "xsky_queue_init Some 2 = Some q" "queue_on (map (\<lambda>k. k) [0..<2]) q"
    using init_queue_on [of 2 Some "\<lambda>k. k"] by auto
  then show ?thesis by (auto simp: queue_ok_def)
qed

theorem queue_push_total_witness:
  "\<exists>q' r. xsky_queue_push (the (xsky_queue_init Some 2)) [7, 8] 1 = Some (q', r) \<and> queue_ok q'"
  using queue_push_total [OF sample_queue_ok, of 1 "[7, 8]"] by auto


end
