(* ===== verification/Queue_Concurrency.thy ===== *)
theory Queue_Concurrency
  imports Ring_Queue
begin

text \<open>
  The packet queue of \<open>route/queue.h\<close> used by several CPUs at once. \<open>xsky_queue_push\<close> and
  \<open>xsky_queue_pop\<close> read \<open>have\<close> before they take the spin lock, so each is two atomic steps
  with other CPUs' steps between them: the unlocked test (\<open>push_check\<close>, \<open>pop_check\<close>) and the
  locked body (\<open>push_locked\<close>, \<open>pop_locked\<close>). \<open>xsky_queue_reset\<close> takes no lock; the device
  calls it when the last file is closed, with no reader running.

  \<open>qstep P C\<close> is one step of a system with producers \<open>P\<close> (CPUs in the netfilter hook) and
  consumers \<open>C\<close> (threads reading the device). \<open>sys_in\<close> and \<open>sys_out\<close> record the packets
  stored and taken; a reset forgets the packets it discards.

  With one producer and one consumer every interleaving is safe; with two producers the
  count can pass the capacity.
\<close>

section \<open>The step relation\<close>

datatype prod_pc = PIdle | PChecked "byte list" u64
datatype cons_pc = CIdle | CChecked

record qsys =
  sys_q :: xsky_queue
  sys_prod :: "nat \<Rightarrow> prod_pc"
  sys_cons :: "nat \<Rightarrow> cons_pc"
  sys_in :: "byte list list"
  sys_out :: "byte list list"
  sys_fault :: bool

definition qsys_init :: "xsky_queue \<Rightarrow> qsys" where
  "qsys_init q = \<lparr>sys_q = q, sys_prod = (\<lambda>_. PIdle), sys_cons = (\<lambda>_. CIdle),
     sys_in = [], sys_out = [], sys_fault = False\<rparr>"

inductive qstep :: "nat set \<Rightarrow> nat set \<Rightarrow> qsys \<Rightarrow> qsys \<Rightarrow> bool" for P C where
  push_pass: "i \<in> P \<Longrightarrow> sys_prod s i = PIdle \<Longrightarrow> unat sz \<le> length d \<Longrightarrow> push_check (sys_q s) sz = 0 \<Longrightarrow>
    qstep P C s (s\<lparr>sys_prod := (sys_prod s)(i := PChecked d sz)\<rparr>)"
| push_refuse: "i \<in> P \<Longrightarrow> sys_prod s i = PIdle \<Longrightarrow> push_check (sys_q s) sz \<noteq> 0 \<Longrightarrow> qstep P C s s"
| push_store: "i \<in> P \<Longrightarrow> sys_prod s i = PChecked d sz \<Longrightarrow> push_locked (sys_q s) d sz = Some q' \<Longrightarrow>
    qstep P C s (s\<lparr>sys_q := q', sys_prod := (sys_prod s)(i := PIdle),
      sys_in := sys_in s @ [take (unat sz) d]\<rparr>)"
| push_fault: "i \<in> P \<Longrightarrow> sys_prod s i = PChecked d sz \<Longrightarrow> push_locked (sys_q s) d sz = None \<Longrightarrow>
    qstep P C s (s\<lparr>sys_fault := True\<rparr>)"
| pop_pass: "j \<in> C \<Longrightarrow> sys_cons s j = CIdle \<Longrightarrow> pop_check (sys_q s) \<Longrightarrow>
    qstep P C s (s\<lparr>sys_cons := (sys_cons s)(j := CChecked)\<rparr>)"
| pop_empty: "j \<in> C \<Longrightarrow> sys_cons s j = CIdle \<Longrightarrow> \<not> pop_check (sys_q s) \<Longrightarrow> qstep P C s s"
| pop_take: "j \<in> C \<Longrightarrow> sys_cons s j = CChecked \<Longrightarrow> pop_locked (sys_q s) = Some (q', Some a) \<Longrightarrow>
    qstep P C s (s\<lparr>sys_q := q', sys_cons := (sys_cons s)(j := CIdle),
      sys_out := sys_out s @ [payload q' a]\<rparr>)"
| pop_fault: "j \<in> C \<Longrightarrow> sys_cons s j = CChecked \<Longrightarrow> \<not> (\<exists>q' a. pop_locked (sys_q s) = Some (q', Some a)) \<Longrightarrow>
    qstep P C s (s\<lparr>sys_fault := True\<rparr>)"
| reset: "\<forall>j \<in> C. sys_cons s j = CIdle \<Longrightarrow>
    qstep P C s (s\<lparr>sys_q := xsky_queue_reset (sys_q s), sys_in := sys_out s\<rparr>)"

inductive qreach :: "nat set \<Rightarrow> nat set \<Rightarrow> xsky_queue \<Rightarrow> qsys \<Rightarrow> bool" for P C q where
  start: "qreach P C q (qsys_init q)"
| step: "qreach P C q s \<Longrightarrow> qstep P C s t \<Longrightarrow> qreach P C q t"

section \<open>One producer and one consumer\<close>

definition spsc_inv :: "addr list \<Rightarrow> nat \<Rightarrow> nat \<Rightarrow> nat \<Rightarrow> qsys \<Rightarrow> bool" where
  "spsc_inv xs n p c s \<longleftrightarrow> \<not> sys_fault s \<and> queue_on xs (sys_q s) \<and> q_cap (sys_q s) = n \<and>
     sys_in s = sys_out s @ q_contents (sys_q s) \<and>
     (\<forall>d sz. sys_prod s p = PChecked d sz \<longrightarrow>
        unat sz \<le> XSKY_MTU \<and> unat sz \<le> length d \<and> unat (q_have (sys_q s)) < unat (q_size (sys_q s))) \<and>
     (sys_cons s c = CChecked \<longrightarrow> q_have (sys_q s) \<noteq> 0)"

lemma push_check_zero:
  assumes "queue_on xs q" "push_check q sz = 0"
  shows "unat sz \<le> XSKY_MTU" "unat (q_have q) < unat (q_size q)"
  using assms have_neq_room by (auto simp: push_check_def queue_on_def split: if_splits)

lemma push_locked_on:
  assumes "queue_on xs q" "unat sz \<le> XSKY_MTU" "unat sz \<le> length d" "unat (q_have q) < unat (q_size q)"
  obtains q' where "push_locked q d sz = Some q'" "queue_on xs q'" "q_cap q' = q_cap q"
    "q_contents q' = q_contents q @ [take (unat sz) d]" "q_have q' \<noteq> 0"
proof -
  obtain b where inv: "ring_inv q xs b" using assms(1) by (auto simp: queue_on_def)
  obtain q' b' where "push_locked q d sz = Some q'" "ring_inv q' xs b'" "q_have q' = q_have q + 1"
    "q_contents q' = q_contents q @ [take (unat sz) d]" "q_size q' = q_size q"
    "dom (q_cells q') = dom (q_cells q)"
    using push_locked_inv [OF inv assms(2-4)] by metis
  moreover have "q_have q + 1 \<noteq> 0"
    using assms(4) unat_inc_less [of "q_have q" "q_size q"] by (metis nat.distinct(1) unat_0)
  ultimately show ?thesis using that assms(1) by (auto simp: queue_on_def q_cap_def)
qed

lemma pop_locked_on:
  assumes "queue_on xs q" "q_have q \<noteq> 0"
  obtains q' a where "pop_locked q = Some (q', Some a)" "queue_on xs q'" "q_cap q' = q_cap q"
    "q_contents q = payload q' a # q_contents q'"
    "unat (q_have q) \<le> unat (q_size q)" "unat (q_have q') < unat (q_size q')"
proof -
  obtain b where inv: "ring_inv q xs b" using assms(1) by (auto simp: queue_on_def)
  obtain q' a where "pop_locked q = Some (q', Some a)" "ring_inv q' xs (b + 1)"
    "q_contents q = payload q' a # q_contents q'" "q_size q' = q_size q"
    "q_have q' = q_have q - 1" "q_cells q' = q_cells q"
    using pop_locked_inv [OF inv assms(2)] by metis
  moreover have "unat (q_have q) \<le> unat (q_size q)" using inv by (simp add: ring_inv_def)
  moreover have "unat (q_have q - 1) < unat (q_have q)"
    using assms(2) by (simp add: unat_dec_pos unat_gt_0)
  ultimately show ?thesis using that assms(1) by (auto simp: queue_on_def q_cap_def)
qed

lemma spsc_step:
  assumes "qstep {p} {c} s t" "spsc_inv xs n p c s"
  shows "spsc_inv xs n p c t"
  using assms
proof (induction rule: qstep.induct)
  case (push_pass i s sz d)
  then show ?case using push_check_zero [of xs "sys_q s" sz] by (auto simp: spsc_inv_def)
next
  case (push_store i s d sz q')
  then show ?case
    using push_locked_on [of xs "sys_q s" sz d] by (fastforce simp: spsc_inv_def)
next
  case (push_fault i s d sz)
  then show ?case using push_locked_on [of xs "sys_q s" sz d] by (fastforce simp: spsc_inv_def)
next
  case (pop_pass j s)
  then show ?case by (auto simp: spsc_inv_def pop_check_def)
next
  case (pop_take j s q' a)
  then show ?case using pop_locked_on [of xs "sys_q s"] by (fastforce simp: spsc_inv_def)
next
  case (pop_fault j s)
  then show ?case using pop_locked_on [of xs "sys_q s"] by (fastforce simp: spsc_inv_def)
next
  case (reset s)
  then have "unat (q_size (sys_q s)) \<noteq> 0"
    by (auto simp: spsc_inv_def queue_on_def ring_inv_def ring_cells_def)
  then show ?case using reset ring_reset [of xs "sys_q s"]
    by (auto simp: spsc_inv_def xsky_queue_reset_def)
qed (auto simp: spsc_inv_def)

lemma spsc_init:
  "queue_on xs q \<Longrightarrow> q_contents q = [] \<Longrightarrow> spsc_inv xs (q_cap q) p c (qsys_init q)"
  by (simp add: spsc_inv_def qsys_init_def)

lemma spsc_reach:
  assumes "qreach {p} {c} q s" "queue_on xs q" "q_contents q = []"
  shows "spsc_inv xs (q_cap q) p c s"
  using assms(1)
proof (induction rule: qreach.induct)
  case start
  show ?case using assms(2,3) by (rule spsc_init)
next
  case (step s t)
  then show ?case by (blast intro: spsc_step)
qed

section \<open>Two producers\<close>

text \<open>Runs of whole pushes fill the queue to any level below its capacity.\<close>

lemma fill:
  assumes "queue_on xs q" "q_contents q = []" "k \<le> q_cap q" "i \<in> P"
  shows "\<exists>s. qreach P C q s \<and> sys_prod s = (\<lambda>_. PIdle) \<and> queue_on xs (sys_q s) \<and>
           q_cap (sys_q s) = q_cap q \<and> length (q_contents (sys_q s)) = k"
  using assms(3)
proof (induction k)
  case 0
  show ?case using assms
    by (intro exI [of _ "qsys_init q"]) (auto simp: qsys_init_def intro: qreach.start [unfolded qsys_init_def])
next
  case (Suc k)
  then obtain s where s: "qreach P C q s" "sys_prod s = (\<lambda>_. PIdle)" "queue_on xs (sys_q s)"
    "q_cap (sys_q s) = q_cap q" "length (q_contents (sys_q s)) = k" by auto
  then have room: "unat (q_have (sys_q s)) < unat (q_size (sys_q s))"
    using Suc.prems contents_length [OF s(3)] by (simp add: q_cap_def)
  then have chk: "push_check (sys_q s) 0 = 0" by (auto simp: push_check_def)
  obtain q' where q': "push_locked (sys_q s) [] 0 = Some q'" "queue_on xs q'"
    "q_cap q' = q_cap q" "q_contents q' = q_contents (sys_q s) @ [[]]"
    using push_locked_on [OF s(3), of 0 "[]"] room s(4) by auto
  define s1 where "s1 = s\<lparr>sys_prod := (sys_prod s)(i := PChecked [] 0)\<rparr>"
  define s2 where "s2 = s1\<lparr>sys_q := q', sys_prod := (sys_prod s1)(i := PIdle),
      sys_in := sys_in s1 @ [take (unat (0::u64)) []]\<rparr>"
  have "qstep P C s s1" unfolding s1_def using s chk assms(4) by (intro qstep.push_pass) auto
  moreover have "qstep P C s1 s2" unfolding s2_def using q' assms(4)
    by (intro qstep.push_store) (auto simp: s1_def)
  ultimately have "qreach P C q s2" using s(1) by (blast intro: qreach.step)
  then show ?case using s q' by (intro exI [of _ s2]) (auto simp: s2_def s1_def)
qed

lemma push_locked_full:
  assumes "queue_on xs q" "unat sz \<le> XSKY_MTU" "unat sz \<le> length d"
  obtains q' where "push_locked q d sz = Some q'" "q_have q' = q_have q + 1" "q_size q' = q_size q"
proof -
  obtain b where inv: "ring_inv q xs b" using assms(1) by (auto simp: queue_on_def)
  obtain c q' where "push_locked q d sz = Some q'"
    "q' = (put_cell q (xs ! (((if q_have q = 0 then 0 else b) + unat (q_have q)) mod length xs))
            (c\<lparr>qd_size := sz, qd_data := take (unat sz) d @ drop (unat sz) (qd_data c)\<rparr>))
            \<lparr>q_begin := Some (xs ! ((if q_have q = 0 then 0 else b) mod length xs)),
             q_end := Some (xs ! (((if q_have q = 0 then 0 else b) + unat (q_have q)) mod length xs)),
             q_have := q_have q + 1\<rparr>"
    using push_locked_eq [OF inv assms(2,3) refl] by metis
  then show ?thesis using that by simp
qed


text \<open>C21: with two producers the test before the lock is a race. From an empty queue of any
capacity (below the count's range) a state is reachable in which the queue counts more packets
than it has cells, so an unread packet has been overwritten.\<close>

theorem two_producers_overflow:
  assumes "queue_on xs q" "q_contents q = []" "i \<in> P" "j \<in> P" "i \<noteq> j"
    and "unat (q_size q) + 1 < 2 ^ 64"
  shows "\<exists>s. qreach P C q s \<and> unat (q_size (sys_q s)) < unat (q_have (sys_q s))"
proof -
  have pos: "0 < q_cap q"
    using assms(1) by (auto simp: queue_on_def ring_inv_def ring_cells_def q_cap_def)
  then obtain s where s: "qreach P C q s" "sys_prod s = (\<lambda>_. PIdle)" "queue_on xs (sys_q s)"
    "q_cap (sys_q s) = q_cap q" "length (q_contents (sys_q s)) = q_cap q - 1"
    using fill [OF assms(1,2) _ assms(3), of "q_cap q - 1"] by auto
  have h: "unat (q_have (sys_q s)) = q_cap q - 1" using contents_length [OF s(3)] s(5) by simp
  then have room: "unat (q_have (sys_q s)) < unat (q_size (sys_q s))"
    using pos s(4) by (simp add: q_cap_def)
  then have chk: "push_check (sys_q s) 0 = 0" by (auto simp: push_check_def)
  obtain q1 where q1: "push_locked (sys_q s) [] 0 = Some q1" "queue_on xs q1" "q_cap q1 = q_cap q"
    "q_contents q1 = q_contents (sys_q s) @ [[]]"
    using push_locked_on [OF s(3), of 0 "[]"] room s(4) by auto
  obtain q2 where q2: "push_locked q1 [] 0 = Some q2" "q_have q2 = q_have q1 + 1" "q_size q2 = q_size q1"
    using push_locked_full [OF q1(2), of 0 "[]"] by auto
  define s1 where "s1 = s\<lparr>sys_prod := (sys_prod s)(i := PChecked [] 0)\<rparr>"
  define s2 where "s2 = s1\<lparr>sys_prod := (sys_prod s1)(j := PChecked [] 0)\<rparr>"
  define s3 where "s3 = s2\<lparr>sys_q := q1, sys_prod := (sys_prod s2)(i := PIdle),
      sys_in := sys_in s2 @ [take (unat (0::u64)) []]\<rparr>"
  define s4 where "s4 = s3\<lparr>sys_q := q2, sys_prod := (sys_prod s3)(j := PIdle),
      sys_in := sys_in s3 @ [take (unat (0::u64)) []]\<rparr>"
  have "qstep P C s s1" unfolding s1_def using s chk assms by (intro qstep.push_pass) auto
  moreover have "qstep P C s1 s2" unfolding s2_def using s chk assms
    by (intro qstep.push_pass) (auto simp: s1_def)
  moreover have "qstep P C s2 s3" unfolding s3_def using q1 assms
    by (intro qstep.push_store) (auto simp: s2_def s1_def)
  moreover have "qstep P C s3 s4" unfolding s4_def using q2 assms
    by (intro qstep.push_store) (auto simp: s3_def s2_def s1_def)
  ultimately have "qreach P C q s4" using s(1) by (blast intro: qreach.step)
  moreover have "unat (q_have q1) = q_cap q"
    using contents_length [OF q1(2)] q1(4) s(5) pos by simp
  then have "unat (q_have q2) = q_cap q + 1"
    using q2(2) assms(6) by (simp add: q_cap_def unat_word_ariths)
  ultimately show ?thesis using q1(3) q2(3)
    by (intro exI [of _ s4]) (auto simp: s4_def q_cap_def)
qed

section \<open>Witnesses\<close>

lemma one_cell_queue:
  obtains xs where "queue_on xs (the (xsky_queue_init Some 1))"
    "q_contents (the (xsky_queue_init Some 1)) = []" "unat (q_size (the (xsky_queue_init Some 1))) = 1"
proof -
  have "inj_on (\<lambda>k. k) {..<1::nat}" by simp
  then obtain q where "xsky_queue_init Some 1 = Some q" "queue_on (map (\<lambda>k. k) [0..<1]) q"
    "q_contents q = []" "q_cap q = 1"
    using init_queue_on [of 1 Some "\<lambda>k. k"] by auto
  then show ?thesis using that by (simp add: q_cap_def)
qed

lemma one_step_reach:
  assumes "unat (q_size q) = 1" "q_contents q = []" "queue_on xs q"
  shows "qreach {0} {0} q ((qsys_init q)\<lparr>sys_prod := (\<lambda>_. PIdle)(0 := PChecked [5] 1)\<rparr>)"
proof -
  have "q_have q = 0" using contents_length [OF assms(3)] assms(2) by (simp add: unat_eq_0)
  then have "push_check q 1 = 0" using assms(1) by (auto simp: push_check_def XSKY_MTU_def)
  then have "qstep {0} {0} (qsys_init q) ((qsys_init q)\<lparr>sys_prod := (sys_prod (qsys_init q))(0 := PChecked [5] 1)\<rparr>)"
    by (intro qstep.push_pass) (simp_all add: qsys_init_def)
  then show ?thesis using qreach.step [OF qreach.start] by (simp add: qsys_init_def)
qed


theorem two_producers_overflow_witness:
  "\<exists>s. qreach {0, 1} {} (the (xsky_queue_init Some 1)) s \<and>
     unat (q_size (sys_q s)) < unat (q_have (sys_q s))"
proof -
  obtain xs where "queue_on xs (the (xsky_queue_init Some 1))"
    "q_contents (the (xsky_queue_init Some 1)) = []" "unat (q_size (the (xsky_queue_init Some 1))) = 1"
    by (rule one_cell_queue)
  then show ?thesis
    using two_producers_overflow [of xs "the (xsky_queue_init Some 1)" 0 "{0, 1}" 1 "{}"] by simp
qed

end
