(* ===== verification/Subnet.thy ===== *)
theory Subnet
  imports Xsky_Prelude
begin

text \<open>
  Address prefixes of the route module (\<open>route/main.c\<close>, \<open>route/dev_ctl.h\<close>): \<open>calc_subnet\<close>
  masks an address, given as bytes in network order, to its first \<open>prefix\<close> bits, byte by
  byte with a table for the last partial byte; \<open>xsky_is_subnet\<close> masks an address and compares
  it with a configured one.

  The reference is stated on bits: \<open>addr_bit bs k\<close> is bit \<open>k\<close> of the address, counted from
  its most significant bit. Writes outside the buffer and reads outside the address are
  \<open>None\<close>.
\<close>

section \<open>Data\<close>

record xsky_subnet =
  sn_address :: "byte list"
  sn_prefix :: u8
  sn_is_ipv6 :: u8

record xsky_address =
  ad_address :: "byte list"
  ad_is_ipv6 :: u8

definition subnet_tables :: "byte list" where
  "subnet_tables = [128, 192, 224, 240, 248, 252, 254]"

section \<open>Masking\<close>

text \<open>\<open>for ( int i = 0; i < a; i++ ) buf[i] = ipaddress[i];\<close>\<close>

fun copy_bytes :: "nat \<Rightarrow> byte list \<Rightarrow> byte list \<Rightarrow> byte list option" where
  "copy_bytes 0 buf ip = Some buf"
| "copy_bytes (Suc i) buf ip = do {
     buf \<leftarrow> copy_bytes i buf ip;
     if i < length buf \<and> i < length ip then Some (buf[i := ip ! i]) else None
   }"

definition addr_len :: "u8 \<Rightarrow> nat" where
  "addr_len is_ipv6 = (if is_ipv6 \<noteq> 0 then 16 else 4)"

definition calc_subnet :: "byte list \<Rightarrow> byte list \<Rightarrow> u8 \<Rightarrow> u8 \<Rightarrow> byte list option" where
  "calc_subnet buf ip prefix is_ipv6 = do {
     let n = addr_len is_ipv6;
     buf \<leftarrow> memset0 buf n;
     let a = unat (prefix div 8);
     let b = unat (prefix mod 8);
     buf \<leftarrow> copy_bytes a buf ip;
     if b \<noteq> 0 then
       (if a < length buf \<and> a < length ip
        then Some (buf[a := subnet_tables ! (b - 1) AND ip ! a]) else None)
     else Some buf
   }"

text \<open>
  The comparison buffer is an uninitialised local array of 16 bytes; its first \<open>n\<close> bytes are
  cleared before they are read (\<open>calc_subnet_take\<close> shows the result does not depend on them).
\<close>

definition xsky_is_subnet :: "xsky_subnet \<Rightarrow> byte list \<Rightarrow> u8 \<Rightarrow> bool option" where
  "xsky_is_subnet t ip is_ipv6 = do {
     buf \<leftarrow> calc_subnet (replicate 16 0) ip (sn_prefix t) is_ipv6;
     memcmp_eq buf (sn_address t) (addr_len is_ipv6)
   }"

section \<open>The reference: bits of an address\<close>

definition addr_bit :: "byte list \<Rightarrow> nat \<Rightarrow> bool" where
  "addr_bit bs k = bit (bs ! (k div 8)) (7 - k mod 8)"

definition masked :: "u8 \<Rightarrow> byte list \<Rightarrow> nat \<Rightarrow> byte" where
  "masked p ip i =
     (if i < unat p div 8 then ip ! i
      else if i = unat p div 8 \<and> unat p mod 8 \<noteq> 0
        then subnet_tables ! (unat p mod 8 - 1) AND ip ! i
      else 0)"

lemma table_bit:
  assumes "0 < b" "b < 8" "j < 8"
  shows "bit (subnet_tables ! (b - 1)) (7 - j) \<longleftrightarrow> j < b"
proof -
  have "list_all (\<lambda>b. list_all (\<lambda>j. bit (subnet_tables ! (b - 1)) (7 - j) \<longleftrightarrow> j < b) [0..<8]) [1..<8]"
    by code_simp
  then show ?thesis using assms by (auto simp: list_all_iff)
qed

lemma copy_bytes_eq:
  "i \<le> length buf \<Longrightarrow> i \<le> length ip \<Longrightarrow> copy_bytes i buf ip = Some (take i ip @ drop i buf)"
proof (induction i)
  case (Suc i)
  then have "copy_bytes i buf ip = Some (take i ip @ drop i buf)" by simp
  moreover have "(take i ip @ drop i buf)[i := ip ! i] = take (Suc i) ip @ drop (Suc i) buf"
    using Suc.prems by (simp add: list_update_append take_Suc_conv_app_nth Cons_nth_drop_Suc [symmetric])
  ultimately show ?case using Suc.prems by simp
qed simp

lemma u8_div_mod: "unat (p div 8) = unat p div 8" "unat (p mod 8) = unat p mod 8" for p :: u8
  by (simp_all add: unat_div_distrib unat_mod_distrib)

lemma calc_subnet_eq:
  assumes "addr_len v \<le> length buf" "addr_len v \<le> length ip" "unat p \<le> 8 * addr_len v"
  shows "calc_subnet buf ip p v = Some (map (masked p ip) [0..<addr_len v] @ drop (addr_len v) buf)"
proof -
  let ?n = "addr_len v" and ?a = "unat p div 8" and ?b = "unat p mod 8"
  have a: "?a \<le> ?n" using assms(3) by simp
  have ab: "?b \<noteq> 0 \<Longrightarrow> ?a < ?n"
    using assms(3) by (metis a div_mult_mod_eq add_le_same_cancel1 le_neq_implies_less le_zero_eq mult.commute)
  let ?z = "replicate ?n 0 @ drop ?n buf"
  have cp: "copy_bytes ?a ?z ip = Some (take ?a ip @ drop ?a ?z)"
    using a assms by (intro copy_bytes_eq) auto
  have dz: "drop ?a ?z = replicate (?n - ?a) 0 @ drop ?n buf" using a by simp
  have whole: "?b = 0 \<Longrightarrow> take ?a ip @ replicate (?n - ?a) 0 = map (masked p ip) [0..<?n]"
    using a assms by (intro nth_equalityI) (auto simp: nth_append masked_def)
  have part: "?b \<noteq> 0 \<Longrightarrow> (take ?a ip @ replicate (?n - ?a) 0)[?a := subnet_tables ! (?b - 1) AND ip ! ?a]
      = map (masked p ip) [0..<?n]"
    using a ab assms by (intro nth_equalityI) (auto simp: nth_append nth_list_update masked_def)
  have split: "(take ?a ip @ drop ?a ?z)[?a := x] = (take ?a ip @ replicate (?n - ?a) 0)[?a := x] @ drop ?n buf"
    if "?b \<noteq> 0" for x
    using ab [OF that] assms unfolding dz by (simp add: list_update_append)
  show ?thesis
  proof (cases "?b = 0")
    case True
    then show ?thesis using assms cp dz whole by (simp add: calc_subnet_def Let_def u8_div_mod xsky_mem)
  next
    case False
    then have "?a < length buf" "?a < length ip" using ab assms by auto
    then show ?thesis using False assms cp dz part ab a split
      by (simp add: calc_subnet_def Let_def u8_div_mod xsky_mem)
  qed
qed

lemma calc_subnet_take:
  assumes "addr_len v \<le> length buf" "addr_len v \<le> length ip" "unat p \<le> 8 * addr_len v"
  shows "map_option (take (addr_len v)) (calc_subnet buf ip p v) = Some (map (masked p ip) [0..<addr_len v])"
  by (simp add: calc_subnet_eq [OF assms])

lemma masked_bit:
  assumes "k < 8 * n"
  shows "addr_bit (map (masked p ip) [0..<n]) k \<longleftrightarrow> k < unat p \<and> addr_bit ip k"
proof -
  have k: "k div 8 < n" using assms by auto
  have j: "k mod 8 < 8" by simp
  consider "k div 8 < unat p div 8" | "k div 8 = unat p div 8" | "unat p div 8 < k div 8" by linarith
  then show ?thesis
  proof cases
    case 1
    then have "k < unat p" by (metis div_le_mono leD leI)
    then show ?thesis using 1 k by (simp add: addr_bit_def masked_def)
  next
    case 2
    have lt: "k < unat p \<longleftrightarrow> k mod 8 < unat p mod 8"
      using 2 by (metis div_mult_mod_eq nat_add_left_cancel_less)
    show ?thesis
    proof (cases "unat p mod 8 = 0")
      case True
      then show ?thesis using 2 k lt by (simp add: addr_bit_def masked_def)
    next
      case False
      then show ?thesis using 2 k lt table_bit [of "unat p mod 8" "k mod 8"]
        by (auto simp: addr_bit_def masked_def bit_and_iff)
    qed
  next
    case 3
    then have "\<not> k < unat p" by (metis div_le_mono leD less_imp_le)
    then show ?thesis using 3 k by (simp add: addr_bit_def masked_def)
  qed
qed

lemma addr_bits_eq:
  assumes "length xs = n" "length ys = n"
  shows "xs = ys \<longleftrightarrow> (\<forall>k < 8 * n. addr_bit xs k = addr_bit ys k)"
proof
  assume bits: "\<forall>k < 8 * n. addr_bit xs k = addr_bit ys k"
  show "xs = ys"
  proof (rule nth_equalityI)
    fix i assume i: "i < length xs"
    show "xs ! i = ys ! i"
    proof (rule bit_word_eqI)
      fix m assume "m < LENGTH(8)"
      then have m: "m < 8" by simp
      obtain j where j: "j < 8" "m = 7 - j" using m by (intro that [of "7 - m"]) auto
      then have "8 * i + j < 8 * n" using i assms by simp
      moreover have "(8 * i + j) div 8 = i" "7 - (8 * i + j) mod 8 = m"
        using m j by auto
      ultimately show "bit (xs ! i) m = bit (ys ! i) m"
        using bits unfolding addr_bit_def by metis
    qed
  qed (simp add: assms)
qed simp

lemma addr_bit_take: "k < 8 * n \<Longrightarrow> addr_bit (take n bs) k = addr_bit bs k"
  by (simp add: addr_bit_def less_mult_imp_div_less mult.commute)

lemma is_subnet_bits:
  assumes "calc_subnet old net p v = Some (sn_address t)" "sn_prefix t = p"
    and "addr_len v \<le> length old" "addr_len v \<le> length net" "addr_len v \<le> length ip"
    and "unat p \<le> 8 * addr_len v"
  shows "xsky_is_subnet t ip v = Some (\<forall>k < unat p. addr_bit ip k = addr_bit net k)"
proof -
  let ?n = "addr_len v"
  have n: "?n \<le> 16" by (simp add: addr_len_def)
  have addr: "sn_address t = map (masked p net) [0..<?n] @ drop ?n old"
    using assms(1) calc_subnet_eq [of v old net p] assms by simp
  have "xsky_is_subnet t ip v = Some (map (masked p ip) [0..<?n] = map (masked p net) [0..<?n])"
    using n assms addr by (simp add: xsky_is_subnet_def calc_subnet_eq xsky_mem)
  also have "(map (masked p ip) [0..<?n] = map (masked p net) [0..<?n]) \<longleftrightarrow>
      (\<forall>k < 8 * ?n. addr_bit (map (masked p ip) [0..<?n]) k = addr_bit (map (masked p net) [0..<?n]) k)"
    by (rule addr_bits_eq) simp_all
  also have "\<dots> \<longleftrightarrow> (\<forall>k < unat p. addr_bit ip k = addr_bit net k)"
    by (simp add: masked_bit) (meson assms(6) less_le_trans)
  finally show ?thesis .
qed

text \<open>C16: \<open>calc_subnet\<close> is the bit mask of the prefix. For every prefix no longer than the
address, it faults nowhere, bit \<open>k\<close> of its result is bit \<open>k\<close> of the address for \<open>k\<close> below
the prefix and zero above it, and the bytes of the buffer past the address are kept.\<close>

theorem calc_subnet_bits:
  assumes "addr_len v \<le> length buf" "addr_len v \<le> length ip" "unat p \<le> 8 * addr_len v"
  shows "\<exists>r. calc_subnet buf ip p v = Some r \<and> length r = length buf \<and>
           (\<forall>k < 8 * addr_len v. addr_bit r k \<longleftrightarrow> k < unat p \<and> addr_bit ip k) \<and>
           drop (addr_len v) r = drop (addr_len v) buf"
proof -
  let ?r = "map (masked p ip) [0..<addr_len v] @ drop (addr_len v) buf"
  have "addr_bit ?r k \<longleftrightarrow> k < unat p \<and> addr_bit ip k" if "k < 8 * addr_len v" for k
    using masked_bit [OF that] addr_bit_take [OF that, of ?r] by simp
  then show ?thesis using calc_subnet_eq [OF assms] assms by (intro exI [of _ ?r]) auto
qed

theorem calc_subnet_bits_witness:
  "\<exists>r. calc_subnet (replicate 16 9) [192, 168, 77, 5] 20 0 = Some r \<and> length r = 16 \<and>
     (\<forall>k < 32. addr_bit r k \<longleftrightarrow> k < 20 \<and> addr_bit [192, 168, 77, 5] k)"
  using calc_subnet_bits [of 0 "replicate 16 9" "[192, 168, 77, 5]" 20] by (auto simp: addr_len_def)

end
