(* ===== verification/Route_Device.thy ===== *)
theory Route_Device
  imports Ring_Queue Subnet
begin

text \<open>
  The route kernel module (\<open>route/main.c\<close>): a netfilter hook that takes the UDP datagrams of
  one subnet out of the forwarding path and queues them, and a character device through
  which one process reads them and configures the subnet and the tunnel address.

  \<open>route_state\<close> holds the module's global variables. Every handler is a function of the
  source's name; it returns the new state and the C return value, and \<open>None\<close> where the C code
  would follow a bad pointer or leave a buffer. User memory is a parameter: \<open>umem n\<close> is what
  \<open>copy_from_user\<close> reads for \<open>n\<close> bytes (\<open>None\<close> when it fails), \<open>writable n\<close> whether
  \<open>copy_to_user\<close> of \<open>n\<close> bytes succeeds. A packet is the list of bytes from its network
  header on.

  \<open>rrun\<close> is the module as a state machine: the file operations of the one open file, and
  packets at any time. The lemmas: no handler faults in a reachable state, the verdict of
  the hook on every branch, delivery in order of what the hook dropped, and the effect of the
  two ioctls.
\<close>

section \<open>State\<close>

definition EINVAL :: int where "EINVAL = 22"
definition EBUSY :: int where "EBUSY = 16"
definition EAGAIN :: int where "EAGAIN = 11"
definition EFAULT :: int where "EFAULT = 14"

definition QUEUE_SIZE :: nat where "QUEUE_SIZE = 256"

text \<open>
  What the module has registered with the kernel: the character device region, the cdev, the device
  class and its node; the network namespaces that call the hook for IPv4 and for IPv6.
\<close>

record kernel_dev =
  kd_region :: nat \<comment> \<open>device numbers of the region\<close>
  kd_cdev :: bool
  kd_class :: bool
  kd_node :: bool

record route_state =
  rs_dev :: kernel_dev
  rs_hooks :: "nat set"
  rs_hooks6 :: "nat set"
  rs_flock_flag :: bool
  rs_queue :: xsky_queue
  rs_wakeups :: nat \<comment> \<open>calls of \<open>wake_up_interruptible\<close>\<close>
  rs_tunnel_addr :: "byte list"
  rs_tunnel_addr6 :: "byte list"
  rs_subnet :: xsky_subnet
  rs_subnet6 :: xsky_subnet
  rs_is_set_subnet :: bool
  rs_is_set_subnet6 :: bool
  rs_is_set_tunnel_addr :: bool
  rs_is_set_tunnel_addr6 :: bool

text \<open>\<open>struct sk_buff\<close>, by its network header (\<open>None\<close>: a null header pointer).\<close>

record sk_buff =
  skb_network :: "byte list option"

section \<open>Configuration\<close>

definition subnet_of_bytes :: "byte list \<Rightarrow> xsky_subnet" where
  "subnet_of_bytes bs = \<lparr>sn_address = take 16 bs, sn_prefix = bs ! 16, sn_is_ipv6 = bs ! 17\<rparr>"

definition address_of_bytes :: "byte list \<Rightarrow> xsky_address" where
  "address_of_bytes bs = \<lparr>ad_address = take 16 bs, ad_is_ipv6 = bs ! 16\<rparr>"

definition xsky_set_udp_proxy_subnet ::
    "(nat \<Rightarrow> byte list option) \<Rightarrow> route_state \<Rightarrow> (route_state \<times> int) option" where
  "xsky_set_udp_proxy_subnet umem s =
     (case umem 18 of
        None \<Rightarrow> Some (s, - EINVAL)
      | Some bs \<Rightarrow>
          let tmp = subnet_of_bytes bs in
          if sn_is_ipv6 tmp \<noteq> 0 \<and> sn_prefix tmp > 128 then Some (s, - EINVAL)
          else if sn_is_ipv6 tmp = 0 \<and> sn_prefix tmp > 32 then Some (s, - EINVAL)
          else do {
            let t = (if sn_is_ipv6 tmp \<noteq> 0 then rs_subnet6 s else rs_subnet s);
            buf \<leftarrow> calc_subnet (sn_address t) (sn_address tmp) (sn_prefix tmp) (sn_is_ipv6 tmp);
            let t = \<lparr>sn_address = buf, sn_prefix = sn_prefix tmp, sn_is_ipv6 = sn_is_ipv6 tmp\<rparr>;
            if sn_is_ipv6 tmp \<noteq> 0
              then Some (s\<lparr>rs_subnet6 := t, rs_is_set_subnet6 := True\<rparr>, 0)
              else Some (s\<lparr>rs_subnet := t, rs_is_set_subnet := True\<rparr>, 0)
          })"

definition xsky_set_tunnel ::
    "(nat \<Rightarrow> byte list option) \<Rightarrow> route_state \<Rightarrow> (route_state \<times> int) option" where
  "xsky_set_tunnel umem s =
     (case umem 17 of
        None \<Rightarrow> Some (s, - EINVAL)
      | Some bs \<Rightarrow>
          let tmp = address_of_bytes bs in
          if ad_is_ipv6 tmp \<noteq> 0 then do {
            a \<leftarrow> memcpy (rs_tunnel_addr6 s) (ad_address tmp) 16;
            Some (s\<lparr>rs_tunnel_addr6 := a, rs_is_set_tunnel_addr6 := True\<rparr>, 0)
          } else do {
            a \<leftarrow> memcpy (rs_tunnel_addr s) (ad_address tmp) 4;
            Some (s\<lparr>rs_tunnel_addr := a, rs_is_set_tunnel_addr := True\<rparr>, 0)
          })"

section \<open>The netfilter hook\<close>

definition xsky_push_ipv4_packet_to_user ::
    "route_state \<Rightarrow> byte list \<Rightarrow> (route_state \<times> nf_verdict) option" where
  "xsky_push_ipv4_packet_to_user s ip_header = do {
     hi \<leftarrow> byte_at ip_header 2;
     lo \<leftarrow> byte_at ip_header 3;
     let tot_len = be16 hi lo;
     (q, err) \<leftarrow> xsky_queue_push (rs_queue s) ip_header (ucast tot_len);
     if err \<noteq> 0 then Some (s\<lparr>rs_queue := q\<rparr>, NF_ACCEPT)
     else Some (s\<lparr>rs_queue := q, rs_wakeups := rs_wakeups s + 1\<rparr>, NF_DROP)
   }"

text \<open>\<open>data_len\<close> is an \<open>unsigned short\<close>: the sum wraps at 65536.\<close>

definition xsky_push_ipv6_packet_to_user ::
    "route_state \<Rightarrow> byte list \<Rightarrow> (route_state \<times> nf_verdict) option" where
  "xsky_push_ipv6_packet_to_user s ip6_header = do {
     hi \<leftarrow> byte_at ip6_header 4;
     lo \<leftarrow> byte_at ip6_header 5;
     let data_len = be16 hi lo + 40;
     (q, err) \<leftarrow> xsky_queue_push (rs_queue s) ip6_header (ucast data_len);
     if err \<noteq> 0 then Some (s\<lparr>rs_queue := q\<rparr>, NF_ACCEPT)
     else Some (s\<lparr>rs_queue := q, rs_wakeups := rs_wakeups s + 1\<rparr>, NF_DROP)
   }"

definition handle_ipv4_dgram_in ::
    "route_state \<Rightarrow> byte list \<Rightarrow> (route_state \<times> nf_verdict) option" where
  "handle_ipv4_dgram_in s ip_header = do {
     saddr \<leftarrow> bytes_at ip_header 12 4;
     daddr \<leftarrow> bytes_at ip_header 16 4;
     own \<leftarrow> (if rs_is_set_tunnel_addr s then memcmp_eq (rs_tunnel_addr s) daddr 4 else Some False);
     if own then Some (s, NF_ACCEPT)
     else do {
       inside \<leftarrow> xsky_is_subnet (rs_subnet s) saddr 0;
       if \<not> inside then Some (s, NF_ACCEPT)
       else xsky_push_ipv4_packet_to_user s ip_header
     }
   }"

definition handle_ipv6_dgram_in ::
    "route_state \<Rightarrow> byte list \<Rightarrow> (route_state \<times> nf_verdict) option" where
  "handle_ipv6_dgram_in s ip6_header = do {
     saddr \<leftarrow> bytes_at ip6_header 8 16;
     daddr \<leftarrow> bytes_at ip6_header 24 16;
     own \<leftarrow> (if rs_is_set_tunnel_addr6 s then memcmp_eq (rs_tunnel_addr6 s) daddr 16 else Some False);
     if own then Some (s, NF_ACCEPT)
     else do {
       inside \<leftarrow> xsky_is_subnet (rs_subnet6 s) saddr 1;
       if \<not> inside then Some (s, NF_ACCEPT)
       else xsky_push_ipv6_packet_to_user s ip6_header
     }
   }"

definition nf_handle_in ::
    "route_state \<Rightarrow> sk_buff option \<Rightarrow> (route_state \<times> nf_verdict) option" where
  "nf_handle_in s skb =
     (if \<not> rs_flock_flag s then Some (s, NF_ACCEPT)
      else case skb of None \<Rightarrow> Some (s, NF_ACCEPT)
      | Some skb \<Rightarrow>
          case skb_network skb of None \<Rightarrow> Some (s, NF_ACCEPT)
          | Some hdr \<Rightarrow> do {
              b0 \<leftarrow> byte_at hdr 0;
              let version = drop_bit 4 b0;
              nexthdr \<leftarrow> (if version = 4 then byte_at hdr 9 else byte_at hdr 6);
              if nexthdr \<noteq> 17 \<and> nexthdr \<noteq> 136 then Some (s, NF_ACCEPT)
              else if version = 4 then handle_ipv4_dgram_in s hdr
              else handle_ipv6_dgram_in s hdr
            })"

section \<open>The character device\<close>

text \<open>\<open>_IOW( type, nr, int )\<close> and \<open>_IOC_TYPE\<close> of the kernel's ioctl encoding.\<close>

definition IOW_int :: "u32 \<Rightarrow> u32 \<Rightarrow> u32" where
  "IOW_int ty nr = push_bit 30 1 OR push_bit 16 4 OR push_bit 8 ty OR nr"

definition IOC_TYPE :: "u32 \<Rightarrow> u32" where
  "IOC_TYPE cmd = drop_bit 8 cmd AND 255"

definition XSKY_IOC_MAGIC :: u32 where "XSKY_IOC_MAGIC = 0xad"

definition XSKY_IOC_SET_UDP_PROXY_SUBNET :: u32 where
  "XSKY_IOC_SET_UDP_PROXY_SUBNET = IOW_int XSKY_IOC_MAGIC 1"

definition XSKY_IOC_SET_TUNNEL_IP :: u32 where
  "XSKY_IOC_SET_TUNNEL_IP = IOW_int XSKY_IOC_MAGIC 2"

definition chr_open :: "route_state \<Rightarrow> route_state \<times> int" where
  "chr_open s = (if rs_flock_flag s then (s, - EBUSY) else (s\<lparr>rs_flock_flag := True\<rparr>, 0))"

definition chr_ioctl ::
    "(nat \<Rightarrow> byte list option) \<Rightarrow> u32 \<Rightarrow> route_state \<Rightarrow> (route_state \<times> int) option" where
  "chr_ioctl umem cmd s =
     (if IOC_TYPE cmd \<noteq> XSKY_IOC_MAGIC then Some (s, - EINVAL)
      else if cmd = XSKY_IOC_SET_UDP_PROXY_SUBNET then xsky_set_udp_proxy_subnet umem s
      else if cmd = XSKY_IOC_SET_TUNNEL_IP then xsky_set_tunnel umem s
      else Some (s, - EINVAL))"

text \<open>The result of a read: the return value and the bytes that reached user memory.\<close>

definition chr_read ::
    "(nat \<Rightarrow> bool) \<Rightarrow> route_state \<Rightarrow> (route_state \<times> int \<times> byte list option) option" where
  "chr_read writable s = do {
     (q, tmp) \<leftarrow> xsky_queue_pop (rs_queue s);
     let s = s\<lparr>rs_queue := q\<rparr>;
     case tmp of
       None \<Rightarrow> Some (s, - EAGAIN, None)
     | Some a \<Rightarrow> do {
         c \<leftarrow> q_cells q a;
         d \<leftarrow> bytes_at (qd_data c) 0 (unat (qd_size c));
         if \<not> writable (unat (qd_size c)) then Some (s, - EFAULT, None)
         else Some (s, sint (qd_size c), Some d)
       }
   }"

definition chr_release :: "route_state \<Rightarrow> route_state \<times> int" where
  "chr_release s = (s\<lparr>rs_flock_flag := False, rs_queue := xsky_queue_reset (rs_queue s)\<rparr>, 0)"

definition POLLIN :: u32 where "POLLIN = 1"
definition POLLRDNORM :: u32 where "POLLRDNORM = 0x40"

definition chr_poll :: "route_state \<Rightarrow> u32" where
  "chr_poll s = (if q_have (rs_queue s) \<noteq> 0 then POLLIN OR POLLRDNORM else POLLRDNORM)"

section \<open>Loading and unloading\<close>

text \<open>
  \<open>create_dev\<close>: \<open>region_ret\<close> is the result of \<open>alloc_chrdev_region\<close>, \<open>class_err\<close> whether
  \<open>class_create\<close> fails. The failing path returns without undoing the earlier steps.
\<close>

definition create_dev :: "int \<Rightarrow> bool \<Rightarrow> kernel_dev \<Rightarrow> kernel_dev \<times> int" where
  "create_dev region_ret class_err d =
     (if region_ret < 0 then (d, region_ret)
      else let d = d\<lparr>kd_region := kd_region d + 1, kd_cdev := True\<rparr> in
        if class_err then (d, - 1)
        else (d\<lparr>kd_class := True, kd_node := True\<rparr>, 0))"

text \<open>\<open>unregister_chrdev_region( ndev, 0 )\<close> gives up a range of no device numbers.\<close>

definition delete_dev :: "kernel_dev \<Rightarrow> kernel_dev \<times> int" where
  "delete_dev d = (d\<lparr>kd_cdev := False, kd_node := False, kd_class := False, kd_region := kd_region d - 0\<rparr>, 0)"

text \<open>
  \<open>nf_register_hook\<close> over the network namespaces: \<open>reg net\<close> is the result of
  \<open>nf_register_net_hook\<close>. The first function is the registering loop; it returns the
  namespaces hooked and the one it failed at. The roll back unhooks those before it.
\<close>

definition ENOENT :: int where "ENOENT = 2"

fun register_loop :: "('n \<Rightarrow> int) \<Rightarrow> 'n list \<Rightarrow> 'n set \<Rightarrow> 'n set \<times> ('n \<times> int) option" where
  "register_loop reg [] hooked = (hooked, None)"
| "register_loop reg (net # nets) hooked =
     (let ret = reg net in
      if ret \<noteq> 0 \<and> ret \<noteq> - ENOENT then (hooked, Some (net, ret))
      else register_loop reg nets (if ret = 0 then insert net hooked else hooked))"

fun rollback_loop :: "'n \<Rightarrow> 'n list \<Rightarrow> 'n set \<Rightarrow> 'n set" where
  "rollback_loop last_net [] hooked = hooked"
| "rollback_loop last_net (net # nets) hooked =
     (if net = last_net then hooked else rollback_loop last_net nets (hooked - {net}))"

definition nf_register_hook :: "('n \<Rightarrow> int) \<Rightarrow> 'n list \<Rightarrow> 'n set \<Rightarrow> 'n set \<times> int" where
  "nf_register_hook reg nets hooked =
     (case register_loop reg nets hooked of
        (hooked, None) \<Rightarrow> (hooked, 0)
      | (hooked, Some (net, ret)) \<Rightarrow> (rollback_loop net nets hooked, ret))"

fun nf_unregister_hook :: "'n list \<Rightarrow> 'n set \<Rightarrow> 'n set" where
  "nf_unregister_hook [] hooked = hooked"
| "nf_unregister_hook (net # nets) hooked = nf_unregister_hook nets (hooked - {net})"

definition zero_subnet :: xsky_subnet where
  "zero_subnet = \<lparr>sn_address = replicate 16 0, sn_prefix = 0, sn_is_ipv6 = 0\<rparr>"

definition no_dev :: kernel_dev where
  "no_dev = \<lparr>kd_region = 0, kd_cdev = False, kd_class = False, kd_node = False\<rparr>"

text \<open>
  Loading: \<open>reg\<close> and \<open>reg6\<close> answer for the two hooks on the namespaces \<open>nets\<close> (the source does
  not look at the results of \<open>nf_register_hook\<close>); \<open>alloc\<close> is the allocator (see \<open>Ring_Queue\<close>).
\<close>

definition xsky_init ::
    "int \<Rightarrow> bool \<Rightarrow> (nat \<Rightarrow> int) \<Rightarrow> (nat \<Rightarrow> int) \<Rightarrow> nat list \<Rightarrow> (nat \<Rightarrow> ptr) \<Rightarrow>
     (kernel_dev \<times> int + route_state) option" where
  "xsky_init region_ret class_err reg reg6 nets alloc =
     (case create_dev region_ret class_err no_dev of (dev, ret) \<Rightarrow>
      if ret \<noteq> 0 then Some (Inl (dev, ret))
      else do {
        let hooks = fst (nf_register_hook reg nets {});
        let hooks6 = fst (nf_register_hook reg6 nets {});
        q \<leftarrow> xsky_queue_init alloc QUEUE_SIZE;
        Some (Inr \<lparr>rs_dev = dev, rs_hooks = hooks, rs_hooks6 = hooks6,
          rs_flock_flag = False, rs_queue = q, rs_wakeups = 0,
          rs_tunnel_addr = replicate 4 0, rs_tunnel_addr6 = replicate 16 0,
          rs_subnet = zero_subnet, rs_subnet6 = zero_subnet,
          rs_is_set_subnet = False, rs_is_set_subnet6 = False,
          rs_is_set_tunnel_addr = False, rs_is_set_tunnel_addr6 = False\<rparr>)
      })"

text \<open>Unloading leaves the device, the hooks of both families and the cells still allocated.\<close>

definition xsky_exit ::
    "nat list \<Rightarrow> route_state \<Rightarrow> (kernel_dev \<times> nat set \<times> nat set \<times> (addr \<rightharpoonup> xsky_queue_data)) option" where
  "xsky_exit nets s = do {
     let dev = fst (delete_dev (rs_dev s));
     let hooks = nf_unregister_hook nets (rs_hooks s);
     let hooks6 = nf_unregister_hook nets (rs_hooks6 s);
     cells \<leftarrow> xsky_queue_release (rs_queue s);
     Some (dev, hooks, hooks6, cells)
   }"

section \<open>The invariant\<close>

definition subnet_ok :: "u8 \<Rightarrow> xsky_subnet \<Rightarrow> bool" where
  "subnet_ok v t \<longleftrightarrow> length (sn_address t) = 16 \<and> unat (sn_prefix t) \<le> 8 * addr_len v \<and>
     (\<forall>k < 8 * addr_len v. unat (sn_prefix t) \<le> k \<longrightarrow> \<not> addr_bit (sn_address t) k)"

definition route_on :: "addr list \<Rightarrow> route_state \<Rightarrow> bool" where
  "route_on xs s \<longleftrightarrow> queue_on xs (rs_queue s) \<and> q_cap (rs_queue s) = QUEUE_SIZE \<and>
     length (rs_tunnel_addr s) = 4 \<and> length (rs_tunnel_addr6 s) = 16 \<and>
     subnet_ok 0 (rs_subnet s) \<and> subnet_ok 1 (rs_subnet6 s) \<and>
     (\<not> rs_flock_flag s \<longrightarrow> q_contents (rs_queue s) = [])"

text \<open>The address agrees with the configured one on the prefix.\<close>

definition in_subnet :: "xsky_subnet \<Rightarrow> byte list \<Rightarrow> bool" where
  "in_subnet t ip \<longleftrightarrow> (\<forall>k < unat (sn_prefix t). addr_bit ip k = addr_bit (sn_address t) k)"

lemma addr_len_le: "addr_len v \<le> 16" by (simp add: addr_len_def)

lemma is_subnet_ok:
  assumes "subnet_ok v t" "addr_len v \<le> length ip"
  shows "xsky_is_subnet t ip v = Some (in_subnet t ip)"
proof -
  let ?n = "addr_len v" and ?a = "sn_address t"
  have len: "length ?a = 16" "unat (sn_prefix t) \<le> 8 * ?n" using assms by (auto simp: subnet_ok_def)
  have "take ?n ?a = map (masked (sn_prefix t) ?a) [0..<?n]"
    using assms(1) len addr_len_le [of v]
    by (subst addr_bits_eq [of _ ?n]) (auto simp: masked_bit addr_bit_take subnet_ok_def not_less)
  then have "calc_subnet ?a ?a (sn_prefix t) v = Some ?a"
    using len addr_len_le [of v] by (simp add: calc_subnet_eq) (metis append_take_drop_id)
  then show ?thesis
    using is_subnet_bits [of ?a ?a "sn_prefix t" v t ip] len assms addr_len_le [of v]
    by (simp add: in_subnet_def)
qed

text \<open>A packet whose headers and whose stated length lie in the buffer.\<close>

definition ipv4_len :: "byte list \<Rightarrow> u64" where
  "ipv4_len hdr = ucast (be16 (hdr ! 2) (hdr ! 3))"

definition ipv6_len :: "byte list \<Rightarrow> u64" where
  "ipv6_len hdr = ucast (be16 (hdr ! 4) (hdr ! 5) + 40)"

definition is_v4 :: "byte list \<Rightarrow> bool" where
  "is_v4 hdr \<longleftrightarrow> drop_bit 4 (hdr ! 0) = 4"

definition hdr_ok :: "byte list \<Rightarrow> bool" where
  "hdr_ok hdr \<longleftrightarrow> 0 < length hdr \<and>
     (if is_v4 hdr then 20 \<le> length hdr \<and> unat (ipv4_len hdr) \<le> length hdr
      else 40 \<le> length hdr \<and> unat (ipv6_len hdr) \<le> length hdr)"

definition skb_ok :: "sk_buff option \<Rightarrow> bool" where
  "skb_ok skb = pred_option (\<lambda>b. pred_option hdr_ok (skb_network b)) skb"

section \<open>The verdict\<close>

text \<open>
  The specification of the hook: the bytes it must queue for this packet, or \<open>None\<close> when the
  packet must be left to the kernel.
\<close>

definition wanted4 :: "route_state \<Rightarrow> byte list \<Rightarrow> bool" where
  "wanted4 s hdr \<longleftrightarrow> hdr ! 9 \<in> {17, 136} \<and>
     \<not> (rs_is_set_tunnel_addr s \<and> rs_tunnel_addr s = take 4 (drop 16 hdr)) \<and>
     in_subnet (rs_subnet s) (take 4 (drop 12 hdr))"

definition wanted6 :: "route_state \<Rightarrow> byte list \<Rightarrow> bool" where
  "wanted6 s hdr \<longleftrightarrow> hdr ! 6 \<in> {17, 136} \<and>
     \<not> (rs_is_set_tunnel_addr6 s \<and> rs_tunnel_addr6 s = take 16 (drop 24 hdr)) \<and>
     in_subnet (rs_subnet6 s) (take 16 (drop 8 hdr))"

definition fits :: "route_state \<Rightarrow> u64 \<Rightarrow> bool" where
  "fits s n \<longleftrightarrow> unat n \<le> XSKY_MTU \<and> length (q_contents (rs_queue s)) < QUEUE_SIZE"

definition hook_spec :: "route_state \<Rightarrow> sk_buff option \<Rightarrow> byte list option" where
  "hook_spec s skb =
     (case Option.bind skb skb_network of
        None \<Rightarrow> None
      | Some hdr \<Rightarrow>
          if \<not> rs_flock_flag s then None
          else if is_v4 hdr then
            (if wanted4 s hdr \<and> fits s (ipv4_len hdr) then Some (take (unat (ipv4_len hdr)) hdr) else None)
          else
            (if wanted6 s hdr \<and> fits s (ipv6_len hdr) then Some (take (unat (ipv6_len hdr)) hdr) else None))"

lemma push_user:
  assumes "route_on xs s" "unat n \<le> length hdr"
  obtains q' r where "xsky_queue_push (rs_queue s) hdr n = Some (q', r)" "queue_on xs q'"
    "q_cap q' = QUEUE_SIZE" "r = 0 \<longleftrightarrow> fits s n"
    "r = 0 \<Longrightarrow> q_contents q' = q_contents (rs_queue s) @ [take (unat n) hdr]"
    "r \<noteq> 0 \<Longrightarrow> q' = rs_queue s"
proof -
  have on: "queue_on xs (rs_queue s)" "q_cap (rs_queue s) = QUEUE_SIZE"
    using assms by (auto simp: route_on_def)
  obtain q' r where p: "xsky_queue_push (rs_queue s) hdr n = Some (q', r)" "queue_on xs q'"
    "q_cap q' = QUEUE_SIZE" "r = 0 \<longleftrightarrow> fits s n"
    "q_contents q' = (if r = 0 then q_contents (rs_queue s) @ [take (unat n) hdr] else q_contents (rs_queue s))"
    using ring.push_total [OF on(1) assms(2)] on(2) unfolding fits_def by metis
  moreover have "r \<noteq> 0 \<Longrightarrow> q' = rs_queue s"
    using p(1) by (auto simp: xsky_queue_push_def Let_def split: if_splits bind_splits)
  ultimately show ?thesis using that by auto
qed

lemma hook_none:
  assumes "route_on xs s" "skb_ok skb" "hook_spec s skb = None"
  shows "nf_handle_in s skb = Some (s, NF_ACCEPT)"
proof (cases "Option.bind skb skb_network")
  case None
  then show ?thesis by (auto simp: nf_handle_in_def split: option.splits bind_splits)
next
  case (Some hdr)
  then obtain b where skb: "skb = Some b" "skb_network b = Some hdr" by (auto split: bind_splits)
  have ok: "hdr_ok hdr" using assms(2) skb by (simp add: skb_ok_def)
  show ?thesis
  proof (cases "is_v4 hdr")
    case True
    have len: "unat (ipv4_len hdr) \<le> length hdr" using ok True by (simp add: hdr_ok_def)
    obtain q' r where p: "xsky_queue_push (rs_queue s) hdr (ipv4_len hdr) = Some (q', r)"
      "r = 0 \<longleftrightarrow> fits s (ipv4_len hdr)" "r \<noteq> 0 \<Longrightarrow> q' = rs_queue s"
      using push_user [OF assms(1) len] by metis
    have sub: "xsky_is_subnet (rs_subnet s) (take 4 (drop 12 hdr)) 0
        = Some (in_subnet (rs_subnet s) (take 4 (drop 12 hdr)))"
      using assms(1) ok True by (intro is_subnet_ok) (auto simp: route_on_def hdr_ok_def addr_len_def)
    have "length (rs_tunnel_addr s) = 4" using assms(1) by (simp add: route_on_def)
    then show ?thesis using assms(3) skb ok True p sub
      by (auto simp: nf_handle_in_def handle_ipv4_dgram_in_def xsky_push_ipv4_packet_to_user_def
          hook_spec_def hdr_ok_def is_v4_def wanted4_def ipv4_len_def xsky_mem Let_def split: if_splits)
  next
    case False
    have len: "unat (ipv6_len hdr) \<le> length hdr" using ok False by (simp add: hdr_ok_def)
    obtain q' r where p: "xsky_queue_push (rs_queue s) hdr (ipv6_len hdr) = Some (q', r)"
      "r = 0 \<longleftrightarrow> fits s (ipv6_len hdr)" "r \<noteq> 0 \<Longrightarrow> q' = rs_queue s"
      using push_user [OF assms(1) len] by metis
    have sub: "xsky_is_subnet (rs_subnet6 s) (take 16 (drop 8 hdr)) 1
        = Some (in_subnet (rs_subnet6 s) (take 16 (drop 8 hdr)))"
      using assms(1) ok False by (intro is_subnet_ok) (auto simp: route_on_def hdr_ok_def addr_len_def)
    have "length (rs_tunnel_addr6 s) = 16" using assms(1) by (simp add: route_on_def)
    then show ?thesis using assms(3) skb ok False p sub
      by (auto simp: nf_handle_in_def handle_ipv6_dgram_in_def xsky_push_ipv6_packet_to_user_def
          hook_spec_def hdr_ok_def is_v4_def wanted6_def ipv6_len_def xsky_mem Let_def split: if_splits)
  qed
qed

lemma hook_some:
  assumes "route_on xs s" "skb_ok skb" "hook_spec s skb = Some p"
  obtains q' where "nf_handle_in s skb =
      Some (s\<lparr>rs_queue := q', rs_wakeups := rs_wakeups s + 1\<rparr>, NF_DROP)"
    "queue_on xs q'" "q_cap q' = QUEUE_SIZE" "q_contents q' = q_contents (rs_queue s) @ [p]"
proof -
  obtain b hdr where skb: "skb = Some b" "skb_network b = Some hdr"
    using assms(3) by (auto simp: hook_spec_def split: option.splits bind_splits)
  have ok: "hdr_ok hdr" using assms(2) skb by (simp add: skb_ok_def)
  show ?thesis
  proof (cases "is_v4 hdr")
    case True
    have w: "rs_flock_flag s" "wanted4 s hdr" "fits s (ipv4_len hdr)" "p = take (unat (ipv4_len hdr)) hdr"
      using assms(3) skb True by (auto simp: hook_spec_def split: if_splits)
    have len: "unat (ipv4_len hdr) \<le> length hdr" using ok True by (simp add: hdr_ok_def)
    obtain q' where q': "xsky_queue_push (rs_queue s) hdr (ipv4_len hdr) = Some (q', 0)"
      "queue_on xs q'" "q_cap q' = QUEUE_SIZE" "q_contents q' = q_contents (rs_queue s) @ [p]"
      using push_user [OF assms(1) len] w by metis
    have sub: "xsky_is_subnet (rs_subnet s) (take 4 (drop 12 hdr)) 0
        = Some (in_subnet (rs_subnet s) (take 4 (drop 12 hdr)))"
      using assms(1) ok True by (intro is_subnet_ok) (auto simp: route_on_def hdr_ok_def addr_len_def)
    have "length (rs_tunnel_addr s) = 4" using assms(1) by (simp add: route_on_def)
    then show ?thesis using skb ok True w q' sub
      by (intro that [of q']) (auto simp: nf_handle_in_def handle_ipv4_dgram_in_def
          xsky_push_ipv4_packet_to_user_def hdr_ok_def is_v4_def wanted4_def ipv4_len_def xsky_mem Let_def)
  next
    case False
    have w: "rs_flock_flag s" "wanted6 s hdr" "fits s (ipv6_len hdr)" "p = take (unat (ipv6_len hdr)) hdr"
      using assms(3) skb False by (auto simp: hook_spec_def split: if_splits)
    have len: "unat (ipv6_len hdr) \<le> length hdr" using ok False by (simp add: hdr_ok_def)
    obtain q' where q': "xsky_queue_push (rs_queue s) hdr (ipv6_len hdr) = Some (q', 0)"
      "queue_on xs q'" "q_cap q' = QUEUE_SIZE" "q_contents q' = q_contents (rs_queue s) @ [p]"
      using push_user [OF assms(1) len] w by metis
    have sub: "xsky_is_subnet (rs_subnet6 s) (take 16 (drop 8 hdr)) 1
        = Some (in_subnet (rs_subnet6 s) (take 16 (drop 8 hdr)))"
      using assms(1) ok False by (intro is_subnet_ok) (auto simp: route_on_def hdr_ok_def addr_len_def)
    have "length (rs_tunnel_addr6 s) = 16" using assms(1) by (simp add: route_on_def)
    then show ?thesis using skb ok False w q' sub
      by (intro that [of q']) (auto simp: nf_handle_in_def handle_ipv6_dgram_in_def
          xsky_push_ipv6_packet_to_user_def hdr_ok_def is_v4_def wanted6_def ipv6_len_def xsky_mem Let_def)
  qed
qed

section \<open>The other handlers keep the invariant\<close>

text \<open>\<open>copy_from_user\<close> fills the buffer it is given or fails.\<close>

definition umem_ok :: "(nat \<Rightarrow> byte list option) \<Rightarrow> bool" where
  "umem_ok umem \<longleftrightarrow> (\<forall>n. pred_option (\<lambda>bs. length bs = n) (umem n))"

lemma umem_ok_len: "umem_ok umem \<Longrightarrow> umem n = Some bs \<Longrightarrow> length bs = n"
  unfolding umem_ok_def by (metis option.pred_inject(2))

definition subnet_arg_ok :: "xsky_subnet \<Rightarrow> bool" where
  "subnet_arg_ok t \<longleftrightarrow> unat (sn_prefix t) \<le> (if sn_is_ipv6 t \<noteq> 0 then 128 else 32)"

lemma addr_len_ipv6: "v \<noteq> 0 \<Longrightarrow> addr_len v = addr_len 1" by (simp add: addr_len_def)

lemma set_subnet_bad:
  assumes "umem 18 = Some bs" "\<not> subnet_arg_ok (subnet_of_bytes bs)"
  shows "xsky_set_udp_proxy_subnet umem s = Some (s, - EINVAL)"
  using assms by (auto simp: xsky_set_udp_proxy_subnet_def subnet_arg_ok_def word_less_nat_alt Let_def)

text \<open>
  A valid request replaces the subnet of its address family by the masked address, and every
  address then matches exactly when it agrees with the requested one on the prefix.
\<close>

lemma set_subnet_good:
  assumes "umem 18 = Some bs" "length bs = 18" "subnet_arg_ok (subnet_of_bytes bs)" "route_on xs s"
  defines "v6 \<equiv> sn_is_ipv6 (subnet_of_bytes bs) \<noteq> 0"
  obtains t where "xsky_set_udp_proxy_subnet umem s = Some
      ((if v6 then s\<lparr>rs_subnet6 := t, rs_is_set_subnet6 := True\<rparr>
        else s\<lparr>rs_subnet := t, rs_is_set_subnet := True\<rparr>), 0)"
    "subnet_ok (if v6 then 1 else 0) t" "sn_prefix t = bs ! 16"
    "\<And>ip. in_subnet t ip \<longleftrightarrow> (\<forall>k < unat (bs ! 16). addr_bit ip k = addr_bit bs k)"
proof -
  let ?r = "subnet_of_bytes bs"
  let ?v = "sn_is_ipv6 ?r" and ?p = "sn_prefix ?r"
  let ?old = "sn_address (if v6 then rs_subnet6 s else rs_subnet s)"
  let ?n = "addr_len ?v"
  define t where "t = \<lparr>sn_address = map (masked ?p (sn_address ?r)) [0..<?n] @ drop ?n ?old,
    sn_prefix = ?p, sn_is_ipv6 = ?v\<rparr>"
  have old: "length ?old = 16" using assms(4) by (auto simp: route_on_def subnet_ok_def)
  have new: "length (sn_address ?r) = 16" "sn_prefix ?r = bs ! 16"
    using assms(2) by (simp_all add: subnet_of_bytes_def)
  have p: "unat ?p \<le> 8 * ?n" using assms(3) by (auto simp: subnet_arg_ok_def addr_len_def)
  have n: "?n \<le> 16" by (rule addr_len_le)
  have calc: "calc_subnet ?old (sn_address ?r) ?p ?v = Some (sn_address t)"
    using calc_subnet_eq [of ?v ?old "sn_address ?r" ?p] old new p n by (simp add: t_def)
  have bits: "addr_bit (sn_address t) k \<longleftrightarrow> k < unat ?p \<and> addr_bit (sn_address ?r) k" if "k < 8 * ?n" for k
    using masked_bit [OF that] addr_bit_take [OF that, of "sn_address t"] by (simp add: t_def)
  have len_eq: "addr_len (if v6 then 1 else 0) = ?n" by (simp add: v6_def addr_len_def)
  show ?thesis
  proof (rule that [of t])
    have "\<not> (?v \<noteq> 0 \<and> ?p > 128)" "\<not> (?v = 0 \<and> ?p > 32)"
      using assms(3) by (auto simp: subnet_arg_ok_def word_less_nat_alt)
    then show "xsky_set_udp_proxy_subnet umem s = Some
      ((if v6 then s\<lparr>rs_subnet6 := t, rs_is_set_subnet6 := True\<rparr>
        else s\<lparr>rs_subnet := t, rs_is_set_subnet := True\<rparr>), 0)"
      using assms(1) calc by (auto simp: xsky_set_udp_proxy_subnet_def Let_def v6_def t_def)
    show "subnet_ok (if v6 then 1 else 0) t"
      using old n p bits len_eq by (auto simp: subnet_ok_def t_def)
    show "sn_prefix t = bs ! 16" using new by (simp add: t_def)
    fix ip
    have "addr_bit (sn_address ?r) k = addr_bit bs k" if "k < unat ?p" for k
      using addr_bit_take [of k 16 bs] that p n by (simp add: subnet_of_bytes_def)
    moreover have "addr_bit (sn_address t) k = addr_bit (sn_address ?r) k" if "k < unat ?p" for k
      using bits [of k] that p by simp
    ultimately show "in_subnet t ip \<longleftrightarrow> (\<forall>k < unat (bs ! 16). addr_bit ip k = addr_bit bs k)"
      using new by (auto simp: in_subnet_def t_def)
  qed
qed

lemma set_tunnel_total:
  assumes "umem_ok umem" "route_on xs s"
  obtains s' r where "xsky_set_tunnel umem s = Some (s', r)" "route_on xs s'"
    "rs_queue s' = rs_queue s" "rs_flock_flag s' = rs_flock_flag s"
proof (cases "umem 17")
  case None
  then show ?thesis using that [of s "- EINVAL"] assms by (simp add: xsky_set_tunnel_def)
next
  case (Some bs)
  let ?t = "address_of_bytes bs"
  have "length bs = 17" using umem_ok_len [OF assms(1) Some] .
  then have a: "length (ad_address ?t) = 16" by (simp add: address_of_bytes_def)
  have l: "length (rs_tunnel_addr s) = 4" "length (rs_tunnel_addr6 s) = 16"
    using assms(2) by (auto simp: route_on_def)
  show ?thesis
  proof (cases "ad_is_ipv6 ?t = 0")
    case True
    then show ?thesis
      using that [of "s\<lparr>rs_tunnel_addr := take 4 (ad_address ?t), rs_is_set_tunnel_addr := True\<rparr>" 0]
        assms(2) a l Some by (auto simp: xsky_set_tunnel_def xsky_mem Let_def route_on_def)
  next
    case False
    then show ?thesis
      using that [of "s\<lparr>rs_tunnel_addr6 := ad_address ?t, rs_is_set_tunnel_addr6 := True\<rparr>" 0]
        assms(2) a l Some by (auto simp: xsky_set_tunnel_def xsky_mem Let_def route_on_def)
  qed
qed

lemma set_subnet_total:
  assumes "umem_ok umem" "route_on xs s"
  obtains s' r where "xsky_set_udp_proxy_subnet umem s = Some (s', r)" "route_on xs s'"
    "rs_queue s' = rs_queue s" "rs_flock_flag s' = rs_flock_flag s"
proof (cases "umem 18")
  case None
  then show ?thesis using that [of s "- EINVAL"] assms by (simp add: xsky_set_udp_proxy_subnet_def)
next
  case (Some bs)
  show ?thesis
  proof (cases "subnet_arg_ok (subnet_of_bytes bs)")
    case True
    obtain t where "xsky_set_udp_proxy_subnet umem s = Some
      ((if sn_is_ipv6 (subnet_of_bytes bs) \<noteq> 0 then s\<lparr>rs_subnet6 := t, rs_is_set_subnet6 := True\<rparr>
        else s\<lparr>rs_subnet := t, rs_is_set_subnet := True\<rparr>), 0)"
      "subnet_ok (if sn_is_ipv6 (subnet_of_bytes bs) \<noteq> 0 then 1 else 0) t"
      using set_subnet_good [where umem = umem and bs = bs, OF Some umem_ok_len [OF assms(1) Some] True assms(2)]
      by metis
    then show ?thesis using that assms(2) by (auto simp: route_on_def split: if_splits)
  qed (use that set_subnet_bad Some assms in blast)
qed

lemma ioctl_total:
  assumes "umem_ok umem" "route_on xs s"
  obtains s' r where "chr_ioctl umem cmd s = Some (s', r)" "route_on xs s'"
    "rs_queue s' = rs_queue s" "rs_flock_flag s' = rs_flock_flag s"
proof -
  obtain s1 r1 where 1: "xsky_set_udp_proxy_subnet umem s = Some (s1, r1)" "route_on xs s1"
    "rs_queue s1 = rs_queue s" "rs_flock_flag s1 = rs_flock_flag s"
    by (rule set_subnet_total [OF assms])
  obtain s2 r2 where 2: "xsky_set_tunnel umem s = Some (s2, r2)" "route_on xs s2"
    "rs_queue s2 = rs_queue s" "rs_flock_flag s2 = rs_flock_flag s"
    by (rule set_tunnel_total [OF assms])
  consider "chr_ioctl umem cmd s = Some (s, - EINVAL)" | "chr_ioctl umem cmd s = Some (s1, r1)"
    | "chr_ioctl umem cmd s = Some (s2, r2)"
    using 1(1) 2(1) unfolding chr_ioctl_def by presburger
  then show ?thesis using that 1 2 assms(2) by cases blast+
qed

lemma contents_sizes:
  assumes "queue_on xs q" "xsky_queue_pop q = Some (q', Some a)"
  obtains c where "q_cells q' a = Some c" "length (qd_data c) = XSKY_MTU" "unat (qd_size c) \<le> XSKY_MTU"
proof -
  obtain b where inv: "ring_inv q xs b" using assms(1) by (auto simp: queue_on_def)
  have ne: "q_have q \<noteq> 0" and pl: "pop_locked q = Some (q', Some a)"
    using assms(2) by (auto simp: xsky_queue_pop_def pop_check_def split: if_splits)
  have r: "ring_cells q xs" and bg: "q_begin q = Some (xs ! (b mod length xs))"
    using inv ne by (auto simp: ring_inv_def)
  obtain c where "q_cells q (xs ! (b mod length xs)) = Some c" "length (qd_data c) = XSKY_MTU"
    "unat (qd_size c) \<le> XSKY_MTU"
    using ring_cellsD [OF r] by metis
  then show ?thesis using that pl bg by (auto simp: pop_locked_def cell_at_def)
qed

lemma read_total:
  assumes "route_on xs s"
  obtains s' r d where "chr_read w s = Some (s', r, d)" "route_on xs s'" "rs_flock_flag s' = rs_flock_flag s"
    "r \<noteq> - EFAULT \<Longrightarrow> q_contents (rs_queue s) = (case d of None \<Rightarrow> [] | Some d \<Rightarrow> [d]) @ q_contents (rs_queue s')"
proof -
  have on: "queue_on xs (rs_queue s)" "q_cap (rs_queue s) = QUEUE_SIZE"
    using assms by (auto simp: route_on_def)
  obtain q' c where pop: "xsky_queue_pop (rs_queue s) = Some (q', c)" "queue_on xs q'" "q_cap q' = QUEUE_SIZE"
    "q_contents (rs_queue s) = (case c of None \<Rightarrow> [] | Some c \<Rightarrow> [payload q' c]) @ q_contents q'"
    using ring.pop_total [OF on(1)] on(2) by metis
  let ?s = "s\<lparr>rs_queue := q'\<rparr>"
  have ok: "route_on xs ?s" using assms pop by (auto simp: route_on_def)
  show ?thesis
  proof (cases c)
    case None
    then show ?thesis using that [of ?s "- EAGAIN" None] ok pop by (simp add: chr_read_def)
  next
    case (Some a)
    obtain e where e: "q_cells q' a = Some e" "length (qd_data e) = XSKY_MTU" "unat (qd_size e) \<le> XSKY_MTU"
      by (rule contents_sizes [OF on(1)]) (use pop Some in auto)
    then have pl: "payload q' a = take (unat (qd_size e)) (qd_data e)" by (simp add: payload_def)
    show ?thesis
    proof (cases "w (unat (qd_size e))")
      case True
      then have "chr_read w s = Some (?s, sint (qd_size e), Some (payload q' a))"
        using pop Some e pl by (simp add: chr_read_def xsky_mem)
      then show ?thesis using that ok pop Some by auto
    next
      case False
      then have "chr_read w s = Some (?s, - EFAULT, None)"
        using pop Some e pl by (simp add: chr_read_def xsky_mem)
      then show ?thesis using that ok by auto
    qed
  qed
qed

lemma release_on: "route_on xs s \<Longrightarrow> route_on xs (fst (chr_release s))"
  using ring_reset by (auto simp: route_on_def chr_release_def)

lemma open_on: "route_on xs s \<Longrightarrow> route_on xs (fst (chr_open s))"
  by (auto simp: route_on_def chr_open_def)

lemma hook_on:
  assumes "route_on xs s" "skb_ok skb"
  obtains s' v where "nf_handle_in s skb = Some (s', v)" "route_on xs s'" "rs_flock_flag s' = rs_flock_flag s"
    "v = NF_DROP \<longleftrightarrow> hook_spec s skb \<noteq> None"
    "q_contents (rs_queue s') = q_contents (rs_queue s) @ (case hook_spec s skb of None \<Rightarrow> [] | Some p \<Rightarrow> [p])"
proof (cases "hook_spec s skb")
  case None
  then show ?thesis using that hook_none [OF assms None] assms by simp
next
  case (Some p)
  have fl: "rs_flock_flag s" using Some by (auto simp: hook_spec_def split: option.splits if_splits)
  obtain q' where "nf_handle_in s skb = Some (s\<lparr>rs_queue := q', rs_wakeups := rs_wakeups s + 1\<rparr>, NF_DROP)"
    "queue_on xs q'" "q_cap q' = QUEUE_SIZE" "q_contents q' = q_contents (rs_queue s) @ [p]"
    by (rule hook_some [OF assms Some])
  then show ?thesis using that Some assms(1) fl by (auto simp: route_on_def)
qed

section \<open>The hooks\<close>

lemma register_loop_spec:
  assumes "register_loop reg nets hooked = (h, res)"
  shows "case res of
           None \<Rightarrow> h = hooked \<union> {net \<in> set nets. reg net = 0} \<and> (\<forall>net \<in> set nets. reg net \<in> {0, - ENOENT})
         | Some (net, ret) \<Rightarrow> ret = reg net \<and> ret \<notin> {0, - ENOENT} \<and>
             (\<exists>pre post. nets = pre @ net # post \<and> h = hooked \<union> {n \<in> set pre. reg n = 0})"
  using assms
proof (induction reg nets hooked rule: register_loop.induct)
  case (2 reg net nets hooked)
  show ?case
  proof (cases "reg net \<noteq> 0 \<and> reg net \<noteq> - ENOENT")
    case True
    then have "h = hooked" "res = Some (net, reg net)" using 2(2) by (auto simp: Let_def)
    moreover have "net # nets = [] @ net # nets" by simp
    ultimately show ?thesis using True by fastforce
  next
    case False
    let ?hooked = "if reg net = 0 then insert net hooked else hooked"
    have step: "register_loop reg nets ?hooked = (h, res)" using 2(2) False by (auto simp: Let_def)
    note IH = 2(1) [OF refl False step]
    show ?thesis
    proof (cases res)
      case None
      then show ?thesis using IH False by auto
    next
      case (Some x)
      obtain n r where x: "x = (n, r)" by (cases x)
      obtain pre post where pre: "nets = pre @ n # post" "h = ?hooked \<union> {m \<in> set pre. reg m = 0}"
        "r = reg n" "r \<notin> {0, - ENOENT}"
        using IH Some x by auto
      then have "net # nets = (net # pre) @ n # post" "h = hooked \<union> {m \<in> set (net # pre). reg m = 0}"
        by auto
      then have "\<exists>p q. net # nets = p @ n # q \<and> h = hooked \<union> {m \<in> set p. reg m = 0}" by blast
      then show ?thesis using Some x pre(3,4) by simp
    qed
  qed
qed auto

lemma rollback_loop_eq:
  "net \<notin> set pre \<Longrightarrow> rollback_loop net (pre @ net # post) hooked = hooked - set pre"
  by (induction pre arbitrary: hooked) auto

lemma unregister_eq: "nf_unregister_hook nets hooked = hooked - set nets"
  by (induction nets hooked rule: nf_unregister_hook.induct) auto

lemma rollback_sub: "rollback_loop net nets hooked \<subseteq> hooked"
  by (induction net nets hooked rule: rollback_loop.induct) auto

lemma register_sub: "fst (nf_register_hook reg nets hooked) \<subseteq> hooked \<union> set nets"
proof (cases "register_loop reg nets hooked")
  case (Pair h res)
  show ?thesis using register_loop_spec [OF Pair] rollback_sub
    by (fastforce simp: nf_register_hook_def Pair split: option.splits)
qed

section \<open>The module as a state machine\<close>

text \<open>
  The kernel calls \<open>ioctl\<close>, \<open>read\<close>, \<open>poll\<close> and \<open>release\<close> on an open file only; a packet may
  come at any time.
\<close>

datatype route_event =
    Ev_open | Ev_ioctl "nat \<Rightarrow> byte list option" u32 | Ev_packet "sk_buff option"
  | Ev_read "nat \<Rightarrow> bool" | Ev_release

datatype route_obs = Ret int | Verdict nf_verdict | Got int "byte list option"

fun route_exec :: "route_event \<Rightarrow> route_state \<Rightarrow> (route_state \<times> route_obs) option" where
  "route_exec Ev_open s = (case chr_open s of (s', r) \<Rightarrow> Some (s', Ret r))"
| "route_exec (Ev_ioctl umem cmd) s = do { (s', r) \<leftarrow> chr_ioctl umem cmd s; Some (s', Ret r) }"
| "route_exec (Ev_packet skb) s = do { (s', v) \<leftarrow> nf_handle_in s skb; Some (s', Verdict v) }"
| "route_exec (Ev_read w) s = do { (s', r, d) \<leftarrow> chr_read w s; Some (s', Got r d) }"
| "route_exec Ev_release s = (case chr_release s of (s', r) \<Rightarrow> Some (s', Ret r))"

fun event_ok :: "route_state \<Rightarrow> route_event \<Rightarrow> bool" where
  "event_ok s Ev_open \<longleftrightarrow> True"
| "event_ok s (Ev_ioctl umem cmd) \<longleftrightarrow> rs_flock_flag s \<and> umem_ok umem"
| "event_ok s (Ev_packet skb) \<longleftrightarrow> skb_ok skb"
| "event_ok s (Ev_read w) \<longleftrightarrow> rs_flock_flag s"
| "event_ok s Ev_release \<longleftrightarrow> rs_flock_flag s"

inductive rrun :: "route_state \<Rightarrow> (route_event \<times> route_obs) list \<Rightarrow> route_state \<Rightarrow> bool" for s where
  rrun_nil: "rrun s [] s"
| rrun_snoc: "rrun s tr t \<Longrightarrow> event_ok t e \<Longrightarrow> route_exec e t = Some (u, ob) \<Longrightarrow> rrun s (tr @ [(e, ob)]) u"

lemma exec_total:
  assumes "route_on xs s" "event_ok s e"
  obtains s' ob where "route_exec e s = Some (s', ob)" "route_on xs s'"
proof (cases e)
  case Ev_open
  then show ?thesis using that open_on [OF assms(1)] by (cases "chr_open s") auto
next
  case (Ev_ioctl umem cmd)
  have "umem_ok umem" using Ev_ioctl assms(2) by simp
  then obtain s' r where "chr_ioctl umem cmd s = Some (s', r)" "route_on xs s'"
    by (rule ioctl_total [OF _ assms(1), of umem cmd])
  then show ?thesis using that Ev_ioctl by simp
next
  case (Ev_packet skb)
  have "skb_ok skb" using Ev_packet assms(2) by simp
  then obtain s' v where "nf_handle_in s skb = Some (s', v)" "route_on xs s'"
    by (rule hook_on [OF assms(1), of skb])
  then show ?thesis using that Ev_packet by simp
next
  case (Ev_read w)
  obtain s' r d where "chr_read w s = Some (s', r, d)" "route_on xs s'"
    by (rule read_total [OF assms(1), of w])
  then show ?thesis using that Ev_read by simp
next
  case Ev_release
  then show ?thesis using that release_on [OF assms(1)] by (cases "chr_release s") auto
qed

lemma rrun_on: "rrun s tr t \<Longrightarrow> route_on xs s \<Longrightarrow> route_on xs t"
proof (induction rule: rrun.induct)
  case (rrun_snoc tr t e u ob)
  then show ?case using exec_total [of xs t e] by (metis option.inject prod.inject)
qed

lemma push4_hooks:
  "xsky_push_ipv4_packet_to_user s h = Some (s', v) \<Longrightarrow> rs_hooks s' = rs_hooks s \<and> rs_hooks6 s' = rs_hooks6 s \<and> rs_dev s' = rs_dev s"
  by (auto simp: xsky_push_ipv4_packet_to_user_def Let_def split: bind_splits if_splits)

lemma push6_hooks:
  "xsky_push_ipv6_packet_to_user s h = Some (s', v) \<Longrightarrow> rs_hooks s' = rs_hooks s \<and> rs_hooks6 s' = rs_hooks6 s \<and> rs_dev s' = rs_dev s"
  by (auto simp: xsky_push_ipv6_packet_to_user_def Let_def split: bind_splits if_splits)

lemma handle_hooks:
  "handle_ipv4_dgram_in s h = Some (s', v) \<Longrightarrow> rs_hooks s' = rs_hooks s \<and> rs_hooks6 s' = rs_hooks6 s \<and> rs_dev s' = rs_dev s"
  "handle_ipv6_dgram_in s h = Some (s', v) \<Longrightarrow> rs_hooks s' = rs_hooks s \<and> rs_hooks6 s' = rs_hooks6 s \<and> rs_dev s' = rs_dev s"
  by (auto simp: handle_ipv4_dgram_in_def handle_ipv6_dgram_in_def
      dest: push4_hooks push6_hooks split: bind_splits if_splits)

lemma nf_handle_hooks:
  "nf_handle_in s skb = Some (s', v) \<Longrightarrow> rs_hooks s' = rs_hooks s \<and> rs_hooks6 s' = rs_hooks6 s \<and> rs_dev s' = rs_dev s"
  by (auto simp: nf_handle_in_def Let_def dest: handle_hooks split: bind_splits if_splits option.splits)

lemma ioctl_hooks:
  "chr_ioctl umem cmd s = Some (s', r) \<Longrightarrow> rs_hooks s' = rs_hooks s \<and> rs_hooks6 s' = rs_hooks6 s \<and> rs_dev s' = rs_dev s"
  by (auto simp: chr_ioctl_def xsky_set_udp_proxy_subnet_def xsky_set_tunnel_def Let_def
      split: bind_splits if_splits option.splits)

lemma read_hooks:
  "chr_read w s = Some (s', r, d) \<Longrightarrow> rs_hooks s' = rs_hooks s \<and> rs_hooks6 s' = rs_hooks6 s \<and> rs_dev s' = rs_dev s"
  by (auto simp: chr_read_def Let_def split: bind_splits if_splits option.splits)

lemma exec_hooks:
  "route_exec e s = Some (s', ob) \<Longrightarrow> rs_hooks s' = rs_hooks s \<and> rs_hooks6 s' = rs_hooks6 s \<and> rs_dev s' = rs_dev s"
  by (cases e) (auto simp: chr_open_def chr_release_def
      dest: nf_handle_hooks ioctl_hooks read_hooks split: bind_splits if_splits)

lemma rrun_hooks: "rrun s tr t \<Longrightarrow> rs_hooks t = rs_hooks s \<and> rs_hooks6 t = rs_hooks6 s \<and> rs_dev t = rs_dev s"
  by (induction rule: rrun.induct) (auto dest: exec_hooks)

lemma init_on:
  assumes "\<And>k. k < QUEUE_SIZE \<Longrightarrow> alloc k = Some (f k)" "inj_on f {..<QUEUE_SIZE}"
    and "0 \<le> region_ret"
  obtains s where "xsky_init region_ret False reg reg6 nets alloc = Some (Inr s)"
    "route_on (map f [0..<QUEUE_SIZE]) s"
    "rs_hooks s \<subseteq> set nets" "rs_hooks6 s \<subseteq> set nets"
    "rs_dev s = \<lparr>kd_region = 1, kd_cdev = True, kd_class = True, kd_node = True\<rparr>"
    "\<not> rs_flock_flag s" "rs_tunnel_addr s = replicate 4 0" "\<not> rs_is_set_tunnel_addr s"
    "rs_subnet s = zero_subnet" "q_contents (rs_queue s) = []"
proof -
  have Q: "0 < QUEUE_SIZE" "QUEUE_SIZE < 2 ^ 64" by (simp_all add: QUEUE_SIZE_def)
  obtain q where q: "xsky_queue_init alloc QUEUE_SIZE = Some q" "queue_on (map f [0..<QUEUE_SIZE]) q"
    "q_contents q = []" "q_cap q = QUEUE_SIZE"
    by (rule init_queue_on [OF assms(1,2) Q])
  have "\<not> addr_bit (replicate 16 0) k" if "k < 128" for k
    using that by (simp add: addr_bit_def less_mult_imp_div_less)
  then have "subnet_ok 0 zero_subnet" "subnet_ok 1 zero_subnet"
    by (auto simp: subnet_ok_def zero_subnet_def addr_len_def)
  moreover have "fst (nf_register_hook r nets {}) \<subseteq> set nets" for r
    using register_sub [of r nets "{}"] by simp
  ultimately show ?thesis using that q assms(3)
    by (simp add: xsky_init_def create_dev_def no_dev_def route_on_def Let_def)
qed

section \<open>What was taken and what was delivered\<close>

text \<open>The packets of a trace that the hook dropped, and those that reads delivered.\<close>

definition packet_len :: "byte list \<Rightarrow> nat" where
  "packet_len hdr = unat (if is_v4 hdr then ipv4_len hdr else ipv6_len hdr)"

fun dropped :: "(route_event \<times> route_obs) list \<Rightarrow> byte list list" where
  "dropped [] = []"
| "dropped ((Ev_packet (Some b), Verdict NF_DROP) # tr) =
     (case skb_network b of None \<Rightarrow> [] | Some hdr \<Rightarrow> [take (packet_len hdr) hdr]) @ dropped tr"
| "dropped (_ # tr) = dropped tr"

fun delivered :: "(route_event \<times> route_obs) list \<Rightarrow> byte list list" where
  "delivered [] = []"
| "delivered ((Ev_read w, Got r (Some d)) # tr) = d # delivered tr"
| "delivered (_ # tr) = delivered tr"

text \<open>A session: no release, and no read that failed to copy its packet out.\<close>

fun in_session :: "route_event \<times> route_obs \<Rightarrow> bool" where
  "in_session (Ev_release, ob) \<longleftrightarrow> False"
| "in_session (e, Got r d) \<longleftrightarrow> r \<noteq> - EFAULT"
| "in_session (e, ob) \<longleftrightarrow> True"

lemma dropped_append: "dropped (xs @ ys) = dropped xs @ dropped ys"
  by (induction xs rule: dropped.induct) (auto split: option.splits)

lemma delivered_append: "delivered (xs @ ys) = delivered xs @ delivered ys"
  by (induction xs rule: delivered.induct) auto

lemma hook_spec_payload:
  "hook_spec s (Some b) = Some p \<Longrightarrow>
     (case skb_network b of None \<Rightarrow> [] | Some hdr \<Rightarrow> [take (packet_len hdr) hdr]) = [p]"
  by (auto simp: hook_spec_def packet_len_def split: option.splits if_splits)

lemma exec_flow:
  assumes "route_on xs s" "event_ok s e" "route_exec e s = Some (s', ob)" "in_session (e, ob)"
  shows "q_contents (rs_queue s) @ dropped [(e, ob)] = delivered [(e, ob)] @ q_contents (rs_queue s')"
proof (cases e)
  case Ev_open
  then show ?thesis using assms(3) by (auto simp: chr_open_def split: if_splits)
next
  case (Ev_ioctl umem cmd)
  then show ?thesis using assms ioctl_total [of umem xs s cmd] by (fastforce split: bind_splits)
next
  case (Ev_packet skb)
  obtain v where ob: "nf_handle_in s skb = Some (s', v)" "ob = Verdict v"
    using assms(3) Ev_packet by (auto split: bind_splits)
  have sk: "skb_ok skb" using assms(2) Ev_packet by simp
  show ?thesis
  proof (cases "hook_spec s skb")
    case None
    then have "v = NF_ACCEPT" "s' = s" using hook_none [OF assms(1) sk None] ob by auto
    then show ?thesis using Ev_packet ob by (cases skb) auto
  next
    case (Some p)
    then obtain b where b: "skb = Some b" by (cases skb) (auto simp: hook_spec_def)
    obtain q' where "nf_handle_in s skb = Some (s\<lparr>rs_queue := q', rs_wakeups := rs_wakeups s + 1\<rparr>, NF_DROP)"
      "q_contents q' = q_contents (rs_queue s) @ [p]"
      using hook_some [OF assms(1) sk Some] by metis
    then show ?thesis using Ev_packet ob b hook_spec_payload [of s b p] Some by auto
  qed
next
  case (Ev_read w)
  obtain r d where rd: "chr_read w s = Some (s', r, d)" "ob = Got r d"
    using assms(3) Ev_read by (auto split: bind_splits)
  have "r \<noteq> - EFAULT" using assms(4) Ev_read rd by simp
  moreover obtain s1 r1 d1 where "chr_read w s = Some (s1, r1, d1)"
    "r1 \<noteq> - EFAULT \<Longrightarrow> q_contents (rs_queue s) = (case d1 of None \<Rightarrow> [] | Some d \<Rightarrow> [d]) @ q_contents (rs_queue s1)"
    by (rule read_total [OF assms(1)]) blast
  ultimately have "q_contents (rs_queue s) = (case d of None \<Rightarrow> [] | Some d \<Rightarrow> [d]) @ q_contents (rs_queue s')"
    using rd by simp
  then show ?thesis using Ev_read rd by (cases d) simp_all
next
  case Ev_release
  then show ?thesis using assms(4) by simp
qed

lemma rrun_flow:
  assumes "rrun s tr t" "route_on xs s" "\<forall>x \<in> set tr. in_session x"
  shows "q_contents (rs_queue s) @ dropped tr = delivered tr @ q_contents (rs_queue t)"
  using assms
proof (induction rule: rrun.induct)
  case (rrun_snoc tr t e u ob)
  have "route_on xs t" using rrun_on rrun_snoc by blast
  with exec_flow [of xs t e u ob] rrun_snoc
  have 1: "q_contents (rs_queue t) @ dropped [(e, ob)] = delivered [(e, ob)] @ q_contents (rs_queue u)"
    by simp
  have 2: "q_contents (rs_queue s) @ dropped tr = delivered tr @ q_contents (rs_queue t)"
    using rrun_snoc by simp
  show ?case unfolding dropped_append delivered_append append.assoc [symmetric] 2
    by (simp add: 1)
qed simp

section \<open>Properties\<close>

text \<open>C3: the netfilter hook, on every branch. On well-formed packets it never faults; it drops
exactly the packets \<open>hook_spec\<close> names (device open, UDP or next header 136, not addressed to
the tunnel, source in the configured subnet, at most an MTU, room in the queue), appending to the
queue the packet's stated length of bytes and waking the reader once; every other packet is
accepted and changes nothing.\<close>

theorem hook_verdict:
  assumes "route_on xs s" "skb_ok skb"
  shows "case hook_spec s skb of
           None \<Rightarrow> nf_handle_in s skb = Some (s, NF_ACCEPT)
         | Some p \<Rightarrow> \<exists>q'. nf_handle_in s skb =
               Some (s\<lparr>rs_queue := q', rs_wakeups := rs_wakeups s + 1\<rparr>, NF_DROP) \<and>
               queue_on xs q' \<and> q_contents q' = q_contents (rs_queue s) @ [p]"
proof (cases "hook_spec s skb")
  case None
  then show ?thesis using hook_none [OF assms None] by simp
next
  case (Some p)
  then show ?thesis using hook_some [OF assms Some] by fastforce
qed



text \<open>C17: the subnet ioctl. A request whose prefix is too long for its address family, or that
user memory cannot supply, is refused with \<open>-EINVAL\<close> and changes nothing; any other installs,
for its family only, a subnet that an address belongs to exactly when it agrees with the requested
address on the first \<open>prefix\<close> bits.\<close>

theorem ioctl_subnet:
  assumes "route_on xs s" "umem_ok umem"
  shows "case umem 18 of
           None \<Rightarrow> chr_ioctl umem XSKY_IOC_SET_UDP_PROXY_SUBNET s = Some (s, - EINVAL)
         | Some bs \<Rightarrow>
             if unat (bs ! 16) > (if bs ! 17 \<noteq> 0 then 128 else 32)
             then chr_ioctl umem XSKY_IOC_SET_UDP_PROXY_SUBNET s = Some (s, - EINVAL)
             else \<exists>t. chr_ioctl umem XSKY_IOC_SET_UDP_PROXY_SUBNET s = Some
                 ((if bs ! 17 \<noteq> 0 then s\<lparr>rs_subnet6 := t, rs_is_set_subnet6 := True\<rparr>
                   else s\<lparr>rs_subnet := t, rs_is_set_subnet := True\<rparr>), 0) \<and>
               (\<forall>ip. addr_len (bs ! 17) \<le> length ip \<longrightarrow> xsky_is_subnet t ip (if bs ! 17 \<noteq> 0 then 1 else 0) =
                 Some (\<forall>k < unat (bs ! 16). addr_bit ip k = addr_bit bs k))"
proof -
  have disp: "chr_ioctl umem XSKY_IOC_SET_UDP_PROXY_SUBNET s = xsky_set_udp_proxy_subnet umem s"
    by (simp add: chr_ioctl_def XSKY_IOC_SET_UDP_PROXY_SUBNET_def XSKY_IOC_MAGIC_def IOW_int_def IOC_TYPE_def)
  show ?thesis
  proof (cases "umem 18")
    case None
    then show ?thesis by (simp add: disp xsky_set_udp_proxy_subnet_def)
  next
    case (Some bs)
    have len: "length bs = 18" by (rule umem_ok_len [OF assms(2) Some])
    have arg: "subnet_arg_ok (subnet_of_bytes bs) \<longleftrightarrow> unat (bs ! 16) \<le> (if bs ! 17 \<noteq> 0 then 128 else 32)"
      by (simp add: subnet_arg_ok_def subnet_of_bytes_def)
    show ?thesis
    proof (cases "subnet_arg_ok (subnet_of_bytes bs)")
      case False
      then show ?thesis using set_subnet_bad [where umem = umem and bs = bs, OF Some False] arg Some by (simp add: disp)
    next
      case True
      let ?v = "if bs ! 17 \<noteq> 0 then 1 else 0 :: u8"
      obtain t where t: "xsky_set_udp_proxy_subnet umem s = Some
        ((if bs ! 17 \<noteq> 0 then s\<lparr>rs_subnet6 := t, rs_is_set_subnet6 := True\<rparr>
          else s\<lparr>rs_subnet := t, rs_is_set_subnet := True\<rparr>), 0)"
        "subnet_ok ?v t" "\<And>ip. in_subnet t ip \<longleftrightarrow> (\<forall>k < unat (bs ! 16). addr_bit ip k = addr_bit bs k)"
        using set_subnet_good [where umem = umem and bs = bs, OF Some len True assms(1)]
        by (metis subnet_of_bytes_def xsky_subnet.select_convs(3))
      have "addr_len ?v = addr_len (bs ! 17)" by (simp add: addr_len_def)
      then have "xsky_is_subnet t ip ?v = Some (\<forall>k < unat (bs ! 16). addr_bit ip k = addr_bit bs k)"
        if "addr_len (bs ! 17) \<le> length ip" for ip
        using is_subnet_ok [OF t(2), of ip] t(3) [of ip] that by simp
      then show ?thesis using t(1) True arg Some disp by auto
    qed
  qed
qed

text \<open>A jumbo IPv6 datagram is truncated. \<open>data_len\<close> is 16 bits wide, so a payload length
of 65496 or more wraps: when everything else about the packet makes the hook take it, the packet is
dropped from the forwarding path and only its first \<open>payload_len + 40 - 65536\<close> bytes are queued.\<close>

theorem ipv6_jumbo_truncated:
  assumes "route_on xs s" "hdr_ok hdr" "\<not> is_v4 hdr" "rs_flock_flag s" "wanted6 s hdr"
    and "length (q_contents (rs_queue s)) < QUEUE_SIZE"
    and "65496 \<le> unat (be16 (hdr ! 4) (hdr ! 5))"
  shows "\<exists>s'. nf_handle_in s (Some \<lparr>skb_network = Some hdr\<rparr>) = Some (s', NF_DROP) \<and>
           q_contents (rs_queue s') = q_contents (rs_queue s) @
             [take (unat (be16 (hdr ! 4) (hdr ! 5)) + 40 - 65536) hdr]"
proof -
  let ?w = "be16 (hdr ! 4) (hdr ! 5)"
  have lt: "unat ?w < 65536" using unsigned_less [of ?w, where ?'a = nat] by simp
  have up: "unat (ucast x :: u64) = unat x" for x :: u16
    using unsigned_less [of x, where ?'a = nat] by (simp add: unsigned_ucast_eq take_bit_nat_eq_self)
  have "unat (?w + 40) = (unat ?w + 40) mod 65536" by (simp add: unat_word_ariths)
  also have "\<dots> = unat ?w + 40 - 65536" using assms(7) lt by (simp add: mod_if)
  finally have n: "unat (ipv6_len hdr) = unat ?w + 40 - 65536"
    by (simp add: ipv6_len_def up)
  have "hook_spec s (Some \<lparr>skb_network = Some hdr\<rparr>) = Some (take (unat (ipv6_len hdr)) hdr)"
    using assms n lt by (simp add: hook_spec_def fits_def XSKY_MTU_def)
  then obtain q' where "nf_handle_in s (Some \<lparr>skb_network = Some hdr\<rparr>) =
      Some (s\<lparr>rs_queue := q', rs_wakeups := rs_wakeups s + 1\<rparr>, NF_DROP)"
    "q_contents q' = q_contents (rs_queue s) @ [take (unat ?w + 40 - 65536) hdr]"
    unfolding n
    by (rule hook_some [OF assms(1), rotated]) (use assms(2) in \<open>simp_all add: skb_ok_def\<close>)
  then show ?thesis by (intro exI conjI) (assumption, simp)
qed

text \<open>C18: registering the hook is all or nothing. Over distinct namespaces not hooked yet, it
returns 0 exactly when every namespace grants the hook or answers \<open>-ENOENT\<close>, and then exactly the
granting ones are hooked; otherwise it returns the error of a namespace and leaves none hooked.\<close>

theorem register_hook_atomic:
  assumes "distinct nets" "set nets \<inter> hooked = {}" "nf_register_hook reg nets hooked = (h, ret)"
  shows "if \<forall>net \<in> set nets. reg net \<in> {0, - ENOENT}
         then ret = 0 \<and> h = hooked \<union> {net \<in> set nets. reg net = 0}
         else ret \<notin> {0, - ENOENT} \<and> ret \<in> reg ` set nets \<and> h = hooked"
proof (cases "register_loop reg nets hooked")
  case (Pair h' res)
  note spec = register_loop_spec [OF Pair]
  show ?thesis
  proof (cases res)
    case None
    then show ?thesis using spec assms(3) by (simp add: nf_register_hook_def Pair)
  next
    case (Some x)
    obtain n r where x: "x = (n, r)" by (cases x)
    obtain pre post where pre: "nets = pre @ n # post" "h' = hooked \<union> {m \<in> set pre. reg m = 0}"
      "r = reg n" "r \<notin> {0, - ENOENT}"
      using spec Some x by auto
    have "n \<notin> set pre" using assms(1) pre(1) by auto
    then have "h = h' - set pre" "ret = r"
      using assms(3) Some x Pair rollback_loop_eq [of n pre post h'] pre(1)
      by (auto simp: nf_register_hook_def)
    moreover have "h' - set pre = hooked" using pre(2) assms(2) pre(1) by auto
    moreover have "n \<in> set nets" using pre(1) by simp
    ultimately show ?thesis using pre(3,4) by auto
  qed
qed

section \<open>The properties at a concrete state\<close>

text \<open>
  The module loaded with the allocator that answers its request numbers, one namespace that grants
  the hook, and the device open.
\<close>

definition loaded :: route_state where
  "loaded = (case xsky_init 0 False (\<lambda>_. 0) (\<lambda>_. 0) [1] Some of
     Some (Inr s) \<Rightarrow> fst (chr_open s) | _ \<Rightarrow> undefined)"

definition udp4 :: "byte list" where
  "udp4 = [0x45, 0, 0, 28, 0, 0, 0, 0, 64, 17, 0, 0, 10, 0, 0, 1, 8, 8, 8, 8, 7, 7, 7, 7, 7, 7, 7, 7]"

definition udp6 :: "byte list" where
  "udp6 = [0x60, 0, 0, 0, 0xff, 0xff, 17, 64] @ replicate 40 1"

lemma loaded_on:
  "route_on (map (\<lambda>k. k) [0..<QUEUE_SIZE]) loaded" "rs_flock_flag loaded"
  "\<not> rs_is_set_tunnel_addr loaded" "\<not> rs_is_set_tunnel_addr6 loaded"
  "rs_subnet loaded = zero_subnet" "rs_subnet6 loaded = zero_subnet" "q_contents (rs_queue loaded) = []"
proof -
  have Q: "0 < QUEUE_SIZE" "QUEUE_SIZE < 2 ^ 64" by (simp_all add: QUEUE_SIZE_def)
  obtain s where s: "xsky_init 0 False (\<lambda>_. 0) (\<lambda>_. 0) [1] Some = Some (Inr s)"
    "route_on (map (\<lambda>k. k) [0..<QUEUE_SIZE]) s" "\<not> rs_flock_flag s" "q_contents (rs_queue s) = []"
    using init_on [of Some "\<lambda>k. k" 0 "\<lambda>_. 0" "\<lambda>_. 0" "[1]"] by (metis inj_on_id2 order.refl)
  then have l: "loaded = s\<lparr>rs_flock_flag := True\<rparr>" by (simp add: loaded_def chr_open_def)
  have rest: "\<not> rs_is_set_tunnel_addr s" "\<not> rs_is_set_tunnel_addr6 s"
    "rs_subnet s = zero_subnet" "rs_subnet6 s = zero_subnet"
    using s(1) by (auto simp: xsky_init_def create_dev_def Let_def split: bind_splits)
  show "route_on (map (\<lambda>k. k) [0..<QUEUE_SIZE]) loaded" using open_on [OF s(2)] l s(3)
    by (simp add: chr_open_def)
  show "rs_flock_flag loaded" "\<not> rs_is_set_tunnel_addr loaded" "\<not> rs_is_set_tunnel_addr6 loaded"
    "rs_subnet loaded = zero_subnet" "rs_subnet6 loaded = zero_subnet" "q_contents (rs_queue loaded) = []"
    using rest s(4) unfolding l by simp_all
qed

lemma udp4_ok: "skb_ok (Some \<lparr>skb_network = Some udp4\<rparr>)" "udp4 ! 9 = 17" "is_v4 udp4"
  "unat (ipv4_len udp4) = 28"
  by (simp_all add: skb_ok_def hdr_ok_def is_v4_def ipv4_len_def be16_def udp4_def)

lemma udp6_ok: "hdr_ok udp6" "\<not> is_v4 udp6" "udp6 ! 6 = 17" "unat (be16 (udp6 ! 4) (udp6 ! 5)) = 65535"
  by (simp_all add: hdr_ok_def is_v4_def ipv6_len_def be16_def udp6_def nth_append)

lemma loaded_takes: "hook_spec loaded (Some \<lparr>skb_network = Some udp4\<rparr>) = Some udp4"
  using loaded_on udp4_ok
  by (simp add: hook_spec_def wanted4_def fits_def in_subnet_def zero_subnet_def XSKY_MTU_def QUEUE_SIZE_def)
     (simp add: udp4_def)

theorem hook_verdict_witness:
  "\<exists>q'. nf_handle_in loaded (Some \<lparr>skb_network = Some udp4\<rparr>) =
      Some (loaded\<lparr>rs_queue := q', rs_wakeups := rs_wakeups loaded + 1\<rparr>, NF_DROP) \<and>
      queue_on (map (\<lambda>k. k) [0..<QUEUE_SIZE]) q' \<and> q_contents q' = [udp4]"
  using hook_verdict [OF loaded_on(1) udp4_ok(1)] loaded_takes loaded_on(7) by simp


text \<open>A session of one packet.\<close>

lemma loaded_run:
  obtains u where "rrun loaded [(Ev_packet (Some \<lparr>skb_network = Some udp4\<rparr>), Verdict NF_DROP)] u"
proof -
  obtain s' where "nf_handle_in loaded (Some \<lparr>skb_network = Some udp4\<rparr>) = Some (s', NF_DROP)"
    using hook_some [OF loaded_on(1) udp4_ok(1) loaded_takes] by metis
  then have "rrun loaded ([] @ [(Ev_packet (Some \<lparr>skb_network = Some udp4\<rparr>), Verdict NF_DROP)]) s'"
    by (intro rrun_snoc [OF rrun_nil]) (simp_all add: udp4_ok)
  then show ?thesis using that by simp
qed


text \<open>The request \<open>10.1.2.3/8\<close>.\<close>

definition subnet_request :: "byte list" where
  "subnet_request = [10, 1, 2, 3, 0, 0, 0, 0, 0, 0, 0, 0, 0, 0, 0, 0, 8, 0]"

theorem ioctl_subnet_witness:
  "\<exists>t. chr_ioctl (\<lambda>n. if n = 18 then Some subnet_request else None) XSKY_IOC_SET_UDP_PROXY_SUBNET loaded =
      Some (loaded\<lparr>rs_subnet := t, rs_is_set_subnet := True\<rparr>, 0) \<and>
     xsky_is_subnet t [10, 9, 9, 9] 0 = Some True \<and> xsky_is_subnet t [11, 1, 2, 3] 0 = Some False"
proof -
  have ok: "umem_ok (\<lambda>n. if n = 18 then Some subnet_request else None)"
    by (auto simp: umem_ok_def subnet_request_def)
  have req: "subnet_request ! 16 = 8" "subnet_request ! 17 = 0" by (simp_all add: subnet_request_def)
  have bits: "(\<forall>k < 8. addr_bit [10, 9, 9, 9] k = addr_bit subnet_request k) = True"
    "(\<forall>k < 8. addr_bit [11, 1, 2, 3] k = addr_bit subnet_request k) = False"
    by code_simp+
  obtain u where u: "chr_ioctl (\<lambda>n. if n = 18 then Some subnet_request else None)
      XSKY_IOC_SET_UDP_PROXY_SUBNET loaded = Some (loaded\<lparr>rs_subnet := u, rs_is_set_subnet := True\<rparr>, 0)"
    "\<And>ip. 4 \<le> length ip \<Longrightarrow>
       xsky_is_subnet u ip 0 = Some (\<forall>k < 8. addr_bit ip k = addr_bit subnet_request k)"
    using ioctl_subnet [OF loaded_on(1) ok] by (auto simp: addr_len_def req)
  show ?thesis using u(1) u(2) [of "[10, 9, 9, 9]"] u(2) [of "[11, 1, 2, 3]"] bits by auto
qed

theorem ipv6_jumbo_truncated_witness:
  "\<exists>s'. nf_handle_in loaded (Some \<lparr>skb_network = Some udp6\<rparr>) = Some (s', NF_DROP) \<and>
     q_contents (rs_queue s') = [take 39 udp6]"
proof -
  have "wanted6 loaded udp6" using loaded_on udp6_ok
    by (simp add: wanted6_def in_subnet_def zero_subnet_def)
  then show ?thesis
    using ipv6_jumbo_truncated [OF loaded_on(1) udp6_ok(1,2) loaded_on(2)] loaded_on(7) udp6_ok(4)
    by (simp add: QUEUE_SIZE_def)
qed

theorem register_hook_atomic_witness:
  "nf_register_hook (\<lambda>n::nat. if n = 3 then - 12 else 0) [1, 2, 3, 4] {9} = ({9}, - 12)"
  using register_hook_atomic [of "[1, 2, 3, 4]" "{9}" "\<lambda>n::nat. if n = 3 then - 12 else 0"]
  by (cases "nf_register_hook (\<lambda>n::nat. if n = 3 then - 12 else 0) [1, 2, 3, 4] {9}")
     (auto simp: ENOENT_def)

end
