(* ===== verification/Nat_Table.thy ===== *)
theory Nat_Table
  imports Xsky_Prelude
begin

text \<open>
  The address translation table of the server kernel module (\<open>server/server.h\<close>,
  \<open>hash_route_sky\<close> to \<open>remove_route_sky\<close> of \<open>server/server.c\<close>): 1000 buckets, each a list of
  pages of 100 pairs. A connection is entered twice, from its source to its original destination
  and back.

  \<open>sky_data\<close> is a union of an IPv4 and an IPv6 record; it is modelled by its 20 bytes, and the
  fields of the IPv4 view are slices of them (port and address stay in network byte order). The hash
  runs over all 20 bytes, the comparisons only over the first 8. A pointer to a pair is a location
  (bucket, page, slot): \<open>remove_route_sky\<close> clears the very pair its pointer names and goes on
  reading through the pointer, and so does the model.

  The lemmas: the invariant that \<open>used\<close> counts the occupied slots and that insertion keeps it, the
  refinement of the lookup to the first match of the bucket, the laws of a map for insertion (the
  locale \<open>nat_map\<close>), and what removal does.
\<close>

section \<open>Data\<close>

definition SKY_DATA_PAIR_SIZE :: nat where "SKY_DATA_PAIR_SIZE = 100"
definition SKY_DATA_BUCKET_SIZE :: nat where "SKY_DATA_BUCKET_SIZE = 1000"
definition TCPOPT_V4_SKY :: byte where "TCPOPT_V4_SKY = 253"
definition TCPOLEN_V4_SKY :: byte where "TCPOLEN_V4_SKY = 8"
definition TCPOPT_V6_SKY :: byte where "TCPOPT_V6_SKY = 254"
definition TCPOLEN_V6_SKY :: byte where "TCPOLEN_V6_SKY = 20"

type_synonym sky_data = "byte list"

definition sky_data_size :: nat where "sky_data_size = 20"

text \<open>The IPv4 view of the union.\<close>

definition v4_code :: "sky_data \<Rightarrow> byte" where "v4_code d = d ! 0"
definition v4_size :: "sky_data \<Rightarrow> byte" where "v4_size d = d ! 1"
definition v4_port :: "sky_data \<Rightarrow> byte list" where "v4_port d = take 2 (drop 2 d)"
definition v4_addr :: "sky_data \<Rightarrow> byte list" where "v4_addr d = take 4 (drop 4 d)"

text \<open>Filling in the four fields of the IPv4 view leaves the other bytes of the union as they were.\<close>

definition set_v4 :: "byte list \<Rightarrow> byte list \<Rightarrow> sky_data \<Rightarrow> sky_data" where
  "set_v4 port addr d = [TCPOPT_V4_SKY, TCPOLEN_V4_SKY] @ port @ addr @ drop 8 d"

record sky_data_pair =
  pr_first :: sky_data
  pr_second :: sky_data

record sky_data_page =
  pg_used :: u64
  pg_pairs :: "sky_data_pair list"

type_synonym sky_routes = "sky_data_page list list"

definition zero_data :: sky_data where "zero_data = replicate sky_data_size 0"

definition zero_pair :: sky_data_pair where
  "zero_pair = \<lparr>pr_first = zero_data, pr_second = zero_data\<rparr>"

definition zero_page :: sky_data_page where
  "zero_page = \<lparr>pg_used = 0, pg_pairs = replicate SKY_DATA_PAIR_SIZE zero_pair\<rparr>"

section \<open>The operations\<close>

definition hash_route_sky :: "sky_data \<Rightarrow> u32" where
  "hash_route_sky d = fold (\<lambda>b val. (val XOR ucast b) * 16777619) d 2166136261"

definition bucket_of :: "sky_data \<Rightarrow> nat" where
  "bucket_of d = unat (hash_route_sky d mod of_nat SKY_DATA_BUCKET_SIZE)"

text \<open>One direction of an insertion: the free slot of a page, the page with room, a new page.\<close>

fun put_free :: "sky_data_pair \<Rightarrow> sky_data_pair list \<Rightarrow> sky_data_pair list option" where
  "put_free p [] = None"
| "put_free p (q # qs) =
     (if v4_code (pr_first q) = 0 then Some (p # qs) else map_option ((#) q) (put_free p qs))"

definition put_page :: "sky_data_pair \<Rightarrow> sky_data_page \<Rightarrow> sky_data_page" where
  "put_page p pg =
     (case put_free p (pg_pairs pg) of
        None \<Rightarrow> pg
      | Some qs \<Rightarrow> pg\<lparr>pg_pairs := qs, pg_used := pg_used pg + 1\<rparr>)"

fun put_pages :: "sky_data_pair \<Rightarrow> sky_data_page list \<Rightarrow> sky_data_page list option" where
  "put_pages p [] = None"
| "put_pages p (pg # pgs) =
     (if pg_used pg < of_nat SKY_DATA_PAIR_SIZE then Some (put_page p pg # pgs)
      else map_option ((#) pg) (put_pages p pgs))"

text \<open>\<open>vz\<close>: does \<open>vzalloc\<close> return a page, should one be needed? A null page is followed.\<close>

definition put_bucket :: "bool \<Rightarrow> sky_data_pair \<Rightarrow> sky_data_page list \<Rightarrow> sky_data_page list option" where
  "put_bucket vz p pgs =
     (case put_pages p pgs of
        Some pgs' \<Rightarrow> Some pgs'
      | None \<Rightarrow> if vz then Some (put_page p zero_page # pgs) else None)"

definition insert_route_sky :: "bool \<Rightarrow> bool \<Rightarrow> sky_data_pair \<Rightarrow> sky_routes \<Rightarrow> sky_routes option" where
  "insert_route_sky vz1 vz2 pair routes = do {
     let first_hash = bucket_of (pr_first pair);
     let second_hash = bucket_of (pr_second pair);
     pgs \<leftarrow> put_bucket vz1 pair (routes ! first_hash);
     let routes = routes[first_hash := pgs];
     pgs \<leftarrow> put_bucket vz2 \<lparr>pr_first = pr_second pair, pr_second = pr_first pair\<rparr> (routes ! second_hash);
     Some (routes[second_hash := pgs])
   }"

text \<open>The comparison of the lookups: the four IPv4 fields.\<close>

definition same_v4 :: "sky_data \<Rightarrow> sky_data \<Rightarrow> bool" where
  "same_v4 a b \<longleftrightarrow> v4_code a = v4_code b \<and> v4_size a = v4_size b \<and>
     v4_addr a = v4_addr b \<and> v4_port a = v4_port b"

fun find_slot :: "sky_data \<Rightarrow> sky_data_pair list \<Rightarrow> nat option" where
  "find_slot d [] = None"
| "find_slot d (q # qs) = (if same_v4 (pr_first q) d then Some 0 else map_option Suc (find_slot d qs))"

fun find_pages :: "sky_data \<Rightarrow> sky_data_page list \<Rightarrow> (nat \<times> nat) option" where
  "find_pages d [] = None"
| "find_pages d (pg # pgs) =
     (case find_slot d (pg_pairs pg) of
        Some i \<Rightarrow> Some (0, i)
      | None \<Rightarrow> map_option (apfst Suc) (find_pages d pgs))"

type_synonym sky_loc = "nat \<times> nat \<times> nat"

definition find_route_sky :: "sky_data \<Rightarrow> sky_routes \<Rightarrow> sky_loc option" where
  "find_route_sky d routes = map_option (Pair (bucket_of d)) (find_pages d (routes ! bucket_of d))"

fun pair_at :: "sky_routes \<Rightarrow> sky_loc \<Rightarrow> sky_data_pair" where
  "pair_at routes (b, k, i) = pg_pairs (routes ! b ! k) ! i"

text \<open>\<open>memset\<close> of one pair, and \<open>used--\<close>.\<close>

definition clear_slot :: "sky_loc \<Rightarrow> sky_routes \<Rightarrow> sky_routes" where
  "clear_slot loc routes =
     (case loc of (b, k, i) \<Rightarrow>
        routes[b := (routes ! b)[k := (routes ! b ! k)
          \<lparr>pg_pairs := (pg_pairs (routes ! b ! k))[i := zero_pair],
           pg_used := pg_used (routes ! b ! k) - 1\<rparr>]])"

text \<open>
  One of the two loops of \<open>remove_route_sky\<close>, over the pages \<open>ks\<close> of bucket \<open>b\<close>. The key is
  read through the pointer \<open>loc\<close> at every page; the slot index \<open>i\<close> is not reset between pages, so
  after a page without a match it is \<open>SKY_DATA_PAIR_SIZE\<close>.
\<close>

fun remove_pass :: "(sky_data_pair \<Rightarrow> sky_data) \<Rightarrow> sky_loc \<Rightarrow> nat \<Rightarrow> nat list \<Rightarrow> nat \<Rightarrow> sky_routes \<Rightarrow> sky_routes" where
  "remove_pass key loc b [] i routes = routes"
| "remove_pass key loc b (k # ks) i routes =
     (let pg = routes ! b ! k in
      if pg_used pg > 0 then
        (case find_slot (key (pair_at routes loc)) (drop i (pg_pairs pg)) of
           Some j \<Rightarrow> remove_pass key loc b ks (i + j) (clear_slot (b, k, i + j) routes)
         | None \<Rightarrow> remove_pass key loc b ks SKY_DATA_PAIR_SIZE routes)
      else remove_pass key loc b ks i routes)"

definition remove_route_sky :: "sky_data \<Rightarrow> sky_routes \<Rightarrow> sky_routes" where
  "remove_route_sky d routes =
     (case find_route_sky d routes of
        None \<Rightarrow> routes
      | Some loc \<Rightarrow>
          let first_hash = bucket_of (pr_first (pair_at routes loc));
              second_hash = bucket_of (pr_second (pair_at routes loc));
              routes = remove_pass pr_first loc first_hash [0..<length (routes ! first_hash)] 0 routes
          in remove_pass pr_second loc second_hash [0..<length (routes ! second_hash)] 0 routes)"

section \<open>The invariant\<close>

definition occupied :: "sky_data_pair \<Rightarrow> bool" where
  "occupied p \<longleftrightarrow> v4_code (pr_first p) \<noteq> 0"

definition page_ok :: "sky_data_page \<Rightarrow> bool" where
  "page_ok pg \<longleftrightarrow> length (pg_pairs pg) = SKY_DATA_PAIR_SIZE \<and>
     unat (pg_used pg) = length (filter occupied (pg_pairs pg))"

definition table_ok :: "sky_routes \<Rightarrow> bool" where
  "table_ok routes \<longleftrightarrow> length routes = SKY_DATA_BUCKET_SIZE \<and> (\<forall>pgs \<in> set routes. \<forall>pg \<in> set pgs. page_ok pg)"

text \<open>What a lookup sees: the pairs of the bucket, page after page.\<close>

definition bucket_pairs :: "sky_data_page list \<Rightarrow> sky_data_pair list" where
  "bucket_pairs pgs = concat (map pg_pairs pgs)"

definition lookup_route :: "sky_data \<Rightarrow> sky_routes \<Rightarrow> sky_data_pair option" where
  "lookup_route d routes = map_option (pair_at routes) (find_route_sky d routes)"

lemma bucket_lt: "bucket_of d < SKY_DATA_BUCKET_SIZE"
  by (simp add: bucket_of_def SKY_DATA_BUCKET_SIZE_def unat_mod)

lemma same_v4_simps: "same_v4 a a" "same_v4 a b \<Longrightarrow> same_v4 b a" "same_v4 a b \<Longrightarrow> same_v4 b c \<Longrightarrow> same_v4 a c"
  by (auto simp: same_v4_def)

lemma find_slot_find:
  "map_option ((!) qs) (find_slot d qs) = find (\<lambda>q. same_v4 (pr_first q) d) qs"
  by (induction qs) (auto simp: option.map_comp comp_def)

lemma find_slot_lt: "find_slot d qs = Some i \<Longrightarrow> i < length qs"
  by (induction qs arbitrary: i) (auto split: if_splits)

lemma find_slot_None: "find_slot d qs = None \<longleftrightarrow> find (\<lambda>q. same_v4 (pr_first q) d) qs = None"
  using find_slot_find [of qs d] by (metis option.map_disc_iff)

lemma find_append: "find P (xs @ ys) = (case find P xs of None \<Rightarrow> find P ys | Some x \<Rightarrow> Some x)"
  by (induction xs) auto

lemma find_pages_find:
  "map_option (\<lambda>(k, i). pg_pairs (pgs ! k) ! i) (find_pages d pgs) =
     find (\<lambda>q. same_v4 (pr_first q) d) (bucket_pairs pgs)"
proof (induction pgs)
  case (Cons pg pgs)
  show ?case
  proof (cases "find_slot d (pg_pairs pg)")
    case None
    then have "find (\<lambda>q. same_v4 (pr_first q) d) (pg_pairs pg) = None" by (simp add: find_slot_None)
    then have "find (\<lambda>q. same_v4 (pr_first q) d) (bucket_pairs (pg # pgs)) =
        find (\<lambda>q. same_v4 (pr_first q) d) (bucket_pairs pgs)"
      by (simp add: bucket_pairs_def find_append)
    with Cons.IH None show ?thesis by (auto simp: option.map_comp comp_def case_prod_unfold)
  next
    case (Some i)
    then have "find (\<lambda>q. same_v4 (pr_first q) d) (pg_pairs pg) = Some (pg_pairs pg ! i)"
      using find_slot_find [of "pg_pairs pg" d] by simp
    with Some show ?thesis by (simp add: bucket_pairs_def find_append)
  qed
qed (simp add: bucket_pairs_def)

lemma lookup_route_find:
  "lookup_route d routes = find (\<lambda>q. same_v4 (pr_first q) d) (bucket_pairs (routes ! bucket_of d))"
proof -
  have "pair_at routes \<circ> Pair (bucket_of d) = (\<lambda>(k, i). pg_pairs (routes ! bucket_of d ! k) ! i)"
    by (auto simp: fun_eq_iff)
  then show ?thesis
    using find_pages_find [of "routes ! bucket_of d" d]
    by (simp add: lookup_route_def find_route_sky_def option.map_comp)
qed

section \<open>Insertion\<close>

lemma put_free_Some:
  "filter occupied qs \<noteq> qs \<Longrightarrow> \<exists>qs'. put_free p qs = Some qs'"
  by (induction qs) (auto simp: occupied_def)

lemma put_free_split:
  assumes "put_free p qs = Some qs'"
  obtains as q bs where "qs = as @ q # bs" "qs' = as @ p # bs" "\<not> occupied q"
proof -
  have "\<exists>as q bs. qs = as @ q # bs \<and> qs' = as @ p # bs \<and> \<not> occupied q"
    using assms
  proof (induction qs arbitrary: qs')
    case (Cons x qs)
    show ?case
    proof (cases "v4_code (pr_first x) = 0")
      case True
      then have "x # qs = [] @ x # qs" "qs' = [] @ p # qs" "\<not> occupied x"
        using Cons.prems by (simp_all add: occupied_def)
      then show ?thesis by blast
    next
      case False
      then obtain q1 where q1: "put_free p qs = Some q1" "qs' = x # q1" using Cons.prems by auto
      obtain as q bs where "qs = as @ q # bs" "q1 = as @ p # bs" "\<not> occupied q"
        using Cons.IH [OF q1(1)] by blast
      then have "x # qs = (x # as) @ q # bs" "qs' = (x # as) @ p # bs" "\<not> occupied q"
        using q1(2) by simp_all
      then show ?thesis by blast
    qed
  qed simp
  then show ?thesis using that by blast
qed

lemma zero_page_ok: "page_ok zero_page"
  by (simp add: page_ok_def zero_page_def occupied_def zero_pair_def zero_data_def v4_code_def
      sky_data_size_def)

lemma put_page_split:
  assumes "page_ok pg" "pg_used pg < of_nat SKY_DATA_PAIR_SIZE" "occupied p"
  obtains as q bs where "pg_pairs pg = as @ q # bs" "pg_pairs (put_page p pg) = as @ p # bs"
    "\<not> occupied q" "page_ok (put_page p pg)"
proof -
  have lt: "unat (pg_used pg) < SKY_DATA_PAIR_SIZE"
    using assms(2) by (simp add: word_less_nat_alt SKY_DATA_PAIR_SIZE_def)
  then have "length (filter occupied (pg_pairs pg)) < length (pg_pairs pg)"
    using assms(1) by (simp add: page_ok_def)
  then have "filter occupied (pg_pairs pg) \<noteq> pg_pairs pg" by auto
  then obtain qs where qs: "put_free p (pg_pairs pg) = Some qs" using put_free_Some by blast
  obtain as q bs where sp: "pg_pairs pg = as @ q # bs" "qs = as @ p # bs" "\<not> occupied q"
    by (rule put_free_split [OF qs])
  have "unat (pg_used pg + 1) = Suc (unat (pg_used pg))" by (rule unat_inc_less [OF assms(2) [unfolded word_less_nat_alt]])
  then have "page_ok (put_page p pg)"
    using assms(1,3) sp qs by (simp add: page_ok_def put_page_def)
  then show ?thesis using that sp qs by (simp add: put_page_def)
qed

text \<open>
  The effect of one insertion on the lookups of a bucket, from the pairs before and after: a key the
  pair does not match finds what it found; one that matched nothing and is matched now finds the pair.
\<close>

definition first_match :: "sky_data \<Rightarrow> sky_data_pair list \<Rightarrow> sky_data_pair option" where
  "first_match d qs = find (\<lambda>q. same_v4 (pr_first q) d) qs"

definition adds :: "sky_data_pair \<Rightarrow> sky_data_pair list \<Rightarrow> sky_data_pair list \<Rightarrow> bool" where
  "adds p qs qs' \<longleftrightarrow> (\<forall>d. v4_code d \<noteq> 0 \<longrightarrow>
     (if same_v4 (pr_first p) d then first_match d qs = None \<longrightarrow> first_match d qs' = Some p
      else first_match d qs' = first_match d qs))"

lemma first_match_append:
  "first_match d (xs @ ys) = (case first_match d xs of None \<Rightarrow> first_match d ys | Some x \<Rightarrow> Some x)"
  unfolding first_match_def by (rule find_append)

lemma first_match_Cons:
  "first_match d (x # xs) = (if same_v4 (pr_first x) d then Some x else first_match d xs)"
  by (simp add: first_match_def)

lemma first_match_Nil: "first_match d [] = None" by (simp add: first_match_def)

lemma free_no_match: "\<not> occupied q \<Longrightarrow> v4_code d \<noteq> 0 \<Longrightarrow> \<not> same_v4 (pr_first q) d"
  by (auto simp: occupied_def same_v4_def)

lemma adds_split: "\<not> occupied q \<Longrightarrow> adds p (as @ q # bs) (as @ p # bs)"
  by (auto simp: adds_def first_match_append first_match_Cons free_no_match split: option.splits)

lemma adds_prefix: "adds p qs qs' \<Longrightarrow> adds p (xs @ qs) (xs @ qs')"
  by (auto simp: adds_def first_match_append split: option.splits)

lemma put_pages_adds:
  assumes "put_pages p pgs = Some pgs'" "\<forall>pg \<in> set pgs. page_ok pg" "occupied p"
  shows "adds p (bucket_pairs pgs) (bucket_pairs pgs')" "\<forall>pg \<in> set pgs'. page_ok pg"
proof -
  have "adds p (bucket_pairs pgs) (bucket_pairs pgs') \<and> (\<forall>pg \<in> set pgs'. page_ok pg)"
    using assms
  proof (induction pgs arbitrary: pgs')
    case (Cons pg pgs)
    show ?case
    proof (cases "pg_used pg < of_nat SKY_DATA_PAIR_SIZE")
      case True
      have "page_ok pg" using Cons.prems by simp
      obtain as q bs where sp: "pg_pairs pg = as @ q # bs" "pg_pairs (put_page p pg) = as @ p # bs"
        "\<not> occupied q" "page_ok (put_page p pg)"
        by (rule put_page_split [OF \<open>page_ok pg\<close> True Cons.prems(3)])
      then have "adds p (bucket_pairs (pg # pgs)) (bucket_pairs (put_page p pg # pgs))"
        using adds_split [OF sp(3), of p as "bs @ bucket_pairs pgs"] by (simp add: bucket_pairs_def)
      then show ?thesis using Cons.prems True sp(4) by auto
    next
      case False
      then obtain r where r: "put_pages p pgs = Some r" "pgs' = pg # r" using Cons.prems by auto
      then show ?thesis using Cons.IH [OF r(1)] Cons.prems(2,3) adds_prefix [of p _ _ "pg_pairs pg"]
        by (simp add: bucket_pairs_def)
    qed
  qed simp
  then show "adds p (bucket_pairs pgs) (bucket_pairs pgs')" "\<forall>pg \<in> set pgs'. page_ok pg" by simp_all
qed

lemma put_zero_page:
  "put_page p zero_page = \<lparr>pg_used = 1, pg_pairs = p # replicate 99 zero_pair\<rparr>"
proof -
  have "replicate SKY_DATA_PAIR_SIZE zero_pair = zero_pair # replicate 99 zero_pair"
    by (simp add: SKY_DATA_PAIR_SIZE_def flip: replicate_Suc)
  moreover have "\<not> occupied zero_pair"
    by (simp add: occupied_def zero_pair_def zero_data_def v4_code_def sky_data_size_def)
  ultimately show ?thesis by (simp add: put_page_def zero_page_def occupied_def)
qed

lemma zero_pair_free: "\<not> occupied zero_pair"
  by (simp add: occupied_def zero_pair_def zero_data_def v4_code_def sky_data_size_def)

lemma first_match_zeros: "v4_code d \<noteq> 0 \<Longrightarrow> first_match d (replicate n zero_pair @ qs) = first_match d qs"
  by (induction n) (simp_all add: first_match_Cons free_no_match zero_pair_free)

lemma put_bucket_adds:
  assumes "put_bucket vz p pgs = Some pgs'" "\<forall>pg \<in> set pgs. page_ok pg" "occupied p"
  shows "adds p (bucket_pairs pgs) (bucket_pairs pgs')" "\<forall>pg \<in> set pgs'. page_ok pg"
proof -
  have "adds p (bucket_pairs pgs) (bucket_pairs pgs') \<and> (\<forall>pg \<in> set pgs'. page_ok pg)"
  proof (cases "put_pages p pgs")
    case None
    then have pgs': "pgs' = put_page p zero_page # pgs"
      using assms(1) by (simp add: put_bucket_def split: if_splits)
    have "pg_used zero_page < of_nat SKY_DATA_PAIR_SIZE"
      by (simp add: zero_page_def SKY_DATA_PAIR_SIZE_def)
    then have "page_ok (put_page p zero_page)"
      using put_page_split [OF zero_page_ok _ assms(3)] by metis
    moreover have "adds p (bucket_pairs pgs) (bucket_pairs pgs')"
      by (simp add: adds_def pgs' put_zero_page bucket_pairs_def first_match_Cons first_match_zeros)
    ultimately show ?thesis using assms(2) pgs' by simp
  next
    case (Some r)
    then show ?thesis using assms put_pages_adds [OF Some] by (simp add: put_bucket_def)
  qed
  then show "adds p (bucket_pairs pgs) (bucket_pairs pgs')" "\<forall>pg \<in> set pgs'. page_ok pg" by simp_all
qed

lemma put_bucket_total: "\<exists>pgs'. put_bucket True p pgs = Some pgs'"
  by (cases "put_pages p pgs") (simp_all add: put_bucket_def)

lemma lookup_first_match: "lookup_route d routes = first_match d (bucket_pairs (routes ! bucket_of d))"
  by (simp add: lookup_route_find first_match_def)

text \<open>One direction, on the whole table.\<close>

lemma put_table:
  assumes "table_ok routes" "put_bucket vz p (routes ! bucket_of (pr_first p)) = Some pgs" "occupied p"
  defines "r \<equiv> routes[bucket_of (pr_first p) := pgs]"
  shows "table_ok r"
    and "v4_code d \<noteq> 0 \<Longrightarrow> \<not> same_v4 (pr_first p) d \<Longrightarrow> lookup_route d r = lookup_route d routes"
    and "v4_code d \<noteq> 0 \<Longrightarrow> bucket_of d \<noteq> bucket_of (pr_first p) \<Longrightarrow> lookup_route d r = lookup_route d routes"
    and "lookup_route (pr_first p) routes = None \<Longrightarrow> lookup_route (pr_first p) r = Some p"
proof -
  let ?b = "bucket_of (pr_first p)"
  have len: "length routes = SKY_DATA_BUCKET_SIZE" "?b < length routes"
    using assms(1) bucket_lt by (simp_all add: table_ok_def)
  have ok: "\<forall>pg \<in> set (routes ! ?b). page_ok pg" using assms(1) len(2) nth_mem by (fastforce simp: table_ok_def)
  have a: "adds p (bucket_pairs (routes ! ?b)) (bucket_pairs pgs)" "\<forall>pg \<in> set pgs. page_ok pg"
    using put_bucket_adds [OF assms(2) ok assms(3)] by simp_all
  show "table_ok r" using assms(1) a(2) len
    by (auto simp: r_def table_ok_def dest!: subsetD [OF set_update_subset_insert])
  show "lookup_route d r = lookup_route d routes" if "v4_code d \<noteq> 0" "\<not> same_v4 (pr_first p) d"
    using a(1) that len by (cases "bucket_of d = ?b") (simp_all add: lookup_first_match r_def adds_def)
  show "lookup_route d r = lookup_route d routes" if "v4_code d \<noteq> 0" "bucket_of d \<noteq> ?b"
    using that by (simp add: lookup_first_match r_def)
  show "lookup_route (pr_first p) r = Some p" if "lookup_route (pr_first p) routes = None"
    using a(1) that len assms(3) by (simp add: lookup_first_match r_def adds_def same_v4_simps(1) occupied_def)
qed

lemma insert_total: "\<exists>routes'. insert_route_sky True True p routes = Some routes'"
proof -
  obtain p1 where 1: "put_bucket True p (routes ! bucket_of (pr_first p)) = Some p1"
    using put_bucket_total by blast
  obtain p2 where "put_bucket True \<lparr>pr_first = pr_second p, pr_second = pr_first p\<rparr>
      (routes[bucket_of (pr_first p) := p1] ! bucket_of (pr_second p)) = Some p2"
    using put_bucket_total by blast
  with 1 show ?thesis by (simp add: insert_route_sky_def Let_def)
qed

lemma insert_table:
  assumes "table_ok routes" "insert_route_sky vz1 vz2 \<lparr>pr_first = f, pr_second = s\<rparr> routes = Some routes'"
    and "v4_code f \<noteq> 0" "v4_code s \<noteq> 0" "\<not> same_v4 f s"
  shows "table_ok routes'"
    and "v4_code d \<noteq> 0 \<Longrightarrow> \<not> same_v4 f d \<Longrightarrow> \<not> same_v4 s d \<Longrightarrow> lookup_route d routes' = lookup_route d routes"
    and "lookup_route f routes = None \<Longrightarrow> lookup_route f routes' = Some \<lparr>pr_first = f, pr_second = s\<rparr>"
    and "lookup_route s routes = None \<Longrightarrow> lookup_route s routes' = Some \<lparr>pr_first = s, pr_second = f\<rparr>"
proof -
  obtain p1 p2 where st: "put_bucket vz1 \<lparr>pr_first = f, pr_second = s\<rparr> (routes ! bucket_of f) = Some p1"
    "put_bucket vz2 \<lparr>pr_first = s, pr_second = f\<rparr> (routes[bucket_of f := p1] ! bucket_of s) = Some p2"
    "routes' = routes[bucket_of f := p1, bucket_of s := p2]"
    using assms(2) by (auto simp: insert_route_sky_def Let_def split: bind_splits)
  have oc: "occupied \<lparr>pr_first = f, pr_second = s\<rparr>" "occupied \<lparr>pr_first = s, pr_second = f\<rparr>"
    using assms(3,4) by (simp_all add: occupied_def)
  note 1 = put_table [where p = "\<lparr>pr_first = f, pr_second = s\<rparr>", simplified, OF assms(1) st(1) oc(1)]
  note 2 = put_table [where p = "\<lparr>pr_first = s, pr_second = f\<rparr>", simplified, OF 1(1) st(2) oc(2), folded st(3)]
  have ns: "\<not> same_v4 s f" using assms(5) same_v4_simps by blast
  show "table_ok routes'" by (rule 2(1))
  show "lookup_route d routes' = lookup_route d routes"
    if "v4_code d \<noteq> 0" "\<not> same_v4 f d" "\<not> same_v4 s d"
    using 1(2) 2(2) that by simp
  show "lookup_route f routes' = Some \<lparr>pr_first = f, pr_second = s\<rparr>" if "lookup_route f routes = None"
    using 1(4) 2(2) [OF assms(3) ns] that by simp
  show "lookup_route s routes' = Some \<lparr>pr_first = s, pr_second = f\<rparr>" if "lookup_route s routes = None"
    using 2(4) 1(2) [OF assms(4,5)] that by simp
qed

section \<open>The table as a two-way map\<close>

text \<open>
  The contract the hook of the server relies on: \<open>put f s\<close> enters a connection in both directions
  and \<open>get\<close> finds an entry by either end.
\<close>

fun put_all :: "('k \<Rightarrow> 'k \<Rightarrow> 't \<Rightarrow> 't option) \<Rightarrow> ('k \<times> 'k) list \<Rightarrow> 't \<Rightarrow> 't option" where
  "put_all put [] t = Some t"
| "put_all put ((f, s) # cs) t = Option.bind (put f s t) (put_all put cs)"

fun ends :: "('k \<times> 'k) list \<Rightarrow> 'k list" where
  "ends [] = []"
| "ends ((f, s) # cs) = f # s # ends cs"

fun apart :: "('k \<Rightarrow> 'k \<Rightarrow> bool) \<Rightarrow> 'k list \<Rightarrow> bool" where
  "apart same [] \<longleftrightarrow> True"
| "apart same (k # ks) \<longleftrightarrow> (\<forall>x \<in> set ks. \<not> same k x \<and> \<not> same x k) \<and> apart same ks"

locale nat_map =
  fixes ok :: "'t \<Rightarrow> bool" and valid :: "'k \<Rightarrow> bool" and same :: "'k \<Rightarrow> 'k \<Rightarrow> bool"
    and put :: "'k \<Rightarrow> 'k \<Rightarrow> 't \<Rightarrow> 't option" and get :: "'k \<Rightarrow> 't \<Rightarrow> 'v option" and entry :: "'k \<Rightarrow> 'k \<Rightarrow> 'v"
  assumes put_total: "\<exists>t'. put f s t = Some t'"
    and put_ok: "ok t \<Longrightarrow> valid f \<Longrightarrow> valid s \<Longrightarrow> \<not> same f s \<Longrightarrow> put f s t = Some t' \<Longrightarrow> ok t'"
    and get_other: "ok t \<Longrightarrow> valid f \<Longrightarrow> valid s \<Longrightarrow> \<not> same f s \<Longrightarrow> put f s t = Some t' \<Longrightarrow>
      valid d \<Longrightarrow> \<not> same f d \<Longrightarrow> \<not> same s d \<Longrightarrow> get d t' = get d t"
    and get_first: "ok t \<Longrightarrow> valid f \<Longrightarrow> valid s \<Longrightarrow> \<not> same f s \<Longrightarrow> put f s t = Some t' \<Longrightarrow>
      get f t = None \<Longrightarrow> get f t' = Some (entry f s)"
    and get_second: "ok t \<Longrightarrow> valid f \<Longrightarrow> valid s \<Longrightarrow> \<not> same f s \<Longrightarrow> put f s t = Some t' \<Longrightarrow>
      get s t = None \<Longrightarrow> get s t' = Some (entry s f)"
begin

lemma put_all_total: "\<exists>t'. put_all put cs t = Some t'"
proof (induction cs arbitrary: t)
  case (Cons c cs)
  obtain f s where c: "c = (f, s)" by (cases c)
  obtain t1 where "put f s t = Some t1" using put_total by blast
  then show ?case using Cons.IH [of t1] c by simp
qed simp

lemma put_all_get:
  assumes "put_all put cs t = Some t'" "ok t" "\<forall>k \<in> set (ends cs). valid k \<and> get k t = None"
    and "apart same (ends cs)"
  shows "ok t' \<and> (\<forall>(f, s) \<in> set cs. get f t' = Some (entry f s) \<and> get s t' = Some (entry s f)) \<and>
    (\<forall>d. valid d \<longrightarrow> (\<forall>k \<in> set (ends cs). \<not> same k d) \<longrightarrow> get d t' = get d t)"
  using assms
proof (induction cs arbitrary: t)
  case (Cons c cs)
  obtain f s where c: "c = (f, s)" by (cases c)
  obtain t1 where t1: "put f s t = Some t1" "put_all put cs t1 = Some t'"
    using Cons.prems(1) c by (auto split: bind_splits)
  have fs: "valid f" "valid s" "\<not> same f s" "get f t = None" "get s t = None"
    using Cons.prems(3,4) c by auto
  note laws = put_ok [OF Cons.prems(2) fs(1-3) t1(1)] get_other [OF Cons.prems(2) fs(1-3) t1(1)]
  have rest: "\<forall>k \<in> set (ends cs). valid k \<and> \<not> same f k \<and> \<not> same s k \<and> \<not> same k f \<and> \<not> same k s \<and> get k t = None"
    using Cons.prems(3,4) c by auto
  then have "\<forall>k \<in> set (ends cs). valid k \<and> get k t1 = None" using laws(2) by simp
  with Cons.IH [OF t1(2) laws(1)] Cons.prems(4) c
  have IH: "ok t'" "\<forall>(f, s) \<in> set cs. get f t' = Some (entry f s) \<and> get s t' = Some (entry s f)"
    "\<forall>d. valid d \<longrightarrow> (\<forall>k \<in> set (ends cs). \<not> same k d) \<longrightarrow> get d t' = get d t1"
    by simp_all
  have "get f t' = Some (entry f s)" "get s t' = Some (entry s f)"
    using IH(3) fs rest get_first [OF Cons.prems(2) fs(1-3) t1(1)] get_second [OF Cons.prems(2) fs(1-3) t1(1)]
    by auto
  then show ?case using IH c laws(2) by auto
qed simp

end

definition put_connection :: "sky_data \<Rightarrow> sky_data \<Rightarrow> sky_routes \<Rightarrow> sky_routes option" where
  "put_connection f s routes = insert_route_sky True True \<lparr>pr_first = f, pr_second = s\<rparr> routes"

definition key_ok :: "sky_data \<Rightarrow> bool" where "key_ok d \<longleftrightarrow> v4_code d \<noteq> 0"

interpretation nat_table: nat_map table_ok key_ok same_v4 put_connection lookup_route "\<lambda>f s. \<lparr>pr_first = f, pr_second = s\<rparr>"
proof
  fix f s d t t'
  show "\<exists>t'. put_connection f s t = Some t'"
    using insert_total by (simp add: put_connection_def)
  assume *: "table_ok t" "key_ok f" "key_ok s" "\<not> same_v4 f s" "put_connection f s t = Some t'"
  note I = insert_table [OF *(1) *(5) [unfolded put_connection_def] *(2,3) [unfolded key_ok_def] *(4)]
  show "table_ok t'" by (rule I(1))
  show "lookup_route d t' = lookup_route d t" if "key_ok d" "\<not> same_v4 f d" "\<not> same_v4 s d"
    using I(2) that by (simp add: key_ok_def)
  show "lookup_route f t' = Some \<lparr>pr_first = f, pr_second = s\<rparr>" if "lookup_route f t = None"
    using I(3) that by simp
  show "lookup_route s t' = Some \<lparr>pr_first = s, pr_second = f\<rparr>" if "lookup_route s t = None"
    using I(4) that by simp
qed

text \<open>The table that \<open>sky_init\<close> allocates: 1000 buckets without a page.\<close>

definition empty_routes :: sky_routes where
  "empty_routes = replicate SKY_DATA_BUCKET_SIZE []"

lemma empty_ok: "table_ok empty_routes" "lookup_route d empty_routes = None"
  using bucket_lt [of d]
  by (auto simp: empty_routes_def table_ok_def lookup_first_match bucket_pairs_def first_match_Nil)

section \<open>Removal\<close>

definition sized :: "sky_routes \<Rightarrow> bool" where
  "sized routes \<longleftrightarrow> length routes = SKY_DATA_BUCKET_SIZE \<and>
     (\<forall>b < SKY_DATA_BUCKET_SIZE. \<forall>k < length (routes ! b). length (pg_pairs (routes ! b ! k)) = SKY_DATA_PAIR_SIZE)"

fun loc_in :: "sky_loc \<Rightarrow> sky_routes \<Rightarrow> bool" where
  "loc_in (b, k, i) routes \<longleftrightarrow> b < SKY_DATA_BUCKET_SIZE \<and> k < length (routes ! b) \<and> i < SKY_DATA_PAIR_SIZE"

lemma table_sized: "table_ok routes \<Longrightarrow> sized routes"
  unfolding table_ok_def sized_def page_ok_def by (metis nth_mem)

lemma clear_sized:
  assumes "sized r" "loc_in (b, k, i) r"
  shows "sized (clear_slot (b, k, i) r)" "length (clear_slot (b, k, i) r ! c) = length (r ! c)"
proof -
  have b: "b < length r" using assms by (simp add: sized_def)
  have "length (pg_pairs (clear_slot (b, k, i) r ! c ! j)) = SKY_DATA_PAIR_SIZE"
    if "c < SKY_DATA_BUCKET_SIZE" "j < length (r ! c)" for c j
    using assms that b by (cases "c = b"; cases "j = k") (auto simp: clear_slot_def sized_def)
  moreover show len: "length (clear_slot (b, k, i) r ! c) = length (r ! c)" for c
    using b by (cases "c = b") (simp_all add: clear_slot_def)
  ultimately show "sized (clear_slot (b, k, i) r)"
    using assms(1) by (simp add: sized_def) (simp add: clear_slot_def)
qed

lemma clear_pair:
  assumes "sized r" "loc_in (b, k, i) r" "loc_in l r"
  shows "pair_at (clear_slot (b, k, i) r) l = (if l = (b, k, i) then zero_pair else pair_at r l)"
proof -
  obtain b' k' i' where l: "l = (b', k', i')" by (cases l)
  show ?thesis using assms
    by (cases "b' = b"; cases "k' = k"; cases "i' = i") (auto simp: l clear_slot_def sized_def)
qed

lemma clear_lookup:
  assumes "sized r" "loc_in (b, k, i) r" "\<not> same_v4 (pr_first (pair_at r (b, k, i))) d" "v4_code d \<noteq> 0"
  shows "lookup_route d (clear_slot (b, k, i) r) = lookup_route d r"
proof (cases "bucket_of d = b")
  case True
  let ?pgs = "r ! b" let ?pg = "?pgs ! k" let ?ps = "pg_pairs ?pg"
  have k: "k < length ?pgs" "i < length ?ps" "b < length r" using assms(1,2) by (auto simp: sized_def)
  have ps: "?ps = take i ?ps @ ?ps ! i # drop (Suc i) ?ps" "?ps[i := zero_pair] = take i ?ps @ zero_pair # drop (Suc i) ?ps"
    using k by (simp_all add: id_take_nth_drop upd_conv_take_nth_drop)
  have "first_match d (take i ?ps @ zero_pair # drop (Suc i) ?ps) = first_match d (take i ?ps @ ?ps ! i # drop (Suc i) ?ps)"
    using assms(3,4) by (simp add: first_match_append first_match_Cons free_no_match zero_pair_free split: option.split)
  then have "first_match d (?ps[i := zero_pair]) = first_match d ?ps" using ps by simp
  moreover have "?pgs = take k ?pgs @ ?pg # drop (Suc k) ?pgs" using k by (simp add: id_take_nth_drop)
  then have "bucket_pairs ?pgs = bucket_pairs (take k ?pgs) @ ?ps @ bucket_pairs (drop (Suc k) ?pgs)"
    unfolding bucket_pairs_def by (metis concat.simps(2) concat_append list.simps(9) map_append)
  moreover have "bucket_pairs (clear_slot (b, k, i) r ! b) =
      bucket_pairs (take k ?pgs) @ ?ps[i := zero_pair] @ bucket_pairs (drop (Suc k) ?pgs)"
    using k upd_conv_take_nth_drop [OF k(1)] by (simp add: clear_slot_def bucket_pairs_def)
  ultimately show ?thesis using True by (simp add: lookup_first_match first_match_append split: option.split)
next
  case False
  then show ?thesis by (simp add: lookup_first_match clear_slot_def)
qed

lemma zero_key: "key zero_pair = zero_data \<Longrightarrow> v4_code d \<noteq> 0 \<Longrightarrow> \<not> same_v4 (key zero_pair) d"
  by (auto simp: same_v4_def zero_data_def v4_code_def sky_data_size_def)

lemma find_slot_same: "find_slot d qs = Some i \<Longrightarrow> same_v4 (pr_first (qs ! i)) d"
  by (induction qs arbitrary: i) (auto split: if_splits)

text \<open>A pass forgets nothing but pairs that match the key it started with.\<close>

text \<open>Clearing one slot with the key of \<open>loc\<close> does not change what other keys find.\<close>

lemma cleared_lookup:
  assumes "sized r" "loc_in at r" "loc_in loc r" "key zero_pair = zero_data" "same_v4 (pr_first (pair_at r at)) (key (pair_at r loc))"
    and "\<forall>d. v4_code d \<noteq> 0 \<longrightarrow> \<not> same_v4 (key (pair_at (clear_slot at r) loc)) d \<longrightarrow> lookup_route d r' = lookup_route d (clear_slot at r)"
    and "v4_code d \<noteq> 0" "\<not> same_v4 (key (pair_at r loc)) d"
  shows "lookup_route d r' = lookup_route d r"
proof -
  obtain b k i where at: "at = (b, k, i)" by (cases at)
  have "\<not> same_v4 (key (pair_at (clear_slot at r) loc)) d"
    using clear_pair [OF assms(1) assms(2) [unfolded at] assms(3), folded at] assms(8) zero_key [of key d] assms(4,7) by simp
  moreover have "\<not> same_v4 (pr_first (pair_at r at)) d" using assms(5,8) same_v4_simps(2,3) by blast
  ultimately show ?thesis using assms(6,7) clear_lookup [OF assms(1) assms(2) [unfolded at], folded at] by simp
qed

lemma remove_pass_keeps:
  assumes "sized r" "b < SKY_DATA_BUCKET_SIZE" "\<forall>k \<in> set ks. k < length (r ! b)" "loc_in loc r"
    and "i \<le> SKY_DATA_PAIR_SIZE" "key zero_pair = zero_data"
  shows "sized (remove_pass key loc b ks i r) \<and> (\<forall>c. length (remove_pass key loc b ks i r ! c) = length (r ! c)) \<and>
    (pair_at r loc = zero_pair \<longrightarrow> pair_at (remove_pass key loc b ks i r) loc = zero_pair) \<and>
    (\<forall>d. v4_code d \<noteq> 0 \<longrightarrow> \<not> same_v4 (key (pair_at r loc)) d \<longrightarrow>
       lookup_route d (remove_pass key loc b ks i r) = lookup_route d r)"
  using assms
proof (induction key loc b ks i r rule: remove_pass.induct)
  case (2 key loc b k ks i r)
  let ?pg = "r ! b ! k"
  have k: "k < length (r ! b)" "length (pg_pairs ?pg) = SKY_DATA_PAIR_SIZE"
    using 2(4,5,6) by (auto simp: sized_def)
  show ?case
  proof (cases "pg_used ?pg > 0")
    case False
    then show ?thesis using 2(3) [OF refl False] 2(4-9) by (simp add: Let_def)
  next
    case used: True
    show ?thesis
    proof (cases "find_slot (key (pair_at r loc)) (drop i (pg_pairs ?pg))")
      case None
      then have "remove_pass key loc b (k # ks) i r = remove_pass key loc b ks SKY_DATA_PAIR_SIZE r"
        using used by (simp add: Let_def)
      then show ?thesis using 2(1) [OF refl used None] 2(4-9) by simp
    next
      case (Some j)
      let ?r = "clear_slot (b, k, i + j) r"
      have j: "i + j < SKY_DATA_PAIR_SIZE" using find_slot_lt [OF Some] k 2(8) by simp
      then have inl: "loc_in (b, k, i + j) r" using k 2(5) by simp
      have sm: "same_v4 (pr_first (pair_at r (b, k, i + j))) (key (pair_at r loc))"
        using find_slot_same [OF Some] k 2(8) by simp
      note cl = clear_sized [OF 2(4) inl]
      have pa: "pair_at ?r loc = (if loc = (b, k, i + j) then zero_pair else pair_at r loc)"
        by (rule clear_pair [OF 2(4) inl 2(7)])
      have "loc_in loc ?r" using 2(7) cl(2) by (cases loc) simp
      then have IH: "sized (remove_pass key loc b ks (i + j) ?r) \<and>
        (\<forall>c. length (remove_pass key loc b ks (i + j) ?r ! c) = length (?r ! c)) \<and>
        (pair_at ?r loc = zero_pair \<longrightarrow> pair_at (remove_pass key loc b ks (i + j) ?r) loc = zero_pair) \<and>
        (\<forall>d. v4_code d \<noteq> 0 \<longrightarrow> \<not> same_v4 (key (pair_at ?r loc)) d \<longrightarrow>
           lookup_route d (remove_pass key loc b ks (i + j) ?r) = lookup_route d ?r)"
        using 2(2) [OF refl used Some] 2(5,6,9) cl j by simp
      have eq: "remove_pass key loc b (k # ks) i r = remove_pass key loc b ks (i + j) ?r"
        using used Some by (simp add: Let_def)
      have "lookup_route d (remove_pass key loc b ks (i + j) ?r) = lookup_route d r"
        if "v4_code d \<noteq> 0" "\<not> same_v4 (key (pair_at r loc)) d" for d
        by (rule cleared_lookup [OF 2(4) inl 2(7,9) sm _ that]) (use IH in blast)
      then show ?thesis unfolding eq using IH cl(2) pa by simp
    qed
  qed
qed simp

lemma find_pages_lt:
  "find_pages d pgs = Some (k, i) \<Longrightarrow> k < length pgs \<and> i < length (pg_pairs (pgs ! k)) \<and>
     same_v4 (pr_first (pg_pairs (pgs ! k) ! i)) d"
proof (induction pgs arbitrary: k)
  case (Cons pg pgs)
  show ?case
  proof (cases "find_slot d (pg_pairs pg)")
    case None
    then show ?thesis using Cons by (auto simp: apfst_def map_prod_def)
  next
    case (Some j)
    then show ?thesis using Cons.prems find_slot_lt [OF Some] find_slot_same [OF Some] by auto
  qed
qed simp

lemma find_route_loc:
  assumes "sized r" "find_route_sky d r = Some loc"
  shows "loc_in loc r" "same_v4 (pr_first (pair_at r loc)) d" "fst loc = bucket_of d"
proof -
  obtain k i where ki: "find_pages d (r ! bucket_of d) = Some (k, i)" "loc = (bucket_of d, k, i)"
    using assms(2) by (auto simp: find_route_sky_def)
  from find_pages_lt [OF ki(1)] bucket_lt [of d] assms(1) show "loc_in loc r" "same_v4 (pr_first (pair_at r loc)) d" "fst loc = bucket_of d"
    by (auto simp: ki(2) sized_def)
qed

lemma find_slot_cong: "same_v4 d d' \<Longrightarrow> find_slot d qs = find_slot d' qs"
  by (induction qs) (auto simp: same_v4_def)

text \<open>
  When the pair found lies in the first page of its bucket, the first pass clears it, and the
  second pass reads a zeroed key.
\<close>

lemma remove_first_pass:
  assumes "table_ok r" "find_route_sky d r = Some (b, 0, i)" "v4_code d \<noteq> 0"
  defines "r1 \<equiv> remove_pass pr_first (b, 0, i) b [0..<length (r ! b)] 0 r"
  shows "pair_at r1 (b, 0, i) = zero_pair" "sized r1" "\<And>c. length (r1 ! c) = length (r ! c)"
    "\<And>k. v4_code k \<noteq> 0 \<Longrightarrow> \<not> same_v4 k d \<Longrightarrow> lookup_route k r1 = lookup_route k r"
proof -
  note sz = table_sized [OF assms(1)]
  note loc = find_route_loc [OF sz assms(2)]
  let ?pg = "r ! b ! 0" and ?d = "pr_first (pair_at r (b, 0, i))"
  obtain pgs where fp: "find_pages d (r ! b) = Some (0, i)" using assms(2) loc(3)
    by (auto simp: find_route_sky_def)
  then obtain pg rest where rb: "r ! b = pg # rest" by (cases "r ! b") auto
  have fs: "find_slot d (pg_pairs pg) = Some i"
    using fp rb by (cases "find_slot d (pg_pairs pg)") (auto simp: apfst_def map_prod_def)
  have "b < length r" using loc(1) sz by (simp add: sized_def)
  then have rm: "r ! b \<in> set r" by (rule nth_mem)
  have "pg \<in> set (r ! b)" using rb by simp
  with rm have ok: "page_ok pg" using assms(1) by (auto simp: table_ok_def)
  have "occupied (pg_pairs pg ! i)" "i < length (pg_pairs pg)"
    using find_slot_same [OF fs] find_slot_lt [OF fs] assms(3) by (auto simp: occupied_def same_v4_def)
  then have "filter occupied (pg_pairs pg) \<noteq> []" by (auto simp: filter_empty_conv)
  then have used: "pg_used pg > 0" using ok by (simp add: page_ok_def word_greater_zero_iff) (metis length_0_conv unat_0)
  let ?c = "clear_slot (b, 0, i) r"
  have "[0..<length (r ! b)] = 0 # [1..<length (r ! b)]" using rb by (simp add: upt_rec)
  moreover have "find_slot ?d (drop 0 (pg_pairs ?pg)) = Some i"
    using fs find_slot_cong [OF loc(2)] rb by simp
  ultimately have eq: "r1 = remove_pass pr_first (b, 0, i) b [1..<length (r ! b)] i ?c"
    using used rb by (simp add: r1_def)
  note cl = clear_sized [OF sz loc(1)]
  have cp: "pair_at ?c (b, 0, i) = zero_pair" using clear_pair [OF sz loc(1) loc(1)] by simp
  have z: "pr_first zero_pair = zero_data" by (simp add: zero_pair_def)
  have bl: "b < SKY_DATA_BUCKET_SIZE" "i \<le> SKY_DATA_PAIR_SIZE" "loc_in (b, 0, i) ?c" using loc(1) cl(2) by auto
  have "\<forall>k \<in> set [1..<length (r ! b)]. k < length (?c ! b)" using cl(2) by simp
  note K = remove_pass_keeps [where key = pr_first, OF cl(1) bl(1) this bl(3,2) z, folded eq]
  show "pair_at r1 (b, 0, i) = zero_pair" "sized r1" using K cp by blast+
  show "length (r1 ! c) = length (r ! c)" for c using K cl(2) by simp
  show "lookup_route k r1 = lookup_route k r" if k: "v4_code k \<noteq> 0" "\<not> same_v4 k d" for k
  proof -
    have "\<not> same_v4 (pr_first zero_pair) k" using zero_key [of pr_first k] z k(1) by simp
    moreover have "\<not> same_v4 ?d k" using loc(2) k(2) same_v4_simps(2,3) by blast
    ultimately show ?thesis using K cp k(1) clear_lookup [OF sz loc(1)] by simp
  qed
qed

lemma remove_pass_other: "c \<noteq> b \<Longrightarrow> remove_pass key loc b ks i r ! c = r ! c"
  by (induction key loc b ks i r rule: remove_pass.induct)
     (auto simp: Let_def clear_slot_def split: option.split)

lemma find_slot_found: "q \<in> set qs \<Longrightarrow> same_v4 (pr_first q) d \<Longrightarrow> \<exists>i. find_slot d qs = Some i"
  by (induction qs) auto

section \<open>Properties\<close>

text \<open>C6: the translation table. Starting from the empty table of \<open>sky_init\<close>, entering any
connections whose ends are pairwise different (the allocations succeed) always returns, keeps every
page's \<open>used\<close> equal to its number of occupied slots, and afterwards each connection is found from
either end with the other end as its translation, while any other key finds nothing.\<close>

theorem routes_of_connections:
  assumes "apart same_v4 (ends cs)" "\<forall>k \<in> set (ends cs). v4_code k \<noteq> 0"
  shows "\<exists>routes. put_all put_connection cs empty_routes = Some routes \<and> table_ok routes \<and>
    (\<forall>(f, s) \<in> set cs. lookup_route f routes = Some \<lparr>pr_first = f, pr_second = s\<rparr> \<and>
       lookup_route s routes = Some \<lparr>pr_first = s, pr_second = f\<rparr>) \<and>
    (\<forall>d. v4_code d \<noteq> 0 \<longrightarrow> (\<forall>k \<in> set (ends cs). \<not> same_v4 k d) \<longrightarrow> lookup_route d routes = None)"
proof -
  obtain routes where r: "put_all put_connection cs empty_routes = Some routes"
    using nat_table.put_all_total by blast
  have "\<forall>k \<in> set (ends cs). key_ok k \<and> lookup_route k empty_routes = None"
    using assms(2) empty_ok by (simp add: key_ok_def)
  from nat_table.put_all_get [OF r empty_ok(1) this assms(1)] r show ?thesis
    by (simp add: key_ok_def empty_ok(2))
qed

text \<open>Removing a connection forgets one direction only. When the pair found for \<open>d\<close> is in the
first page of its bucket, \<open>remove_route_sky\<close> zeroes that pair, but every other key still finds
what it found: in particular the other end of the connection still finds its entry, although the
second loop of the function is there to remove it.\<close>

theorem remove_one_direction:
  assumes "table_ok routes" "find_route_sky d routes = Some (b, 0, i)" "v4_code d \<noteq> 0"
    and "bucket_of (pr_first (pair_at routes (b, 0, i))) = b"
  shows "pair_at (remove_route_sky d routes) (b, 0, i) = zero_pair \<and>
    (\<forall>k. v4_code k \<noteq> 0 \<longrightarrow> \<not> same_v4 k d \<longrightarrow>
       lookup_route k (remove_route_sky d routes) = lookup_route k routes)"
proof -
  let ?loc = "(b, 0, i) :: sky_loc"
  let ?s = "bucket_of (pr_second (pair_at routes ?loc))"
  let ?r = "remove_pass pr_first ?loc b [0..<length (routes ! b)] 0 routes"
  note P = remove_first_pass [OF assms(1-3)]
  have eq: "remove_route_sky d routes = remove_pass pr_second ?loc ?s [0..<length (?r ! ?s)] 0 ?r"
    unfolding remove_route_sky_def assms(2) option.case Let_def assms(4) ..
  have "loc_in ?loc ?r" using find_route_loc(1) [OF table_sized [OF assms(1)] assms(2)] P(3) by simp
  moreover have z: "pr_second zero_pair = zero_data" by (simp add: zero_pair_def)
  moreover have "\<forall>k \<in> set [0..<length (?r ! ?s)]. k < length (?r ! ?s)" by simp
  ultimately have K: "pair_at (remove_route_sky d routes) ?loc = zero_pair"
    "\<And>k. v4_code k \<noteq> 0 \<Longrightarrow> \<not> same_v4 (pr_second zero_pair) k \<Longrightarrow>
       lookup_route k (remove_route_sky d routes) = lookup_route k ?r"
    using remove_pass_keeps [where key = pr_second and loc = ?loc and i = 0, OF P(2) bucket_lt] P(1)
    unfolding eq by simp_all
  show ?thesis using K P(4) zero_key [of pr_second] z by simp
qed

text \<open>Removal breaks the count of the other end's page. When the other end's bucket is a
different one, of a single page with a free slot, \<open>remove_route_sky\<close> leaves all pairs of that page
in place and yet decrements its \<open>used\<close>: the count is one below the number of occupied slots.\<close>

theorem remove_undercounts:
  assumes "table_ok routes" "find_route_sky d routes = Some (b, 0, i)" "v4_code d \<noteq> 0"
    and "bucket_of (pr_first (pair_at routes (b, 0, i))) = b"
    and "bucket_of (pr_second (pair_at routes (b, 0, i))) = c" "c \<noteq> b" "routes ! c = [pg]" "pg_used pg > 0"
    and "zero_pair \<in> set (pg_pairs pg)" "\<forall>p \<in> set (pg_pairs pg). \<not> occupied p \<longrightarrow> p = zero_pair"
  shows "remove_route_sky d routes ! c = [pg\<lparr>pg_used := pg_used pg - 1\<rparr>] \<and>
    \<not> table_ok (remove_route_sky d routes)"
proof -
  let ?loc = "(b, 0, i) :: sky_loc"
  let ?r = "remove_pass pr_first ?loc b [0..<length (routes ! b)] 0 routes"
  note P = remove_first_pass [OF assms(1-3)]
  have rc: "?r ! c = [pg]" using remove_pass_other [OF assms(6)] assms(7) by simp
  have cl: "c < SKY_DATA_BUCKET_SIZE" using bucket_lt assms(5) by auto
  have "length ?r = SKY_DATA_BUCKET_SIZE" using P(2) by (simp add: sized_def)
  then have clr: "c < length ?r" using cl by simp
  obtain j where j: "find_slot zero_data (pg_pairs pg) = Some j"
    using find_slot_found [OF assms(9)] by (metis sky_data_pair.select_convs(1) same_v4_simps(1) zero_pair_def)
  have "\<not> occupied (pg_pairs pg ! j)"
    using find_slot_same [OF j]
    by (simp add: occupied_def same_v4_def) (simp add: v4_code_def zero_data_def sky_data_size_def)
  then have "pg_pairs pg ! j = zero_pair" using assms(10) find_slot_lt [OF j] by simp
  then have same: "(pg_pairs pg)[j := zero_pair] = pg_pairs pg" by (metis list_update_id)
  have "remove_route_sky d routes = remove_pass pr_second ?loc c [0..<length (?r ! c)] 0 ?r"
    unfolding remove_route_sky_def assms(2) option.case Let_def assms(4,5) ..
  also have "\<dots> = clear_slot (c, 0, j) ?r"
    using rc P(1) j assms(8) by (simp add: Let_def zero_pair_def)
  finally have "remove_route_sky d routes ! c = [pg\<lparr>pg_used := pg_used pg - 1\<rparr>]"
    using rc clr same by (simp add: clear_slot_def)
  moreover have "page_ok pg" using assms(1,7) cl unfolding table_ok_def
    by (metis list.set_intros(1) nth_mem)
  then have "\<not> page_ok (pg\<lparr>pg_used := pg_used pg - 1\<rparr>)"
  proof -
    have "pg_used pg \<noteq> 0" using assms(8) by auto
    then have "unat (pg_used pg) \<noteq> 0" by (simp add: unat_eq_zero)
    then have "unat (pg_used pg - 1) \<noteq> unat (pg_used pg)"
      using unat_dec_pos [OF \<open>pg_used pg \<noteq> 0\<close>] by linarith
    then show ?thesis using \<open>page_ok pg\<close> by (simp add: page_ok_def)
  qed
  ultimately show ?thesis using cl
    by (auto simp: table_ok_def) (metis in_set_conv_nth list.set_intros(1))
qed

section \<open>A connection from 10.0.0.1:5000 to 8.8.8.8:443\<close>

definition client_end :: sky_data where
  "client_end = set_v4 [0x13, 0x88] [10, 0, 0, 1] zero_data"

definition remote_end :: sky_data where
  "remote_end = set_v4 [0x01, 0xbb] [8, 8, 8, 8] zero_data"

lemma ends_data:
  "client_end = [253, 8, 0x13, 0x88, 10, 0, 0, 1, 0, 0, 0, 0, 0, 0, 0, 0, 0, 0, 0, 0]"
  "remote_end = [253, 8, 0x01, 0xbb, 8, 8, 8, 8, 0, 0, 0, 0, 0, 0, 0, 0, 0, 0, 0, 0]"
  by (simp_all add: client_end_def remote_end_def set_v4_def zero_data_def sky_data_size_def
      TCPOPT_V4_SKY_def TCPOLEN_V4_SKY_def numeral_eq_Suc)

lemma ends_differ: "\<not> same_v4 client_end remote_end" "\<not> same_v4 remote_end client_end"
  "v4_code client_end \<noteq> 0" "v4_code remote_end \<noteq> 0"
  by (simp_all add: ends_data same_v4_def v4_code_def v4_size_def v4_addr_def v4_port_def)

lemma ends_bucket: "bucket_of client_end = 486" "bucket_of remote_end = 776"
  by (simp_all add: ends_data bucket_of_def hash_route_sky_def SKY_DATA_BUCKET_SIZE_def)

definition one_connection :: sky_routes where
  "one_connection = empty_routes
     [486 := [put_page \<lparr>pr_first = client_end, pr_second = remote_end\<rparr> zero_page],
      776 := [put_page \<lparr>pr_first = remote_end, pr_second = client_end\<rparr> zero_page]]"

lemma one_connection_put: "put_connection client_end remote_end empty_routes = Some one_connection"
  by (simp add: put_connection_def insert_route_sky_def ends_bucket put_bucket_def one_connection_def
      empty_routes_def SKY_DATA_BUCKET_SIZE_def Let_def)

lemma one_connection_ok: "table_ok one_connection"
  by (rule nat_table.put_ok [OF empty_ok(1) _ _ ends_differ(1) one_connection_put])
     (simp_all add: key_ok_def ends_differ)

lemma one_connection_find:
  "find_route_sky client_end one_connection = Some (486, 0, 0)"
  "pr_first (pair_at one_connection (486, 0, 0)) = client_end"
  "lookup_route remote_end one_connection = Some \<lparr>pr_first = remote_end, pr_second = client_end\<rparr>"
  by (simp_all add: find_route_sky_def lookup_route_def ends_bucket one_connection_def empty_routes_def
      SKY_DATA_BUCKET_SIZE_def put_zero_page same_v4_simps(1))

theorem routes_of_connections_witness:
  "\<exists>routes. put_all put_connection [(client_end, remote_end)] empty_routes = Some routes \<and>
     table_ok routes \<and>
     lookup_route client_end routes = Some \<lparr>pr_first = client_end, pr_second = remote_end\<rparr> \<and>
     lookup_route remote_end routes = Some \<lparr>pr_first = remote_end, pr_second = client_end\<rparr>"
  using routes_of_connections [of "[(client_end, remote_end)]"] ends_differ by auto

theorem remove_one_direction_witness:
  "pair_at (remove_route_sky client_end one_connection) (486, 0, 0) = zero_pair \<and>
   lookup_route remote_end (remove_route_sky client_end one_connection) =
     Some \<lparr>pr_first = remote_end, pr_second = client_end\<rparr>"
  using remove_one_direction [OF one_connection_ok one_connection_find(1) ends_differ(3)]
    ends_differ one_connection_find(2,3) ends_bucket(1)
  by simp

theorem remove_undercounts_witness:
  "\<not> table_ok (remove_route_sky client_end one_connection)"
proof -
  let ?pg = "put_page \<lparr>pr_first = remote_end, pr_second = client_end\<rparr> zero_page"
  have "one_connection ! 776 = [?pg]"
    by (simp add: one_connection_def empty_routes_def SKY_DATA_BUCKET_SIZE_def)
  moreover have "pair_at one_connection (486, 0, 0) = \<lparr>pr_first = client_end, pr_second = remote_end\<rparr>"
    by (simp add: one_connection_def empty_routes_def SKY_DATA_BUCKET_SIZE_def put_zero_page)
  moreover have "\<forall>p \<in> set (pg_pairs ?pg). \<not> occupied p \<longrightarrow> p = zero_pair" "zero_pair \<in> set (pg_pairs ?pg)"
    "pg_used ?pg > 0"
    by (simp_all add: put_zero_page occupied_def ends_differ)
  ultimately show ?thesis
    using remove_undercounts [OF one_connection_ok one_connection_find(1) ends_differ(3)] ends_bucket by simp
qed

end
