(* ===== verification/Toa_Option.thy ===== *)
theory Toa_Option
  imports Nat_Table
begin

text \<open>
  Packets and the TCP option of the server module (\<open>set_toa_data_sky\<close>, \<open>get_toa_data_sky\<close> and
  \<open>xor_data_sky\<close> of \<open>server/server.c\<close>).

  \<open>sky_skb\<close> is a socket buffer: its memory from head to end, and the offsets of the data, of the
  network header and of the transport header. As in the kernel, \<open>skb_push\<close> moves the data only, not
  the header offsets. Every access outside the memory is \<open>None\<close>. \<open>memcpy\<close> to a lower address
  copies forwards, as the kernel's does, also where the two ranges overlap.

  The lemmas: the slices of a buffer after a write, the option parser on every option list, the
  bytes that the payload masking touches and that masking twice restores them.
\<close>

section \<open>Socket buffers\<close>

record sky_skb =
  sb_mem :: "byte list"
  sb_data :: nat
  sb_len :: nat
  sb_nh :: nat \<comment> \<open>network header\<close>
  sb_th :: nat \<comment> \<open>transport header\<close>
  sb_nonlinear :: bool
  sb_csum_hw :: bool \<comment> \<open>\<open>ip_summed == CHECKSUM_HW\<close>\<close>
  sb_csum :: nat

definition put_bytes :: "byte list \<Rightarrow> nat \<Rightarrow> byte list \<Rightarrow> byte list option" where
  "put_bytes mem off bs =
     (if off + length bs \<le> length mem then Some (take off mem @ bs @ drop (off + length bs) mem) else None)"

definition slice :: "byte list \<Rightarrow> nat \<Rightarrow> nat \<Rightarrow> byte list" where
  "slice mem off n = take n (drop off mem)"

lemma put_bytes_Some [xsky_mem]:
  "off + length bs \<le> length mem \<Longrightarrow> put_bytes mem off bs = Some (take off mem @ bs @ drop (off + length bs) mem)"
  by (simp add: put_bytes_def)

lemma put_bytes_length: "put_bytes mem off bs = Some mem' \<Longrightarrow> length mem' = length mem"
  by (auto simp: put_bytes_def split: if_splits)

lemma put_bytes_nth:
  assumes "put_bytes mem off bs = Some mem'" "k < length mem"
  shows "mem' ! k = (if off \<le> k \<and> k < off + length bs then bs ! (k - off) else mem ! k)"
  using assms by (auto simp: put_bytes_def nth_append min_def split: if_splits)

lemma slice_nth: "off + n \<le> length mem \<Longrightarrow> k < n \<Longrightarrow> slice mem off n ! k = mem ! (off + k)"
  by (simp add: slice_def)

lemma slice_length: "off + n \<le> length mem \<Longrightarrow> length (slice mem off n) = n"
  by (simp add: slice_def)

lemma slice_put_same: "put_bytes mem off bs = Some mem' \<Longrightarrow> slice mem' off (length bs) = bs"
  by (auto simp: put_bytes_def slice_def split: if_splits)

lemma slice_eqI:
  assumes "length mem = length mem'" "off + n \<le> length mem" "\<And>k. k < n \<Longrightarrow> mem ! (off + k) = mem' ! (off + k)"
  shows "slice mem off n = slice mem' off n"
  using assms by (intro nth_equalityI) (simp_all add: slice_nth slice_length)

lemma slice_put_other:
  assumes "put_bytes mem off bs = Some mem'" "p + n \<le> length mem" "p + n \<le> off \<or> off + length bs \<le> p"
  shows "slice mem' p n = slice mem p n"
proof (rule slice_eqI)
  show "length mem' = length mem" by (rule put_bytes_length [OF assms(1)])
  then show "p + n \<le> length mem'" using assms(2) by simp
  show "mem' ! (p + k) = mem ! (p + k)" if "k < n" for k
    using put_bytes_nth [OF assms(1), of "p + k"] assms(2,3) that by auto
qed

text \<open>Header fields. Lengths are in bytes.\<close>

definition ip_ihl :: "sky_skb \<Rightarrow> nat option" where
  "ip_ihl sb = do { b \<leftarrow> byte_at (sb_mem sb) (sb_nh sb); Some (4 * unat (b AND 15)) }"

definition tcp_doff :: "sky_skb \<Rightarrow> nat option" where
  "tcp_doff sb = do { b \<leftarrow> byte_at (sb_mem sb) (sb_th sb + 12); Some (4 * unat (drop_bit 4 b)) }"

definition set_ihl :: "nat \<Rightarrow> sky_skb \<Rightarrow> sky_skb option" where
  "set_ihl n sb = do {
     b \<leftarrow> byte_at (sb_mem sb) (sb_nh sb);
     mem \<leftarrow> put_bytes (sb_mem sb) (sb_nh sb) [(b AND 0xf0) OR (of_nat n AND 15)];
     Some (sb\<lparr>sb_mem := mem\<rparr>)
   }"

definition set_doff :: "nat \<Rightarrow> sky_skb \<Rightarrow> sky_skb option" where
  "set_doff n sb = do {
     b \<leftarrow> byte_at (sb_mem sb) (sb_th sb + 12);
     mem \<leftarrow> put_bytes (sb_mem sb) (sb_th sb + 12) [(b AND 15) OR push_bit 4 (of_nat n)];
     Some (sb\<lparr>sb_mem := mem\<rparr>)
   }"

definition skb_push :: "sky_skb \<Rightarrow> nat \<Rightarrow> sky_skb option" where
  "skb_push sb n = (if n \<le> sb_data sb then Some (sb\<lparr>sb_data := sb_data sb - n, sb_len := sb_len sb + n\<rparr>) else None)"

text \<open>\<open>memcpy\<close> inside the buffer; a negative length is a huge \<open>size_t\<close>.\<close>

definition copy_down :: "byte list \<Rightarrow> nat \<Rightarrow> nat \<Rightarrow> int \<Rightarrow> byte list option" where
  "copy_down mem dst src n =
     (if n < 0 then None
      else do { bs \<leftarrow> bytes_at mem src (nat n); put_bytes mem dst bs })"

section \<open>Writing the option\<close>

text \<open>
  \<open>frame\<close> is the memory at the address of the local pointer variable \<open>toa\<close>: the source copies from
  \<open>&toa\<close>, not from \<open>toa\<close>.
\<close>

definition set_toa_data_sky :: "byte list \<Rightarrow> sky_skb \<Rightarrow> sky_data \<Rightarrow> sky_skb option" where
  "set_toa_data_sky frame sb toa = do {
     ihead_len \<leftarrow> ip_ihl sb;
     thead_len \<leftarrow> tcp_doff sb;
     let opt_len = int thead_len - 20;
     let data_len = int (sb_len sb) - int ihead_len - int thead_len;
     let n = (if v4_code toa = TCPOPT_V4_SKY then 8 else 20);
     sb \<leftarrow> skb_push sb n;
     let data = sb_data sb;
     let p = data + n;
     mem \<leftarrow> copy_down (sb_mem sb) data p (int ihead_len);
     let data = data + ihead_len;
     let p = p + ihead_len;
     mem \<leftarrow> copy_down mem data p 20;
     let data = data + 20;
     let p = p + 20;
     bs \<leftarrow> bytes_at frame 0 n;
     mem \<leftarrow> put_bytes mem data bs;
     let data = data + n;
     mem \<leftarrow> copy_down mem data p opt_len;
     let data = data + nat opt_len;
     let p = p + nat opt_len;
     mem \<leftarrow> copy_down mem data p data_len;
     sb \<leftarrow> set_ihl ((ihead_len + n) div 4) (sb\<lparr>sb_mem := mem\<rparr>);
     set_doff ((thead_len + n) div 4) sb
   }"

section \<open>Reading the option\<close>

text \<open>
  The loop of \<open>get_toa_data_sky\<close>: \<open>rest\<close> is the memory from \<open>ptr\<close> on, \<open>len\<close> the option bytes left,
  \<open>pdata\<close> the union to fill. The result is \<open>None\<close> for a read past the memory, \<open>Some None\<close> for a
  null result.
\<close>

function toa_loop :: "nat \<Rightarrow> byte list \<Rightarrow> sky_data \<Rightarrow> sky_data option option" where
  "toa_loop len rest pdata =
     (if len = 0 then Some None
      else case rest of [] \<Rightarrow> None
      | opcode # rest \<Rightarrow>
        if opcode = 0 then Some None
        else if opcode = 1 then toa_loop (len - 1) rest pdata
        else case rest of [] \<Rightarrow> None
        | opsize # rest \<Rightarrow>
          if opsize < 2 then Some None
          else if unat opsize > len then Some None
          else if opcode = TCPOPT_V4_SKY \<and> opsize = TCPOLEN_V4_SKY then do {
            bs \<leftarrow> bytes_at rest 0 6;
            pdata \<leftarrow> memcpy pdata (opcode # opsize # bs) 8;
            Some (Some pdata)
          } else if opcode = TCPOPT_V6_SKY \<and> opsize = TCPOLEN_V6_SKY then do {
            bs \<leftarrow> bytes_at rest 0 18;
            pdata \<leftarrow> memcpy pdata (opcode # opsize # bs) 20;
            Some (Some pdata)
          } else toa_loop (len - unat opsize) (drop (unat opsize - 2) rest) pdata)"
  by pat_completeness auto
termination
  by (relation "measure (\<lambda>(len, rest, pdata). len)") (auto simp: word_less_nat_alt word_le_nat_alt not_less)

declare toa_loop.simps [simp del]

text \<open>
  \<open>skb_header_pointer\<close> looks up an offset from \<open>skb->data\<close> (the buffers here are linear); it fails
  when the range is not in the packet. \<open>pdata\<close> is null or the caller's union, \<open>fresh\<close> what
  \<open>kmalloc\<close> returns.
\<close>

definition get_toa_data_sky :: "sky_data \<Rightarrow> sky_skb \<Rightarrow> sky_data option \<Rightarrow> sky_data option option" where
  "get_toa_data_sky fresh sb pdata = do {
     thead_len \<leftarrow> tcp_doff sb;
     let n = int thead_len - 20;
     if n \<le> 0 then Some None
     else if int (sb_len sb) - 20 < n then Some None
     else toa_loop (nat n) (drop (sb_data sb + 20) (sb_mem sb)) (case pdata of None \<Rightarrow> fresh | Some d \<Rightarrow> d)
   }"

section \<open>Masking the payload\<close>

text \<open>\<open>*(int *)p ^= n\<close> on a little-endian machine.\<close>

definition xor_int :: "byte list \<Rightarrow> nat \<Rightarrow> u32 \<Rightarrow> byte list option" where
  "xor_int mem off n = do {
     bs \<leftarrow> bytes_at mem off 4;
     put_bytes mem off (map2 (XOR) bs (le32_bytes n))
   }"

text \<open>The loop; \<open>i\<close> starts at 1, so the guard \<open>0 < i\<close> always holds.\<close>

function xor_loop :: "nat \<Rightarrow> nat \<Rightarrow> nat \<Rightarrow> byte list \<Rightarrow> byte list option" where
  "xor_loop p n i mem =
     (if 0 < i \<and> i < n then do {
        mem \<leftarrow> xor_int mem (p + i) (of_nat n);
        xor_loop p n (8 * i) mem
      } else Some mem)"
  by pat_completeness auto
termination
  by (relation "measure (\<lambda>(p, n, i, mem). n - i)") auto

declare xor_loop.simps [simp del]

definition xor_data_sky :: "byte list \<Rightarrow> nat \<Rightarrow> int \<Rightarrow> byte list option" where
  "xor_data_sky mem p n = xor_loop p (nat n) 1 mem"

section \<open>The parser\<close>

text \<open>TCP options other than the module's own, and their encoding.\<close>

datatype tcp_option = Nop | Option (opt_kind: byte) (opt_body: "byte list")

fun encode_option :: "tcp_option \<Rightarrow> byte list" where
  "encode_option Nop = [1]"
| "encode_option (Option k body) = k # of_nat (length body + 2) # body"

definition encode_options :: "tcp_option list \<Rightarrow> byte list" where
  "encode_options os = concat (map encode_option os)"

fun other_option :: "tcp_option \<Rightarrow> bool" where
  "other_option Nop \<longleftrightarrow> True"
| "other_option (Option k body) \<longleftrightarrow> k \<noteq> 0 \<and> k \<noteq> 1 \<and> length body + 2 < 256 \<and>
     \<not> (k = TCPOPT_V4_SKY \<and> length body = 6) \<and> \<not> (k = TCPOPT_V6_SKY \<and> length body = 18)"

text \<open>The module's option: the first 8 or 20 bytes of the union.\<close>

definition sky_option :: "byte list \<Rightarrow> bool" where
  "sky_option d \<longleftrightarrow> (length d = 8 \<and> d ! 0 = TCPOPT_V4_SKY \<and> d ! 1 = TCPOLEN_V4_SKY) \<or>
     (length d = 20 \<and> d ! 0 = TCPOPT_V6_SKY \<and> d ! 1 = TCPOLEN_V6_SKY)"

lemma unat_opsize: "n < 256 \<Longrightarrow> unat (of_nat n :: byte) = n"
  by (simp add: take_bit_nat_eq_self unat_of_nat)

lemma toa_loop_skip_one:
  assumes "other_option opt"
  shows "toa_loop (length (encode_option opt) + m) (encode_option opt @ rest) pdata = toa_loop m rest pdata"
proof (cases opt)
  case Nop
  then show ?thesis by (subst toa_loop.simps) simp
next
  case (Option k body)
  let ?n = "of_nat (length body + 2) :: byte"
  have n: "unat ?n = length body + 2" using assms Option by (intro unat_opsize) auto
  then have "\<not> ?n < 2" by (simp add: word_less_nat_alt)
  moreover have "?n \<noteq> TCPOLEN_V4_SKY \<or> k \<noteq> TCPOPT_V4_SKY"
    using n assms Option by (auto simp: TCPOLEN_V4_SKY_def dest: arg_cong [where f = unat])
  moreover have "?n \<noteq> TCPOLEN_V6_SKY \<or> k \<noteq> TCPOPT_V6_SKY"
    using n assms Option by (auto simp: TCPOLEN_V6_SKY_def dest: arg_cong [where f = unat])
  ultimately show ?thesis using assms n Option by (subst toa_loop.simps) auto
qed

lemma toa_loop_skip:
  "list_all other_option os \<Longrightarrow>
     toa_loop (length (encode_options os) + m) (encode_options os @ rest) pdata = toa_loop m rest pdata"
proof (induction os)
  case (Cons opt os)
  then show ?case
    using toa_loop_skip_one [of opt "length (encode_options os) + m" "encode_options os @ rest" pdata]
    by (simp add: encode_options_def add.assoc)
qed (simp add: encode_options_def)

lemma toa_loop_hit:
  assumes "sky_option d" "length pdata = sky_data_size"
  shows "toa_loop (length d + m) (d @ rest) pdata = Some (Some (d @ drop (length d) pdata))"
proof -
  obtain a b body where d: "d = a # b # body"
    using assms(1) by (auto simp: sky_option_def numeral_eq_Suc length_Suc_conv)
  show ?thesis
    using assms by (subst toa_loop.simps)
      (auto simp: d sky_option_def bytes_at_def memcpy_def sky_data_size_def
        TCPOPT_V4_SKY_def TCPOLEN_V4_SKY_def TCPOPT_V6_SKY_def TCPOLEN_V6_SKY_def)
qed

lemma toa_loop_zero: "toa_loop 0 rest pdata = Some None"
  by (subst toa_loop.simps) simp

lemma toa_loop_reads:
  "len < length rest \<Longrightarrow> length pdata = sky_data_size \<Longrightarrow> toa_loop len rest pdata \<noteq> None"
proof (induction len rest pdata rule: toa_loop.induct)
  case (1 len rest pdata)
  show ?case
  proof (cases "len = 0")
    case False
    obtain opcode r where r: "rest = opcode # r" using 1(3) by (cases rest) auto
    show ?thesis
    proof (cases "opcode = 0 \<or> opcode = 1")
      case True
      then show ?thesis using 1(1) [OF False r] 1(3,4) False r by (subst toa_loop.simps) auto
    next
      case op: False
      obtain opsize r' where r': "r = opsize # r'" using 1(3) r False by (cases r) auto
      show ?thesis
      proof (cases "opsize < 2 \<or> unat opsize > len")
        case True
        then show ?thesis using False r r' op by (subst toa_loop.simps) auto
      next
        case os: False
        then have n: "2 \<le> unat opsize" "unat opsize \<le> len" by (auto simp: word_less_nat_alt)
        show ?thesis
        proof (cases "(opcode = TCPOPT_V4_SKY \<and> opsize = TCPOLEN_V4_SKY) \<or> (opcode = TCPOPT_V6_SKY \<and> opsize = TCPOLEN_V6_SKY)")
          case True
          then show ?thesis using False r r' op os n 1(3,4)
            by (subst toa_loop.simps)
               (auto simp: bytes_at_def memcpy_def sky_data_size_def TCPOLEN_V4_SKY_def TCPOLEN_V6_SKY_def
                 TCPOPT_V4_SKY_def TCPOPT_V6_SKY_def)
        next
          case nhit: False
          have "len - unat opsize < length (drop (unat opsize - 2) r')" using 1(3) r r' n by simp
          then have "toa_loop (len - unat opsize) (drop (unat opsize - 2) r') pdata \<noteq> None"
            using 1(2) [OF False r _ _ r'] op os nhit 1(4) by auto
          moreover have "toa_loop len rest pdata = toa_loop (len - unat opsize) (drop (unat opsize - 2) r') pdata"
            using False r r' op os nhit by (subst toa_loop.simps) auto
          ultimately show ?thesis by simp
        qed
      qed
    qed
  qed (simp add: toa_loop_zero)
qed

section \<open>Masking\<close>

text \<open>The mask the loop lays over the byte at offset \<open>j\<close> of the payload.\<close>

function xor_mask :: "nat \<Rightarrow> nat \<Rightarrow> nat \<Rightarrow> byte" where
  "xor_mask n i j =
     (if 0 < i \<and> i < n
      then (if i \<le> j \<and> j < i + 4 then le32_bytes (of_nat n) ! (j - i) else 0) XOR xor_mask n (8 * i) j
      else 0)"
  by pat_completeness auto
termination
  by (relation "measure (\<lambda>(n, i, j). n - i)") auto

declare xor_mask.simps [simp del]

lemma le32_length [simp]: "length (le32_bytes n) = 4"
  by (simp add: le32_bytes_def)

lemma xor_int_nth:
  assumes "xor_int mem off n = Some mem'" "k < length mem"
  shows "mem' ! k = (if off \<le> k \<and> k < off + 4 then mem ! k XOR le32_bytes n ! (k - off) else mem ! k)"
    "length mem' = length mem"
proof -
  have *: "off + 4 \<le> length mem" "put_bytes mem off (map2 (XOR) (take 4 (drop off mem)) (le32_bytes n)) = Some mem'"
    using assms(1) by (auto simp: xor_int_def bytes_at_def split: bind_splits if_splits)
  then have len: "length (map2 (XOR) (take 4 (drop off mem)) (le32_bytes n)) = 4" by simp
  show "mem' ! k = (if off \<le> k \<and> k < off + 4 then mem ! k XOR le32_bytes n ! (k - off) else mem ! k)"
    using put_bytes_nth [OF *(2) assms(2), unfolded len] *(1) by auto
  show "length mem' = length mem" by (rule put_bytes_length [OF *(2)])
qed

lemma xor_int_length: "xor_int mem off n = Some mem' \<Longrightarrow> length mem' = length mem"
  by (auto simp: xor_int_def bytes_at_def dest: put_bytes_length split: bind_splits if_splits)

lemma xor_int_None: "xor_int mem off n = None \<longleftrightarrow> length mem < off + 4"
  by (auto simp: xor_int_def bytes_at_def put_bytes_def)

lemma xor_loop_nth:
  "xor_loop p n i mem = Some mem' \<Longrightarrow> length mem' = length mem \<and>
     (\<forall>k < length mem. mem' ! k = (if p \<le> k then mem ! k XOR xor_mask n i (k - p) else mem ! k))"
proof (induction p n i mem rule: xor_loop.induct)
  case (1 p n i mem)
  show ?case
  proof (cases "0 < i \<and> i < n")
    case True
    then obtain m where m: "xor_int mem (p + i) (of_nat n) = Some m" "xor_loop p n (8 * i) m = Some mem'"
      using 1(2) by (subst (asm) xor_loop.simps) (auto split: bind_splits)
    note IH = 1(1) [OF True m(1,2)]
    have len: "length m = length mem" by (rule xor_int_length [OF m(1)])
    have "mem' ! k = (if p \<le> k then mem ! k XOR xor_mask n i (k - p) else mem ! k)" if "k < length mem" for k
    proof -
      have "mem' ! k = (if p \<le> k then m ! k XOR xor_mask n (8 * i) (k - p) else m ! k)"
        using IH that len by simp
      then show ?thesis using xor_int_nth(1) [OF m(1) that] True
        by (subst xor_mask.simps) (auto simp: xor.assoc)
    qed
    then show ?thesis using IH len by simp
  next
    case False
    then show ?thesis using 1(2) by (subst (asm) xor_loop.simps, subst xor_mask.simps) auto
  qed
qed

lemma xor_loop_None:
  "0 < i \<Longrightarrow> xor_loop p n i mem = None \<longleftrightarrow> (\<exists>k. i * 8 ^ k < n \<and> length mem < p + i * 8 ^ k + 4)"
proof (induction p n i mem rule: xor_loop.induct)
  case (1 p n i mem)
  show ?case
  proof (cases "i < n")
    case True
    show ?thesis
    proof (cases "xor_int mem (p + i) (of_nat n)")
      case None
      then have "length mem < p + i * 8 ^ 0 + 4" by (simp add: xor_int_None)
      moreover have "xor_loop p n i mem = None" using None True 1(2) by (subst xor_loop.simps) simp
      ultimately show ?thesis using True by (intro iffI exI [of _ 0]) simp_all
    next
      case (Some m)
      have ge: "p + i + 4 \<le> length mem" using Some xor_int_None [of mem "p + i" "of_nat n"] by auto
      then have len: "length m = length mem" using xor_int_length [OF Some] by simp
      have "xor_loop p n i mem = xor_loop p n (8 * i) m"
        using Some True 1(2) by (subst xor_loop.simps) simp
      also have "\<dots> = None \<longleftrightarrow> (\<exists>k. 8 * i * 8 ^ k < n \<and> length m < p + 8 * i * 8 ^ k + 4)"
        using 1(1) [OF _ Some] True 1(2) by simp
      also have "\<dots> \<longleftrightarrow> (\<exists>k. i * 8 ^ Suc k < n \<and> length mem < p + i * 8 ^ Suc k + 4)"
        by (simp add: len ac_simps)
      also have "\<dots> \<longleftrightarrow> (\<exists>k. i * 8 ^ k < n \<and> length mem < p + i * 8 ^ k + 4)" (is "_ \<longleftrightarrow> ?R")
      proof
        assume ?R
        then obtain k where k: "i * 8 ^ k < n" "length mem < p + i * 8 ^ k + 4" by blast
        then have "k \<noteq> 0" using ge by (intro notI) simp
        then show "\<exists>k. i * 8 ^ Suc k < n \<and> length mem < p + i * 8 ^ Suc k + 4"
          using k by (metis not0_implies_Suc)
      qed blast
      finally show ?thesis .
    qed
  next
    case False
    have "\<not> i * 8 ^ k < n" for k
    proof -
      have "i * 1 \<le> i * 8 ^ k" by (intro mult_le_mono2 one_le_power) simp
      then have "i \<le> i * 8 ^ k" by (simp only: mult_1_right)
      then show ?thesis using False by linarith
    qed
    then show ?thesis using False by (subst xor_loop.simps) simp
  qed
qed

section \<open>Properties\<close>


text \<open>C26: the memory the parser reads. It terminates without a fault whenever one byte more than
the option bytes can be read, and that byte is needed: with a single option byte that is neither an end
nor a no-operation, the parser reads the byte behind it.\<close>

theorem toa_loop_overread:
  assumes "length pdata = sky_data_size"
  shows "(len < length rest \<longrightarrow> toa_loop len rest pdata \<noteq> None) \<and>
    (opcode \<noteq> 0 \<longrightarrow> opcode \<noteq> 1 \<longrightarrow> toa_loop 1 [opcode] pdata = None)"
proof -
  have "toa_loop 1 [opcode] pdata = None" if "opcode \<noteq> 0" "opcode \<noteq> 1"
    using that by (subst toa_loop.simps) simp
  then show ?thesis using toa_loop_reads [OF _ assms] by blast
qed


text \<open>Masking runs past the payload. The loop leaves the buffer exactly when some power of 8
below the payload length is less than four bytes before the buffer's end: a payload of 2 to 4, or 9 to
11, bytes at the end of the buffer makes it write outside.\<close>

theorem xor_data_overrun:
  "xor_data_sky mem p n = None \<longleftrightarrow> (\<exists>k. 8 ^ k < nat n \<and> length mem < p + 8 ^ k + 4)"
  using xor_loop_None [of 1 p "nat n" mem] by (simp add: xor_data_sky_def)

text \<open>The translation is never sent. The option that \<open>set_toa_data_sky\<close> inserts consists of the
bytes at the address of its pointer variable, so two unions of the same kind give the same packet,
whatever address and port they hold.\<close>

theorem set_toa_ignores_data:
  assumes "set_toa_data_sky frame sb toa = Some sb'" "v4_code toa = v4_code toa'"
  shows "set_toa_data_sky frame sb toa' = Some sb'"
  using assms by (simp add: set_toa_data_sky_def)

section \<open>Concrete packets\<close>

definition toa_segment :: sky_skb where
  "toa_segment = \<lparr>sb_mem = replicate 12 0 @ [0x80] @ replicate 7 0 @ [1, 1, 253, 8, 1, 187, 8, 8, 8, 8, 0, 0],
     sb_data = 0, sb_len = 32, sb_nh = 0, sb_th = 0, sb_nonlinear = False, sb_csum_hw = False, sb_csum = 0\<rparr>"


theorem toa_loop_overread_witness: "toa_loop 1 [5] zero_data = None"
  using toa_loop_overread [of zero_data 0 "[]" 5] by (simp add: zero_data_def)


text \<open>The SYN that the route hook rewrites: 40 bytes behind 16 bytes of headroom.\<close>

definition syn_packet :: sky_skb where
  "syn_packet = \<lparr>sb_mem = replicate 16 0 @ [0x45, 0, 0, 40, 0, 0, 0, 0, 64, 6, 0, 0, 10, 0, 0, 1, 8, 8, 8, 8] @
       [0x13, 0x88, 1, 187, 0, 0, 0, 0, 0, 0, 0, 0, 0x50, 2, 0, 0, 0, 0, 0, 0],
     sb_data = 16, sb_len = 40, sb_nh = 16, sb_th = 36, sb_nonlinear = False, sb_csum_hw = False, sb_csum = 0\<rparr>"

theorem set_toa_ignores_data_witness:
  "\<exists>sb'. set_toa_data_sky [1, 2, 3, 4, 5, 6, 7, 8] syn_packet client_end = Some sb' \<and>
     set_toa_data_sky [1, 2, 3, 4, 5, 6, 7, 8] syn_packet remote_end = Some sb'"
proof -
  have "set_toa_data_sky [1, 2, 3, 4, 5, 6, 7, 8] syn_packet client_end \<noteq> None"
    by (simp add: set_toa_data_sky_def syn_packet_def ip_ihl_def tcp_doff_def byte_at_def nth_append
        ends_data v4_code_def TCPOPT_V4_SKY_def skb_push_def copy_down_def bytes_at_def put_bytes_def
        set_ihl_def set_doff_def Let_def)
  then show ?thesis
    using set_toa_ignores_data [of _ syn_packet client_end _ remote_end] by (auto simp: ends_data v4_code_def)
qed

end
