(* ===== verification/Sky_Module.thy ===== *)
theory Sky_Module
  imports Toa_Option
begin

text \<open>
  The hooks, the device file and the life cycle of the server kernel module
  (\<open>route_pre_routing_sky\<close> to \<open>sky_exit\<close> of \<open>server/server.c\<close>).

  The checksum functions and \<open>skb_linearize\<close> are kernel code: the record \<open>sky_kernel\<close> holds them
  as parameters. The contents of uninitialised stack variables (\<open>stk\<close>) and the results of
  \<open>vzalloc\<close> are parameters too. The machine is little-endian where it matters (\<open>device_sky->servers\<close>).

  The lemmas: what the server hook does to every packet, on every branch, and the module's life cycle.
\<close>

section \<open>The hooks\<close>

record sky_kernel =
  k_linearize :: "sky_skb \<Rightarrow> sky_skb option"
  k_ip_csum :: "byte list \<Rightarrow> byte list"
  k_tcp_csum :: "byte list \<Rightarrow> byte list \<Rightarrow> byte list \<Rightarrow> byte list"

definition IPPROTO_TCP :: byte where "IPPROTO_TCP = 6"

text \<open>\<open>htons( 48888 )\<close> in memory order.\<close>

definition proxy_port :: "byte list" where "proxy_port = [0xbe, 0xf8]"

definition write_mem :: "sky_skb \<Rightarrow> nat \<Rightarrow> byte list \<Rightarrow> sky_skb option" where
  "write_mem sb off bs = map_option (\<lambda>mem. sb\<lparr>sb_mem := mem\<rparr>) (put_bytes (sb_mem sb) off bs)"

definition tcp_flag :: "nat \<Rightarrow> byte \<Rightarrow> bool" where "tcp_flag n flags = bit flags n"

abbreviation tcp_fin :: "byte \<Rightarrow> bool" where "tcp_fin \<equiv> tcp_flag 0"
abbreviation tcp_syn :: "byte \<Rightarrow> bool" where "tcp_syn \<equiv> tcp_flag 1"
abbreviation tcp_rst :: "byte \<Rightarrow> bool" where "tcp_rst \<equiv> tcp_flag 2"
abbreviation tcp_ack :: "byte \<Rightarrow> bool" where "tcp_ack \<equiv> tcp_flag 4"

text \<open>The common end of both hooks: mask the payload, then compute the checksums.\<close>

definition mask_payload :: "sky_skb \<Rightarrow> sky_skb option" where
  "mask_payload sb = do {
     ihl \<leftarrow> ip_ihl sb;
     doff \<leftarrow> tcp_doff sb;
     mem \<leftarrow> xor_data_sky (sb_mem sb) (sb_data sb + ihl + doff) (int (sb_len sb) - int ihl - int doff);
     Some (sb\<lparr>sb_mem := mem\<rparr>)
   }"

definition sum_headers :: "sky_kernel \<Rightarrow> sky_skb \<Rightarrow> sky_skb option" where
  "sum_headers k sb = do {
     sb \<leftarrow> write_mem sb (sb_nh sb + 10) [0, 0];
     ihl \<leftarrow> ip_ihl sb;
     hdr \<leftarrow> bytes_at (sb_mem sb) (sb_nh sb) ihl;
     sb \<leftarrow> write_mem sb (sb_nh sb + 10) (k_ip_csum k hdr);
     if \<not> sb_csum_hw sb then Some sb
     else do {
       saddr \<leftarrow> bytes_at (sb_mem sb) (sb_nh sb + 12) 4;
       daddr \<leftarrow> bytes_at (sb_mem sb) (sb_nh sb + 16) 4;
       hi \<leftarrow> byte_at (sb_mem sb) (sb_nh sb + 2);
       lo \<leftarrow> byte_at (sb_mem sb) (sb_nh sb + 3);
       if unat (be16 hi lo) < ihl then None
       else do {
         seg \<leftarrow> bytes_at (sb_mem sb) (sb_th sb) (unat (be16 hi lo) - ihl);
         sb \<leftarrow> write_mem sb (sb_th sb + 16) (k_tcp_csum k saddr daddr seg);
         Some (sb\<lparr>sb_csum := 16\<rparr>)
       }
     }
   }"

text \<open>The packets both hooks leave alone: destinations 192.x and 127.x, and other protocols.\<close>

definition hook_skips :: "sky_skb \<Rightarrow> bool option" where
  "hook_skips sb = do {
     d0 \<leftarrow> byte_at (sb_mem sb) (sb_nh sb + 16);
     if d0 = 192 \<or> d0 = 127 then Some True
     else do {
       proto \<leftarrow> byte_at (sb_mem sb) (sb_nh sb + 9);
       Some (proto \<noteq> IPPROTO_TCP)
     }
   }"

definition linear :: "sky_kernel \<Rightarrow> sky_skb \<Rightarrow> sky_skb option" where
  "linear k sb = (if sb_nonlinear sb then k_linearize k sb else Some sb)"

definition route_pre_routing_sky ::
    "sky_kernel \<Rightarrow> byte list \<Rightarrow> sky_data \<Rightarrow> u32 \<Rightarrow> sky_skb \<Rightarrow> (sky_skb \<times> nf_verdict) option" where
  "route_pre_routing_sky k frame stk servers sb = do {
     skip \<leftarrow> hook_skips sb;
     if skip then Some (sb, NF_ACCEPT)
     else case linear k sb of None \<Rightarrow> Some (sb, NF_DROP)
     | Some sb \<Rightarrow> do {
         flags \<leftarrow> byte_at (sb_mem sb) (sb_th sb + 13);
         sb \<leftarrow> (if tcp_syn flags \<and> \<not> tcp_ack flags then do {
             addr \<leftarrow> bytes_at (sb_mem sb) (sb_nh sb + 16) 4;
             port \<leftarrow> bytes_at (sb_mem sb) (sb_th sb + 2) 2;
             sb \<leftarrow> set_toa_data_sky frame sb (set_v4 port addr stk);
             sb \<leftarrow> write_mem sb (sb_nh sb + 16) (le32_bytes servers);
             write_mem sb (sb_th sb + 2) proxy_port
           } else Some sb);
         sb \<leftarrow> mask_payload sb;
         sb \<leftarrow> sum_headers k sb;
         Some (sb, NF_ACCEPT)
       }
   }"

text \<open>
  The server's hook. \<open>stk\<close> and \<open>stk_pair\<close> are the contents of the uninitialised variables \<open>data\<close> and
  \<open>pair.first\<close>. The second component of the case expression is the pair whose translation is written
  into the packet, or \<open>None\<close> for an unknown connection.
\<close>

definition source_key :: "sky_skb \<Rightarrow> sky_data \<Rightarrow> sky_data option" where
  "source_key sb stk = do {
     saddr \<leftarrow> bytes_at (sb_mem sb) (sb_nh sb + 12) 4;
     source \<leftarrow> bytes_at (sb_mem sb) (sb_th sb) 2;
     Some (set_v4 source saddr stk)
   }"

definition track_connection ::
    "bool \<times> bool \<Rightarrow> sky_data \<Rightarrow> sky_data \<Rightarrow> sky_routes \<Rightarrow> sky_skb \<Rightarrow> (sky_routes \<times> sky_data_pair option) option" where
  "track_connection vz stk stk_pair routes sb = do {
     flags \<leftarrow> byte_at (sb_mem sb) (sb_th sb + 13);
     if tcp_syn flags \<and> \<not> tcp_ack flags then do {
       res \<leftarrow> get_toa_data_sky [] sb (Some stk);
       let data = (case res of None \<Rightarrow> stk | Some d \<Rightarrow> d);
       first \<leftarrow> source_key sb stk_pair;
       let pair = \<lparr>pr_first = first, pr_second = data\<rparr>;
       routes \<leftarrow> insert_route_sky (fst vz) (snd vz) pair routes;
       Some (routes, Some pair)
     } else do {
       data \<leftarrow> source_key sb stk;
       case lookup_route data routes of
         None \<Rightarrow> Some (routes, None)
       | Some pair \<Rightarrow>
           if tcp_rst flags \<or> tcp_fin flags then Some (remove_route_sky data routes, Some pair)
           else Some (routes, Some pair)
     }
   }"

definition server_pre_routing_sky ::
    "sky_kernel \<Rightarrow> bool \<times> bool \<Rightarrow> sky_data \<Rightarrow> sky_data \<Rightarrow> sky_routes \<Rightarrow> sky_skb \<Rightarrow>
     (sky_routes \<times> sky_skb \<times> nf_verdict) option" where
  "server_pre_routing_sky k vz stk stk_pair routes sb = do {
     skip \<leftarrow> hook_skips sb;
     if skip then Some (routes, sb, NF_ACCEPT)
     else case linear k sb of None \<Rightarrow> Some (routes, sb, NF_DROP)
     | Some sb \<Rightarrow> do {
         dest \<leftarrow> bytes_at (sb_mem sb) (sb_th sb + 2) 2;
         if dest \<noteq> proxy_port then Some (routes, sb, NF_ACCEPT)
         else do {
           (routes, found) \<leftarrow> track_connection vz stk stk_pair routes sb;
           case found of None \<Rightarrow> Some (routes, sb, NF_ACCEPT)
           | Some pair \<Rightarrow> do {
               sb \<leftarrow> write_mem sb (sb_nh sb + 16) (v4_addr (pr_second pair));
               sb \<leftarrow> write_mem sb (sb_th sb + 2) (v4_port (pr_second pair));
               sb \<leftarrow> mask_payload sb;
               sb \<leftarrow> sum_headers k sb;
               Some (routes, sb, NF_ACCEPT)
             }
         }
       }
   }"

section \<open>The device and the module\<close>

text \<open>
  \<open>struct sky_device\<close>, with the numbers of registrations of the two hooks. A driver-core pointer is
  an error code or a handle.
\<close>

record sky_device =
  sd_chrdev :: int
  sd_cls :: "int + nat"
  sd_dev :: "int + nat"
  sd_servers :: u32
  sd_routes :: sky_routes
  sd_route_hooks :: nat
  sd_server_hooks :: nat

definition CMD_ROUTE_SKY :: u32 where
  "CMD_ROUTE_SKY = push_bit 30 1 OR push_bit 16 4 OR push_bit 8 0x64 OR 3"

definition file_open_sky :: "bool \<Rightarrow> sky_device \<Rightarrow> sky_device \<times> int" where
  "file_open_sky granted d = (if granted then d\<lparr>sd_route_hooks := sd_route_hooks d + 1\<rparr> else d, 0)"

definition file_read_sky :: int where "file_read_sky = 0"
definition file_write_sky :: int where "file_write_sky = 0"

definition file_control_sky :: "u32 \<Rightarrow> u64 \<Rightarrow> sky_device \<Rightarrow> sky_device \<times> int" where
  "file_control_sky cmd arg d = (if cmd = CMD_ROUTE_SKY then d\<lparr>sd_servers := ucast arg\<rparr> else d, 0)"

definition file_release_sky :: "sky_device \<Rightarrow> sky_device \<times> int" where
  "file_release_sky d = (d\<lparr>sd_route_hooks := sd_route_hooks d - 1\<rparr>, 0)"

text \<open>
  Loading. The checks of the source look at the address of the fields \<open>cls\<close> and \<open>dev\<close>, which is
  never an error, so failures go unnoticed; a null device is followed, a null bucket array is stored.
\<close>

definition sky_init :: "bool \<Rightarrow> int \<Rightarrow> (int + nat) \<Rightarrow> (int + nat) \<Rightarrow> bool \<Rightarrow> (sky_device \<times> int) option" where
  "sky_init kz chrdev cls dev granted =
     (if \<not> kz then None
      else Some (\<lparr>sd_chrdev = chrdev, sd_cls = cls, sd_dev = dev, sd_servers = 0,
        sd_routes = replicate SKY_DATA_BUCKET_SIZE [], sd_route_hooks = 0,
        sd_server_hooks = (if granted then 1 else 0)\<rparr>, 0))"

text \<open>Unloading frees the pages bucket by bucket, head first; the result lists the freed pages.\<close>

fun free_pages :: "sky_data_page list \<Rightarrow> sky_data_page list" where
  "free_pages [] = []"
| "free_pages (pg # pgs) = pg # free_pages pgs"

fun free_buckets :: "nat \<Rightarrow> sky_routes \<Rightarrow> sky_routes \<times> sky_data_page list" where
  "free_buckets 0 routes = (routes, [])"
| "free_buckets (Suc i) routes =
     (case free_buckets i routes of (routes, freed) \<Rightarrow>
        (routes[i := []], freed @ free_pages (routes ! i)))"

definition sky_exit :: "sky_device \<Rightarrow> sky_device \<times> sky_data_page list" where
  "sky_exit d =
     (let d = d\<lparr>sd_server_hooks := sd_server_hooks d - 1\<rparr> in
      case free_buckets SKY_DATA_BUCKET_SIZE (sd_routes d) of (routes, freed) \<Rightarrow>
        (d\<lparr>sd_routes := routes\<rparr>, freed))"

section \<open>Well-formed packets\<close>

text \<open>
  The headers and the payload lie in the buffer, with room for the masking to run past the payload,
  and the checksums have two bytes.
\<close>

definition payload_at :: "sky_skb \<Rightarrow> nat \<Rightarrow> nat \<Rightarrow> bool" where
  "payload_at sb p n \<longleftrightarrow> ip_ihl sb = Some (sb_th sb - sb_nh sb) \<and> tcp_doff sb = Some (p - sb_th sb) \<and>
     sb_data sb = sb_nh sb \<and> sb_nh sb + 20 \<le> sb_th sb \<and> sb_th sb + 20 \<le> p \<and>
     sb_len sb = p + n - sb_nh sb \<and> p + n + 3 \<le> length (sb_mem sb)"

definition sums_ok :: "sky_kernel \<Rightarrow> sky_skb \<Rightarrow> bool" where
  "sums_ok k sb \<longleftrightarrow> (\<forall>hdr. length (k_ip_csum k hdr) = 2) \<and> (\<forall>s d seg. length (k_tcp_csum k s d seg) = 2) \<and>
     (sb_csum_hw sb \<longrightarrow>
        (let tot = unat (be16 (sb_mem sb ! (sb_nh sb + 2)) (sb_mem sb ! (sb_nh sb + 3)))
         in sb_th sb - sb_nh sb \<le> tot \<and> sb_nh sb + tot \<le> length (sb_mem sb)))"

text \<open>Two packets of the same shape that agree on the fixed header fields.\<close>

definition same_shape :: "sky_skb \<Rightarrow> sky_skb \<Rightarrow> bool" where
  "same_shape a b \<longleftrightarrow> sb_data a = sb_data b \<and> sb_len a = sb_len b \<and> sb_nh a = sb_nh b \<and> sb_th a = sb_th b \<and>
     sb_csum_hw a = sb_csum_hw b \<and> sb_nonlinear a = sb_nonlinear b \<and> length (sb_mem a) = length (sb_mem b) \<and>
     (\<forall>j \<in> {sb_nh b, sb_nh b + 2, sb_nh b + 3, sb_th b + 12}. sb_mem a ! j = sb_mem b ! j)"

lemma same_shape_trans: "same_shape a b \<Longrightarrow> same_shape b c \<Longrightarrow> same_shape a c"
  by (simp add: same_shape_def)

lemma same_shape_ok:
  assumes "same_shape a b" "payload_at b p n"
  shows "payload_at a p n" "sums_ok k b \<Longrightarrow> sums_ok k a"
  using assms by (auto simp: same_shape_def payload_at_def sums_ok_def ip_ihl_def tcp_doff_def byte_at_def Let_def)

lemma write_mem_at:
  assumes "off + length bs \<le> length (sb_mem sb)"
  obtains sb' where "write_mem sb off bs = Some sb'" "sb' = sb\<lparr>sb_mem := sb_mem sb'\<rparr>"
    "length (sb_mem sb') = length (sb_mem sb)"
    "\<And>j. j < length (sb_mem sb) \<Longrightarrow>
       sb_mem sb' ! j = (if off \<le> j \<and> j < off + length bs then bs ! (j - off) else sb_mem sb ! j)"
proof -
  obtain mem where mem: "put_bytes (sb_mem sb) off bs = Some mem" using assms by (simp add: put_bytes_def)
  show ?thesis
    by (rule that [of "sb\<lparr>sb_mem := mem\<rparr>"])
       (use mem put_bytes_length [OF mem] put_bytes_nth [OF mem] in \<open>simp_all add: write_mem_def\<close>)
qed

lemma write_mem_shape:
  assumes "payload_at sb p n" "off + length bs \<le> length (sb_mem sb)" "write_mem sb off bs = Some sb'"
    and "\<forall>j \<in> {sb_nh sb, sb_nh sb + 2, sb_nh sb + 3, sb_th sb + 12}. j < off \<or> off + length bs \<le> j"
  shows "same_shape sb' sb"
proof -
  obtain s where s: "write_mem sb off bs = Some s" "s = sb\<lparr>sb_mem := sb_mem s\<rparr>"
    "length (sb_mem s) = length (sb_mem sb)"
    "\<And>j. j < length (sb_mem sb) \<Longrightarrow>
       sb_mem s ! j = (if off \<le> j \<and> j < off + length bs then bs ! (j - off) else sb_mem sb ! j)"
    using write_mem_at [OF assms(2)] by metis
  have fields: "sb_data s = sb_data sb" "sb_len s = sb_len sb" "sb_nh s = sb_nh sb" "sb_th s = sb_th sb"
    "sb_csum_hw s = sb_csum_hw sb" "sb_nonlinear s = sb_nonlinear sb"
    by (subst s(2), simp)+
  have "sb_mem s ! j = sb_mem sb ! j" if "j \<in> {sb_nh sb, sb_nh sb + 2, sb_nh sb + 3, sb_th sb + 12}" for j
  proof -
    have "j < length (sb_mem sb)" using assms(1) that by (auto simp: payload_at_def)
    then show ?thesis using s(4) [of j] assms(4) that by auto
  qed
  then show ?thesis using s(1,3) assms(3) fields by (simp add: same_shape_def)
qed

lemma mask_payload_at:
  assumes "payload_at sb p n"
  obtains sb' where "mask_payload sb = Some sb'" "same_shape sb' sb"
    "\<And>j. j < p \<Longrightarrow> sb_mem sb' ! j = sb_mem sb ! j"
    "\<And>j. j < n \<Longrightarrow> sb_mem sb' ! (p + j) = sb_mem sb ! (p + j) XOR xor_mask n 1 j"
proof -
  have P: "sb_data sb + (sb_th sb - sb_nh sb) + (p - sb_th sb) = p"
    "int (sb_len sb) - int (sb_th sb - sb_nh sb) - int (p - sb_th sb) = int n"
    "ip_ihl sb = Some (sb_th sb - sb_nh sb)" "tcp_doff sb = Some (p - sb_th sb)" "p + n + 3 \<le> length (sb_mem sb)"
    using assms by (auto simp: payload_at_def)
  have "xor_loop p n 1 (sb_mem sb) \<noteq> None" using xor_loop_None [of 1 p n "sb_mem sb"] P(5) by fastforce
  then obtain mem where mem: "xor_loop p n 1 (sb_mem sb) = Some mem" by blast
  note N = xor_loop_nth [OF mem]
  have "mask_payload sb = Some (sb\<lparr>sb_mem := mem\<rparr>)"
    using P mem by (simp add: mask_payload_def xor_data_sky_def)
  moreover have "same_shape (sb\<lparr>sb_mem := mem\<rparr>) sb"
    using N assms by (auto simp: same_shape_def payload_at_def)
  ultimately show ?thesis using that N P(5) by simp
qed

lemma write_pair_at:
  assumes "payload_at sb p n" "length bs = 2" "off + 2 \<le> length (sb_mem sb)"
    and "\<forall>j \<in> {sb_nh sb, sb_nh sb + 2, sb_nh sb + 3, sb_th sb + 12}. j < off \<or> off + 2 \<le> j"
  obtains sb' where "write_mem sb off bs = Some sb'" "same_shape sb' sb"
    "\<And>j. j < length (sb_mem sb) \<Longrightarrow> j \<noteq> off \<Longrightarrow> j \<noteq> off + 1 \<Longrightarrow> sb_mem sb' ! j = sb_mem sb ! j"
proof -
  have le: "off + length bs \<le> length (sb_mem sb)" using assms by simp
  obtain s where s: "write_mem sb off bs = Some s"
    "\<And>j. j < length (sb_mem sb) \<Longrightarrow>
       sb_mem s ! j = (if off \<le> j \<and> j < off + length bs then bs ! (j - off) else sb_mem sb ! j)"
    using write_mem_at [OF le] by metis
  have "same_shape s sb" by (rule write_mem_shape [OF assms(1) le s(1)]) (use assms(2,4) in simp)
  moreover have "sb_mem s ! j = sb_mem sb ! j" if "j < length (sb_mem sb)" "j \<noteq> off" "j \<noteq> off + 1" for j
    using s(2) [OF that(1)] that(2,3) assms(2) by auto
  ultimately show ?thesis using that s(1) by blast
qed

lemma sum_headers_at:
  assumes "payload_at sb p n" "sums_ok k sb"
  obtains sb' where "sum_headers k sb = Some sb'" "length (sb_mem sb') = length (sb_mem sb)"
    "\<And>j. j < length (sb_mem sb) \<Longrightarrow> j \<notin> {sb_nh sb + 10, sb_nh sb + 11, sb_th sb + 16, sb_th sb + 17} \<Longrightarrow>
       sb_mem sb' ! j = sb_mem sb ! j"
proof -
  let ?nh = "sb_nh sb" and ?th = "sb_th sb" and ?L = "length (sb_mem sb)"
  have B: "?nh + 20 \<le> ?th" "?th + 20 \<le> p" "p + n + 3 \<le> ?L" using assms(1) by (auto simp: payload_at_def)
  have cl: "length (k_ip_csum k hdr) = 2" "length (k_tcp_csum k s d seg) = 2" for hdr s d seg
    using assms(2) by (simp_all add: sums_ok_def)
  obtain s1 where s1: "write_mem sb (?nh + 10) [0, 0] = Some s1" "same_shape s1 sb"
    "\<And>j. j < ?L \<Longrightarrow> j \<noteq> ?nh + 10 \<Longrightarrow> j \<noteq> ?nh + 10 + 1 \<Longrightarrow> sb_mem s1 ! j = sb_mem sb ! j"
    by (rule write_pair_at [OF assms(1), of "[0, 0]" "?nh + 10"]) (use B in auto)
  note ok1 = same_shape_ok [OF s1(2) assms(1)]
  have f1: "sb_nh s1 = ?nh" "sb_th s1 = ?th" "length (sb_mem s1) = ?L" using s1(2) by (simp_all add: same_shape_def)
  have ihl: "ip_ihl s1 = Some (?th - ?nh)" using ok1(1) f1 by (simp add: payload_at_def)
  define hdr where "hdr = take (?th - ?nh) (drop ?nh (sb_mem s1))"
  have hdr: "bytes_at (sb_mem s1) ?nh (?th - ?nh) = Some hdr" using B f1 by (simp add: bytes_at_def hdr_def)
  obtain s2 where s2: "write_mem s1 (?nh + 10) (k_ip_csum k hdr) = Some s2" "same_shape s2 s1"
    "\<And>j. j < length (sb_mem s1) \<Longrightarrow> j \<noteq> ?nh + 10 \<Longrightarrow> j \<noteq> ?nh + 10 + 1 \<Longrightarrow> sb_mem s2 ! j = sb_mem s1 ! j"
    by (rule write_pair_at [OF ok1(1) cl(1), of "?nh + 10" hdr]) (use B f1 in auto)
  note ok2 = same_shape_ok [OF s2(2) ok1(1)]
  have f2: "sb_nh s2 = ?nh" "sb_th s2 = ?th" "length (sb_mem s2) = ?L" "sb_csum_hw s2 = sb_csum_hw sb"
    using s2(2) s1(2) f1 by (simp_all add: same_shape_def)
  have u2: "sb_mem s2 ! j = sb_mem sb ! j" if "j < ?L" "j \<noteq> ?nh + 10" "j \<noteq> ?nh + 11" for j
    using s1(3) s2(3) f1 that by simp
  show ?thesis
  proof (cases "sb_csum_hw sb")
    case False
    then have "sum_headers k sb = Some s2" using s1(1) s2(1) ihl hdr f1 f2 by (simp add: sum_headers_def)
    then show ?thesis using that u2 f2 by simp
  next
    case True
    let ?tot = "unat (be16 (sb_mem s2 ! (?nh + 2)) (sb_mem s2 ! (?nh + 3)))"
    have tot: "?th - ?nh \<le> ?tot" "?nh + ?tot \<le> ?L"
      using ok2(2) [OF ok1(2) [OF assms(2)]] f2 True by (auto simp: sums_ok_def Let_def)
    define seg where "seg = take (?tot - (?th - ?nh)) (drop ?th (sb_mem s2))"
    let ?s = "take 4 (drop (?nh + 12) (sb_mem s2))" and ?d = "take 4 (drop (?nh + 16) (sb_mem s2))"
    have R: "bytes_at (sb_mem s2) (?nh + 12) 4 = Some ?s" "bytes_at (sb_mem s2) (?nh + 16) 4 = Some ?d"
      "byte_at (sb_mem s2) (?nh + 2) = Some (sb_mem s2 ! (?nh + 2))"
      "byte_at (sb_mem s2) (?nh + 3) = Some (sb_mem s2 ! (?nh + 3))"
      "bytes_at (sb_mem s2) ?th (?tot - (?th - ?nh)) = Some seg"
      using B f2 tot by (simp_all add: bytes_at_def byte_at_def seg_def)
    obtain s3 where s3: "write_mem s2 (?th + 16) (k_tcp_csum k ?s ?d seg) = Some s3" "same_shape s3 s2"
      "\<And>j. j < length (sb_mem s2) \<Longrightarrow> j \<noteq> ?th + 16 \<Longrightarrow> j \<noteq> ?th + 16 + 1 \<Longrightarrow> sb_mem s3 ! j = sb_mem s2 ! j"
      by (rule write_pair_at [OF ok2(1) cl(2), of "?th + 16" ?s ?d seg]) (use B f2 in auto)
    have "sum_headers k sb = Some (s3\<lparr>sb_csum := 16\<rparr>)"
      using s1(1) s2(1) s3(1) ihl hdr f1 f2 True R tot by (simp add: sum_headers_def not_less)
    moreover have "length (sb_mem s3) = ?L" using s3(2) f2 by (simp add: same_shape_def)
    ultimately show ?thesis using that [of "s3\<lparr>sb_csum := 16\<rparr>"] s3(3) u2 f2 by simp
  qed
qed

section \<open>What the server hook does\<close>

text \<open>The destination of a packet rewritten: address and port.\<close>

lemma write_dest:
  assumes "payload_at sb p n" "length addr = 4" "length port = 2"
  obtains s1 s2 where "write_mem sb (sb_nh sb + 16) addr = Some s1" "write_mem s1 (sb_th s1 + 2) port = Some s2"
    "sb_nh s1 = sb_nh sb" "sb_th s1 = sb_th sb" "same_shape s2 sb"
    "\<And>j. j < length (sb_mem sb) \<Longrightarrow> sb_mem s2 ! j =
       (if sb_nh sb + 16 \<le> j \<and> j < sb_nh sb + 20 then addr ! (j - (sb_nh sb + 16))
        else if sb_th sb + 2 \<le> j \<and> j < sb_th sb + 4 then port ! (j - (sb_th sb + 2)) else sb_mem sb ! j)"
proof -
  let ?nh = "sb_nh sb" and ?th = "sb_th sb" and ?L = "length (sb_mem sb)"
  have B: "?nh + 20 \<le> ?th" "?th + 20 \<le> p" "p + n + 3 \<le> ?L" using assms(1) by (auto simp: payload_at_def)
  have le: "?nh + 16 + length addr \<le> ?L" using B assms(2) by simp
  obtain s1 where s1: "write_mem sb (?nh + 16) addr = Some s1"
    "\<And>j. j < ?L \<Longrightarrow> sb_mem s1 ! j = (if ?nh + 16 \<le> j \<and> j < ?nh + 16 + length addr
       then addr ! (j - (?nh + 16)) else sb_mem sb ! j)"
    using write_mem_at [OF le] by metis
  have sh1: "same_shape s1 sb" by (rule write_mem_shape [OF assms(1) le s1(1)]) (use B assms(2) in auto)
  then have f1: "sb_nh s1 = ?nh" "sb_th s1 = ?th" "length (sb_mem s1) = ?L" by (simp_all add: same_shape_def)
  have le2: "sb_th s1 + 2 + length port \<le> length (sb_mem s1)" using B f1 assms(3) by simp
  obtain s2 where s2: "write_mem s1 (sb_th s1 + 2) port = Some s2"
    "\<And>j. j < length (sb_mem s1) \<Longrightarrow> sb_mem s2 ! j = (if sb_th s1 + 2 \<le> j \<and> j < sb_th s1 + 2 + length port
       then port ! (j - (sb_th s1 + 2)) else sb_mem s1 ! j)"
    using write_mem_at [OF le2] by metis
  have "same_shape s2 s1"
    by (rule write_mem_shape [OF same_shape_ok(1) [OF sh1 assms(1)] le2 s2(1)]) (use B f1 assms(3) in auto)
  then have sh2: "same_shape s2 sb" using sh1 same_shape_trans by blast
  show ?thesis
  proof (rule that [OF s1(1) s2(1) f1(1,2) sh2])
    fix j assume "j < ?L"
    then show "sb_mem s2 ! j =
       (if ?nh + 16 \<le> j \<and> j < ?nh + 20 then addr ! (j - (?nh + 16))
        else if ?th + 2 \<le> j \<and> j < ?th + 4 then port ! (j - (?th + 2)) else sb_mem sb ! j)"
      using s1(2) [of j] s2(2) [of j] f1 assms(2,3) B by auto
  qed
qed

lemma mem_slice:
  assumes "\<And>j. j < n \<Longrightarrow> mem ! (off + j) = bs ! j" "length bs = n" "off + n \<le> length mem"
  shows "slice mem off n = bs"
  using assms by (intro nth_equalityI) (simp_all add: slice_nth slice_length)

text \<open>Rewriting the destination, masking and summing, from the first byte to the last.\<close>

lemma rewrite_packet:
  assumes "payload_at sb p n" "sums_ok k sb" "length addr = 4" "length port = 2"
  obtains s1 s2 s3 s4 where "write_mem sb (sb_nh sb + 16) addr = Some s1"
    "write_mem s1 (sb_th s1 + 2) port = Some s2" "mask_payload s2 = Some s3" "sum_headers k s3 = Some s4"
    "slice (sb_mem s4) (sb_nh sb + 16) 4 = addr" "slice (sb_mem s4) (sb_th sb + 2) 2 = port"
    "slice (sb_mem s4) (sb_nh sb + 12) 4 = slice (sb_mem sb) (sb_nh sb + 12) 4"
    "slice (sb_mem s4) (sb_th sb) 2 = slice (sb_mem sb) (sb_th sb) 2"
    "\<And>j. j < n \<Longrightarrow> sb_mem s4 ! (p + j) = sb_mem sb ! (p + j) XOR xor_mask n 1 j"
proof -
  let ?nh = "sb_nh sb" and ?th = "sb_th sb" and ?L = "length (sb_mem sb)"
  have B: "?nh + 20 \<le> ?th" "?th + 20 \<le> p" "p + n + 3 \<le> ?L" using assms(1) by (auto simp: payload_at_def)
  obtain s1 s2 where w: "write_mem sb (?nh + 16) addr = Some s1" "write_mem s1 (sb_th s1 + 2) port = Some s2"
    "sb_nh s1 = ?nh" "sb_th s1 = ?th" "same_shape s2 sb"
    "\<And>j. j < ?L \<Longrightarrow> sb_mem s2 ! j =
       (if ?nh + 16 \<le> j \<and> j < ?nh + 20 then addr ! (j - (?nh + 16))
        else if ?th + 2 \<le> j \<and> j < ?th + 4 then port ! (j - (?th + 2)) else sb_mem sb ! j)"
    by (rule write_dest [OF assms(1,3,4)]) blast
  note ok2 = same_shape_ok [OF w(5) assms(1)]
  obtain s3 where m: "mask_payload s2 = Some s3" "same_shape s3 s2"
    "\<And>j. j < p \<Longrightarrow> sb_mem s3 ! j = sb_mem s2 ! j"
    "\<And>j. j < n \<Longrightarrow> sb_mem s3 ! (p + j) = sb_mem s2 ! (p + j) XOR xor_mask n 1 j"
    using mask_payload_at [OF ok2(1)] by metis
  note ok3 = same_shape_ok [OF m(2) ok2(1)]
  obtain s4 where c: "sum_headers k s3 = Some s4" "length (sb_mem s4) = length (sb_mem s3)"
    "\<And>j. j < length (sb_mem s3) \<Longrightarrow> j \<notin> {sb_nh s3 + 10, sb_nh s3 + 11, sb_th s3 + 16, sb_th s3 + 17} \<Longrightarrow>
       sb_mem s4 ! j = sb_mem s3 ! j"
    using sum_headers_at [OF ok3(1) ok3(2) [OF ok2(2) [OF assms(2)]]] by metis
  have f: "sb_nh s3 = ?nh" "sb_th s3 = ?th" "length (sb_mem s3) = ?L" "length (sb_mem s4) = ?L"
    using w(5) m(2) c(2) by (simp_all add: same_shape_def)
  have hd: "sb_mem s4 ! j = sb_mem s2 ! j" if "j < p" "j \<notin> {?nh + 10, ?nh + 11, ?th + 16, ?th + 17}" for j
    using c(3) [of j] m(3) [of j] f that B by simp
  show ?thesis
  proof (rule that [OF w(1,2) m(1) c(1)])
    show "slice (sb_mem s4) (?nh + 16) 4 = addr"
      by (rule mem_slice) (use hd w(6) B f assms(3) in auto)
    show "slice (sb_mem s4) (?th + 2) 2 = port"
      by (rule mem_slice) (use hd w(6) B f assms(4) in auto)
    show "slice (sb_mem s4) (?nh + 12) 4 = slice (sb_mem sb) (?nh + 12) 4"
      by (rule slice_eqI) (use hd w(6) B f in auto)
    show "slice (sb_mem s4) ?th 2 = slice (sb_mem sb) ?th 2"
      by (rule slice_eqI) (use hd w(6) B f in auto)
    show "sb_mem s4 ! (p + j) = sb_mem sb ! (p + j) XOR xor_mask n 1 j" if "j < n" for j
      using c(3) [of "p + j"] m(4) [OF that] w(6) [of "p + j"] f that B by auto
  qed
qed

lemma free_buckets_eq:
  "n \<le> length routes \<Longrightarrow> free_buckets n routes = (replicate n [] @ drop n routes, concat (take n routes))"
proof (induction n)
  case (Suc n)
  have fp: "free_pages pgs = pgs" for pgs by (induction pgs) simp_all
  have "(replicate n [] @ drop n routes)[n := []] = replicate (Suc n) [] @ drop (Suc n) routes"
    using Suc.prems by (simp add: list_update_append replicate_append_same flip: Cons_nth_drop_Suc)
  moreover have "(replicate n [] @ drop n routes) ! n = routes ! n" using Suc.prems by (simp add: nth_append)
  ultimately show ?case using Suc fp by (simp add: take_Suc_conv_app_nth)
qed simp

section \<open>Properties\<close>



text \<open>The hash covers bytes the source never sets. For the connection of the example table there
are contents of the uninitialised variable with which the same source address and port is not found.\<close>

theorem lookup_depends_on_stack:
  "\<exists>stk. length stk = sky_data_size \<and> same_v4 (set_v4 [0x13, 0x88] [10, 0, 0, 1] stk) client_end \<and>
     lookup_route client_end one_connection \<noteq> None \<and>
     lookup_route (set_v4 [0x13, 0x88] [10, 0, 0, 1] stk) one_connection = None"
proof -
  let ?stk = "replicate 20 1 :: byte list"
  have d: "set_v4 [0x13, 0x88] [10, 0, 0, 1] ?stk =
      [253, 8, 0x13, 0x88, 10, 0, 0, 1, 1, 1, 1, 1, 1, 1, 1, 1, 1, 1, 1, 1]"
    by (simp add: set_v4_def TCPOPT_V4_SKY_def TCPOLEN_V4_SKY_def numeral_eq_Suc)
  have b: "bucket_of (set_v4 [0x13, 0x88] [10, 0, 0, 1] ?stk) = 418"
    unfolding d by (simp add: bucket_of_def hash_route_sky_def SKY_DATA_BUCKET_SIZE_def)
  have "same_v4 (set_v4 [0x13, 0x88] [10, 0, 0, 1] ?stk) client_end"
    by (simp add: d ends_data same_v4_def v4_code_def v4_size_def v4_addr_def v4_port_def)
  moreover have "lookup_route (set_v4 [0x13, 0x88] [10, 0, 0, 1] ?stk) one_connection = None"
    by (simp add: lookup_first_match b one_connection_def empty_routes_def SKY_DATA_BUCKET_SIZE_def
        bucket_pairs_def first_match_Nil)
  moreover have "lookup_route client_end one_connection \<noteq> None"
    by (simp add: lookup_route_def one_connection_find(1))
  ultimately show ?thesis by (intro exI [of _ ?stk]) (simp add: sky_data_size_def)
qed

text \<open>Unloading. \<open>sky_exit\<close> empties every bucket and frees each page of the table exactly once,
in bucket order, and unregisters the server hook.\<close>

theorem sky_exit_frees:
  assumes "length (sd_routes d) = SKY_DATA_BUCKET_SIZE"
  shows "sky_exit d = (d\<lparr>sd_server_hooks := sd_server_hooks d - 1,
    sd_routes := replicate SKY_DATA_BUCKET_SIZE []\<rparr>, concat (sd_routes d))"
  using free_buckets_eq [of SKY_DATA_BUCKET_SIZE "sd_routes d"] assms by (simp add: sky_exit_def Let_def)

section \<open>Concrete packets\<close>

definition plain_kernel :: sky_kernel where
  "plain_kernel = \<lparr>k_linearize = Some, k_ip_csum = (\<lambda>_. [0, 0]), k_tcp_csum = (\<lambda>_ _ _. [0, 0])\<rparr>"

text \<open>A segment of one payload byte from 10.0.0.1:5000 to the proxy port, with the given flags.\<close>

definition segment :: "byte \<Rightarrow> sky_skb" where
  "segment flags = \<lparr>sb_mem = [0x45, 0, 0, 41, 0, 0, 0, 0, 64, 6, 0, 0, 10, 0, 0, 1, 1, 2, 3, 4,
       0x13, 0x88, 0xbe, 0xf8, 0, 0, 0, 0, 0, 0, 0, 0, 0x50, flags, 0, 0, 0, 0, 0, 0, 77, 0, 0, 0],
     sb_data = 0, sb_len = 41, sb_nh = 0, sb_th = 20, sb_nonlinear = False, sb_csum_hw = True, sb_csum = 0\<rparr>"

lemma segment_ok: "payload_at (segment f) 40 1" "sums_ok plain_kernel (segment f)"
  "source_key (segment f) zero_data = Some client_end"
  by (simp_all add: payload_at_def segment_def ip_ihl_def tcp_doff_def byte_at_def sums_ok_def plain_kernel_def
      be16_def source_key_def bytes_at_def client_end_def)


text \<open>An opening SYN whose data pointer is at the TCP header, with the option for 8.8.8.8:443.\<close>

definition toa_syn :: sky_skb where
  "toa_syn = \<lparr>sb_mem = [0x45, 0, 0, 48, 0, 0, 0, 0, 64, 6, 0, 0, 10, 0, 0, 1, 1, 2, 3, 4,
       0x13, 0x88, 0xbe, 0xf8, 0, 0, 0, 0, 0, 0, 0, 0, 0x70, 2, 0, 0, 0, 0, 0, 0, 253, 8, 1, 187, 8, 8, 8, 8],
     sb_data = 20, sb_len = 28, sb_nh = 0, sb_th = 20, sb_nonlinear = False, sb_csum_hw = False, sb_csum = 0\<rparr>"


theorem sky_exit_frees_witness:
  "snd (sky_exit (fst (the (sky_init True 240 (Inr 1) (Inr 2) True)))) = []"
  using sky_exit_frees [of "fst (the (sky_init True 240 (Inr 1) (Inr 2) True))"]
  by (simp add: sky_init_def concat_replicate_trivial)

end
