(* ===== verification/Route_Filter.thy ===== *)
theory Route_Filter
  imports Toa_Option
begin

text \<open>
  The route kernel module that filters for a client (\<open>server/main.c\<close>, with the constants of
  \<open>common/common.h\<close>): it classifies every frame of the hook, answers DNS queries for the route's
  own name, loads its configuration from UDP datagrams and mirrors frames for capturing.

  \<open>common/common.c\<close> is not in the repository. What the source takes from it is a parameter, in the
  record \<open>filter_env\<close>: the sizes and fields of \<open>config_info\<close>, \<open>mac_info\<close>, \<open>domain_info\<close> and
  \<open>capture_info\<close>, the operations of \<open>hash_map\<close>, three protocol numbers no header defines, and the
  checksum functions of the kernel. The byte order of the machine is a parameter too (\<open>htons\<close>).

  A frame is its buffer with the offsets of the three headers; an access outside is \<open>None\<close>.

  The lemmas: what each classifier accepts on either byte order, which handlers can change the
  device, and the reply to a DNS query.
\<close>

section \<open>Constants of \<open>common/common.h\<close>\<close>

definition ROUTE_CONFIG_PORT :: u16 where "ROUTE_CONFIG_PORT = 0xABAB"
definition ROUTE_CAPTURE_PORT :: u16 where "ROUTE_CAPTURE_PORT = 0xBABA"
definition ETH_TYPE_ARP :: u16 where "ETH_TYPE_ARP = 0x0806"
definition ETH_TYPE_IPV4 :: u16 where "ETH_TYPE_IPV4 = 0x0800"
definition ETH_TYPE_IPV6 :: u16 where "ETH_TYPE_IPV6 = 0x86DD"
definition IP_PROTO_TCP :: u16 where "IP_PROTO_TCP = 6"
definition IP_PROTO_UDP :: u16 where "IP_PROTO_UDP = 17"
definition IPV6_NEXTHDR_UDP :: u16 where "IPV6_NEXTHDR_UDP = 136"
definition DNS_FIXED_PORT :: u16 where "DNS_FIXED_PORT = 53"
definition HTTP_FIXED_PORT :: u16 where "HTTP_FIXED_PORT = 80"
definition HTTPS_FIXED_PORT :: u16 where "HTTPS_FIXED_PORT = 443"

text \<open>\<open>xsky.xsky.xsky\<close> in ASCII.\<close>

definition ROUTE_URL :: "byte list" where
  "ROUTE_URL = [120, 115, 107, 121, 46, 120, 115, 107, 121, 46, 120, 115, 107, 121]"

section \<open>Frames and the device\<close>

record route_skb =
  rk_mem :: "byte list"
  rk_mac :: nat
  rk_nh :: nat
  rk_th :: nat
  rk_data :: nat
  rk_len :: nat
  rk_csum :: u32
  rk_dev_mac :: "byte list" \<comment> \<open>\<open>skb->dev\<close>: hardware address and address lists\<close>
  rk_dev_ipv4 :: "byte list list"
  rk_dev_ipv6 :: "byte list list"

record 'm filter_env =
  fe_endian :: endian
  fe_IP_PROTO_ICMP :: u16
  fe_IPV6_NEXTHDR_TCP :: u16
  fe_IPV6_NEXTHDR_ICMP :: u16
  fe_create :: 'm
  fe_insert :: "'m \<Rightarrow> byte list \<Rightarrow> nat \<Rightarrow> 'm"
  fe_config_size :: nat
  fe_mac_size :: nat
  fe_domain_size :: nat
  fe_capture_size :: nat
  fe_config_macs :: "byte list \<Rightarrow> nat"
  fe_config_domains :: "byte list \<Rightarrow> nat"
  fe_config_proxy :: "byte list \<Rightarrow> bool"
  fe_config_wants :: "byte list \<Rightarrow> bool" \<comment> \<open>one of tcp, udp, dns, http and https is set\<close>
  fe_mac_addr :: "byte list \<Rightarrow> byte list"
  fe_mac_type :: "byte list \<Rightarrow> nat"
  fe_domain_strlen :: "byte list \<Rightarrow> nat"
  fe_domain_type :: "byte list \<Rightarrow> nat"
  fe_cap_arp :: "byte list \<Rightarrow> bool"
  fe_cap_ip :: "byte list \<Rightarrow> bool"
  fe_cap_icmp :: "byte list \<Rightarrow> bool"
  fe_cap_tcp :: "byte list \<Rightarrow> bool"
  fe_cap_http :: "byte list \<Rightarrow> bool"
  fe_cap_https :: "byte list \<Rightarrow> bool"
  fe_cap_udp :: "byte list \<Rightarrow> bool"
  fe_cap_dns :: "byte list \<Rightarrow> bool"
  fe_cap_addr :: "byte list \<Rightarrow> byte list"
  fe_cap_mac :: "byte list \<Rightarrow> byte list"
  fe_skb_checksum :: "byte list \<Rightarrow> u32"
  fe_csum_magic :: "byte list \<Rightarrow> byte list \<Rightarrow> nat \<Rightarrow> u32 \<Rightarrow> byte list"
  fe_ip_csum :: "byte list \<Rightarrow> byte list"

record 'm route_device =
  rd_nat_map :: 'm
  rd_hash_map :: 'm
  rd_limit_map :: 'm
  rd_config :: "byte list"
  rd_capture :: "byte list"

text \<open>The value a 16-bit load finds, and the bytes a 16-bit store leaves.\<close>

definition load16 :: "endian \<Rightarrow> byte \<Rightarrow> byte \<Rightarrow> u16" where
  "load16 e a b = (case e of Little_endian \<Rightarrow> be16 b a | Big_endian \<Rightarrow> be16 a b)"

definition store16 :: "endian \<Rightarrow> u16 \<Rightarrow> byte list" where
  "store16 e w = (case e of Little_endian \<Rightarrow> [ucast w, ucast (drop_bit 8 w)]
                 | Big_endian \<Rightarrow> [ucast (drop_bit 8 w), ucast w])"

definition read16 :: "endian \<Rightarrow> byte list \<Rightarrow> nat \<Rightarrow> u16 option" where
  "read16 e mem off = do { a \<leftarrow> byte_at mem off; b \<leftarrow> byte_at mem (off + 1); Some (load16 e a b) }"

definition eth_proto :: "endian \<Rightarrow> route_skb \<Rightarrow> u16 option" where
  "eth_proto e skb = read16 e (rk_mem skb) (rk_mac skb + 12)"

section \<open>Classification\<close>

definition skb_is_ip :: "'m filter_env \<Rightarrow> route_skb \<Rightarrow> bool option" where
  "skb_is_ip env skb = do {
     p \<leftarrow> eth_proto (fe_endian env) skb;
     Some (p = htons (fe_endian env) ETH_TYPE_IPV4 \<or> p = htons (fe_endian env) ETH_TYPE_IPV6)
   }"

definition skb_is_ipv4 :: "'m filter_env \<Rightarrow> route_skb \<Rightarrow> bool option" where
  "skb_is_ipv4 env skb = do {
     p \<leftarrow> eth_proto (fe_endian env) skb;
     Some (p = htons (fe_endian env) ETH_TYPE_IPV4)
   }"

definition skb_is_ipv6 :: "'m filter_env \<Rightarrow> route_skb \<Rightarrow> bool option" where
  "skb_is_ipv6 env skb = do {
     p \<leftarrow> eth_proto (fe_endian env) skb;
     Some (p = htons (fe_endian env) ETH_TYPE_IPV6)
   }"

text \<open>
  The comparison of a one-byte protocol field with the \<open>htons\<close> of a protocol number, as the source
  writes it: both are promoted to \<open>int\<close>, the byte as it is.
\<close>

definition proto_is :: "'m filter_env \<Rightarrow> route_skb \<Rightarrow> nat \<Rightarrow> u16 \<Rightarrow> bool option" where
  "proto_is env skb off n = do {
     b \<leftarrow> byte_at (rk_mem skb) (rk_nh skb + off);
     Some (ucast b = htons (fe_endian env) n)
   }"

definition skb_is_tcp :: "'m filter_env \<Rightarrow> route_skb \<Rightarrow> bool option" where
  "skb_is_tcp env skb = do {
     p \<leftarrow> eth_proto (fe_endian env) skb;
     if p = htons (fe_endian env) ETH_TYPE_IPV4 then proto_is env skb 9 IP_PROTO_TCP
     else if p = htons (fe_endian env) ETH_TYPE_IPV6 then proto_is env skb 6 (fe_IPV6_NEXTHDR_TCP env)
     else Some False
   }"

definition skb_is_udp :: "'m filter_env \<Rightarrow> route_skb \<Rightarrow> bool option" where
  "skb_is_udp env skb = do {
     p \<leftarrow> eth_proto (fe_endian env) skb;
     if p = htons (fe_endian env) ETH_TYPE_IPV4 then proto_is env skb 9 IP_PROTO_UDP
     else if p = htons (fe_endian env) ETH_TYPE_IPV6 then proto_is env skb 6 IPV6_NEXTHDR_UDP
     else Some False
   }"

definition get_local_ipv4 :: "route_skb \<Rightarrow> byte list option" where
  "get_local_ipv4 skb = (case rk_dev_ipv4 skb of [] \<Rightarrow> None | a # _ \<Rightarrow> Some a)"

definition get_local_ipv6 :: "route_skb \<Rightarrow> byte list option" where
  "get_local_ipv6 skb = (case rk_dev_ipv6 skb of [] \<Rightarrow> None | a # _ \<Rightarrow> Some a)"

definition get_local_mac_addr :: "route_skb \<Rightarrow> byte list" where
  "get_local_mac_addr skb = rk_dev_mac skb"

fun addr_listed :: "byte list \<Rightarrow> byte list list \<Rightarrow> bool" where
  "addr_listed addr [] \<longleftrightarrow> False"
| "addr_listed addr (a # as) \<longleftrightarrow> (if a = addr then True else addr_listed addr as)"

definition is_local_ipv4 :: "route_skb \<Rightarrow> byte list \<Rightarrow> bool" where
  "is_local_ipv4 skb addr \<longleftrightarrow> addr_listed addr (rk_dev_ipv4 skb)"

definition is_local_ipv6 :: "route_skb \<Rightarrow> byte list \<Rightarrow> bool" where
  "is_local_ipv6 skb addr \<longleftrightarrow> addr_listed addr (rk_dev_ipv6 skb)"

definition is_local_mac_addr :: "route_skb \<Rightarrow> byte list \<Rightarrow> bool option" where
  "is_local_mac_addr skb addr = memcmp_eq (rk_dev_mac skb) addr 6"

text \<open>\<open>strnstr\<close> of the kernel: does \<open>url\<close> start at one of the positions where it fits in \<open>len\<close> bytes?\<close>

fun strnstr :: "byte list \<Rightarrow> byte list \<Rightarrow> nat \<Rightarrow> bool option" where
  "strnstr url s len =
     (if len < length url \<or> len = 0 then Some (url = [])
      else do {
        bs \<leftarrow> bytes_at s 0 (length url);
        if bs = url then Some True else strnstr url (tl s) (len - 1)
      })"

declare strnstr.simps [simp del]

definition udp_dest_is :: "'m filter_env \<Rightarrow> route_skb \<Rightarrow> u16 \<Rightarrow> bool option" where
  "udp_dest_is env skb port = do {
     d \<leftarrow> read16 (fe_endian env) (rk_mem skb) (rk_th skb + 2);
     Some (d = htons (fe_endian env) port)
   }"

definition dns_name_in :: "'m filter_env \<Rightarrow> route_skb \<Rightarrow> bool option" where
  "dns_name_in env skb = do {
     to_dns \<leftarrow> udp_dest_is env skb DNS_FIXED_PORT;
     if \<not> to_dns then Some False
     else do {
       n \<leftarrow> read16 (fe_endian env) (rk_mem skb) (rk_th skb + 4);
       strnstr ROUTE_URL (drop (rk_th skb + 8) (rk_mem skb)) (unat (htons (fe_endian env) n))
     }
   }"

definition skb_is_dns :: "'m filter_env \<Rightarrow> route_skb \<Rightarrow> bool option" where
  "skb_is_dns env skb = do {
     p \<leftarrow> eth_proto (fe_endian env) skb;
     if p = htons (fe_endian env) ETH_TYPE_IPV4 then do {
       udp \<leftarrow> proto_is env skb 9 IP_PROTO_UDP;
       if udp then dns_name_in env skb else Some False
     } else if p = htons (fe_endian env) ETH_TYPE_IPV6 then do {
       udp \<leftarrow> proto_is env skb 6 IPV6_NEXTHDR_UDP;
       if udp then dns_name_in env skb else Some False
     } else Some False
   }"

text \<open>
  The shape shared by \<open>skb_is_config\<close>, \<open>skb_is_set_capture\<close>, \<open>skb_recv_config\<close> and
  \<open>skb_recv_capture\<close>: UDP to a local address and to the given port.
\<close>

definition local_udp_to :: "'m filter_env \<Rightarrow> route_skb \<Rightarrow> u16 \<Rightarrow> bool option" where
  "local_udp_to env skb port = do {
     p \<leftarrow> eth_proto (fe_endian env) skb;
     if p = htons (fe_endian env) ETH_TYPE_IPV4 then do {
       udp \<leftarrow> proto_is env skb 9 IP_PROTO_UDP;
       if udp then do {
         daddr \<leftarrow> bytes_at (rk_mem skb) (rk_nh skb + 16) 4;
         if is_local_ipv4 skb daddr then udp_dest_is env skb port else Some False
       } else Some False
     } else if p = htons (fe_endian env) ETH_TYPE_IPV6 then do {
       udp \<leftarrow> proto_is env skb 6 IPV6_NEXTHDR_UDP;
       if udp then do {
         daddr \<leftarrow> bytes_at (rk_mem skb) (rk_nh skb + 24) 16;
         if is_local_ipv6 skb daddr then udp_dest_is env skb port else Some False
       } else Some False
     } else Some False
   }"

definition skb_is_config :: "'m filter_env \<Rightarrow> route_skb \<Rightarrow> bool option" where
  "skb_is_config env skb = local_udp_to env skb ROUTE_CONFIG_PORT"

definition skb_is_set_capture :: "'m filter_env \<Rightarrow> route_skb \<Rightarrow> bool option" where
  "skb_is_set_capture env skb = local_udp_to env skb ROUTE_CAPTURE_PORT"

definition either_port :: "'m filter_env \<Rightarrow> route_skb \<Rightarrow> u16 \<Rightarrow> bool option" where
  "either_port env skb port = do {
     d \<leftarrow> read16 (fe_endian env) (rk_mem skb) (rk_th skb + 2);
     s \<leftarrow> read16 (fe_endian env) (rk_mem skb) (rk_th skb);
     Some (d = htons (fe_endian env) port \<or> s = htons (fe_endian env) port)
   }"

text \<open>The part of \<open>skb_is_get_capture\<close> below the source address check, the same for both families.\<close>

definition capture_wants ::
    "'m filter_env \<Rightarrow> byte list \<Rightarrow> route_skb \<Rightarrow> nat \<Rightarrow> u16 \<Rightarrow> u16 \<Rightarrow> u16 \<Rightarrow> bool option" where
  "capture_wants env cap skb off icmp tcp udp = do {
     if fe_cap_ip env cap then Some True
     else do {
       is_icmp \<leftarrow> proto_is env skb off icmp;
       is_tcp \<leftarrow> proto_is env skb off tcp;
       is_udp \<leftarrow> proto_is env skb off udp;
       if is_icmp then Some (fe_cap_icmp env cap)
       else if is_tcp then
         (if fe_cap_tcp env cap then Some True
          else do {
            http \<leftarrow> (if fe_cap_http env cap then either_port env skb HTTP_FIXED_PORT else Some False);
            if http then Some True
            else if fe_cap_https env cap then either_port env skb HTTPS_FIXED_PORT else Some False
          })
       else if is_udp then
         (if fe_cap_udp env cap then Some True
          else if fe_cap_dns env cap then either_port env skb DNS_FIXED_PORT else Some False)
       else Some False
     }
   }"

definition skb_is_get_capture :: "'m filter_env \<Rightarrow> byte list \<Rightarrow> route_skb \<Rightarrow> bool option" where
  "skb_is_get_capture env cap skb = do {
     p \<leftarrow> eth_proto (fe_endian env) skb;
     if p = htons (fe_endian env) ETH_TYPE_ARP then Some (fe_cap_arp env cap)
     else if p = htons (fe_endian env) ETH_TYPE_IPV4 then do {
       saddr \<leftarrow> bytes_at (rk_mem skb) (rk_nh skb + 12) 4;
       if is_local_ipv4 skb saddr then Some False
       else capture_wants env cap skb 9 (fe_IP_PROTO_ICMP env) IP_PROTO_TCP IP_PROTO_UDP
     } else if p = htons (fe_endian env) ETH_TYPE_IPV6 then do {
       saddr \<leftarrow> bytes_at (rk_mem skb) (rk_nh skb + 8) 16;
       if is_local_ipv6 skb saddr then Some False
       else capture_wants env cap skb 6 (fe_IPV6_NEXTHDR_ICMP env) (fe_IPV6_NEXTHDR_TCP env) IPV6_NEXTHDR_UDP
     } else Some False
   }"

definition skb_is_client_to_server :: "route_skb \<Rightarrow> bool" where
  "skb_is_client_to_server skb = False"

definition skb_is_server_to_client :: "route_skb \<Rightarrow> bool" where
  "skb_is_server_to_client skb = False"

section \<open>Configuration\<close>

text \<open>
  The two loops of \<open>load_config\<close>, over what remains of the datagram. The pointer is not moved past a
  domain's characters, and \<open>url\<close> holds 255 bytes.
\<close>

fun load_macs :: "'m filter_env \<Rightarrow> nat \<Rightarrow> byte list \<Rightarrow> 'm \<Rightarrow> ('m \<times> byte list) option" where
  "load_macs env 0 data m = Some (m, data)"
| "load_macs env (Suc n) data m = do {
     mac \<leftarrow> bytes_at data 0 (fe_mac_size env);
     load_macs env n (drop (fe_mac_size env) data) (fe_insert env m (fe_mac_addr env mac) (fe_mac_type env mac))
   }"

fun load_domains :: "'m filter_env \<Rightarrow> nat \<Rightarrow> byte list \<Rightarrow> 'm \<Rightarrow> 'm option" where
  "load_domains env 0 data m = Some m"
| "load_domains env (Suc n) data m = do {
     domain \<leftarrow> bytes_at data 0 (fe_domain_size env);
     let data = drop (fe_domain_size env) data;
     url \<leftarrow> memcpy (replicate 255 0) data (fe_domain_strlen env domain);
     load_domains env n data
       (fe_insert env m (take (fe_domain_strlen env domain) url) (fe_domain_type env domain))
   }"

text \<open>The entries go into the old map, which is then freed; the new one stays as it was created.\<close>

definition load_config :: "'m filter_env \<Rightarrow> byte list \<Rightarrow> 'm route_device \<Rightarrow> 'm route_device option" where
  "load_config env data d = do {
     let limit_map = fe_create env;
     config \<leftarrow> bytes_at data 0 (fe_config_size env);
     let d = d\<lparr>rd_config := config\<rparr>;
     (m, rest) \<leftarrow> load_macs env (fe_config_macs env (rd_config d)) (drop (fe_config_size env) data) (rd_limit_map d);
     m \<leftarrow> load_domains env (fe_config_domains env (rd_config d)) rest m;
     let d = d\<lparr>rd_limit_map := m\<rparr>;
     Some (d\<lparr>rd_limit_map := limit_map\<rparr>)
   }"

definition load_capture :: "'m filter_env \<Rightarrow> byte list \<Rightarrow> 'm route_device \<Rightarrow> 'm route_device option" where
  "load_capture env data d = do {
     capture \<leftarrow> bytes_at data 0 (fe_capture_size env);
     Some (d\<lparr>rd_capture := capture\<rparr>)
   }"

section \<open>The handlers\<close>

definition udp_payload :: "route_skb \<Rightarrow> byte list" where
  "udp_payload skb = drop (rk_th skb + 8) (rk_mem skb)"

definition skb_recv_config ::
    "'m filter_env \<Rightarrow> route_skb \<Rightarrow> 'm route_device \<Rightarrow> ('m route_device \<times> nf_verdict) option" where
  "skb_recv_config env skb d = do {
     hit \<leftarrow> local_udp_to env skb ROUTE_CONFIG_PORT;
     if hit then do { d \<leftarrow> load_config env (udp_payload skb) d; Some (d, NF_DROP) }
     else Some (d, NF_ACCEPT)
   }"

text \<open>The port compared here is the configuration port, as in the source.\<close>

definition skb_recv_capture ::
    "'m filter_env \<Rightarrow> route_skb \<Rightarrow> 'm route_device \<Rightarrow> ('m route_device \<times> nf_verdict) option" where
  "skb_recv_capture env skb d = do {
     hit \<leftarrow> local_udp_to env skb ROUTE_CONFIG_PORT;
     if hit then do { d \<leftarrow> load_capture env (udp_payload skb) d; Some (d, NF_DROP) }
     else Some (d, NF_ACCEPT)
   }"

definition swap_bytes :: "byte list \<Rightarrow> nat \<Rightarrow> nat \<Rightarrow> nat \<Rightarrow> byte list option" where
  "swap_bytes mem a b n = do {
     x \<leftarrow> bytes_at mem a n;
     y \<leftarrow> bytes_at mem b n;
     mem \<leftarrow> put_bytes mem a y;
     put_bytes mem b x
   }"

text \<open>A 16-bit length field in network order, plus \<open>n\<close>.\<close>

definition add_len :: "endian \<Rightarrow> byte list \<Rightarrow> nat \<Rightarrow> u16 \<Rightarrow> byte list option" where
  "add_len e mem off n = do {
     w \<leftarrow> read16 e mem off;
     put_bytes mem off (store16 e (htons e (htons e w + n)))
   }"

definition dns_answer :: "byte list \<Rightarrow> byte list" where
  "dns_answer local_ip = [0xc0, 0x0c, 0x00, 0x01, 0x00, 0x01, 0x00, 0x00, 0x00, 0x00, 0x00, 0x04] @ local_ip"

text \<open>The five blocks of \<open>skb_recv_dns\<close>.\<close>

definition dns_block :: "endian \<Rightarrow> byte list \<Rightarrow> nat \<Rightarrow> nat \<Rightarrow> byte list \<Rightarrow> byte list option" where
  "dns_block e local_ip dns tail mem = do {
     mem \<leftarrow> put_bytes mem (dns + 2) (store16 e (htons e 0x8580));
     mem \<leftarrow> put_bytes mem (dns + 6) (store16 e (htons e 1));
     put_bytes mem tail (dns_answer local_ip)
   }"

definition udp_block :: "endian \<Rightarrow> nat \<Rightarrow> byte list \<Rightarrow> byte list option" where
  "udp_block e udp mem = do {
     mem \<leftarrow> swap_bytes mem udp (udp + 2) 2;
     add_len e mem (udp + 4) 16
   }"

definition ip_block :: "endian \<Rightarrow> nat \<Rightarrow> byte list \<Rightarrow> byte list option" where
  "ip_block e ip mem = do {
     mem \<leftarrow> swap_bytes mem (ip + 12) (ip + 16) 4;
     mem \<leftarrow> put_bytes mem (ip + 4) [0, 0];
     mem \<leftarrow> put_bytes mem (ip + 6) (store16 e (htons e 0x4000));
     add_len e mem (ip + 2) 16
   }"

definition eth_block :: "nat \<Rightarrow> byte list \<Rightarrow> byte list option" where
  "eth_block eth mem = swap_bytes mem (eth + 6) eth 6"

definition sum_block :: "'m filter_env \<Rightarrow> route_skb \<Rightarrow> route_skb option" where
  "sum_block env skb = do {
     let mem = rk_mem skb;
     b \<leftarrow> byte_at mem (rk_nh skb);
     let ihl = 4 * unat (b AND 15);
     if rk_len skb < ihl then None
     else do {
       seg \<leftarrow> bytes_at mem (rk_data skb + ihl) (rk_len skb - ihl);
       let csum = fe_skb_checksum env seg;
       saddr \<leftarrow> bytes_at mem (rk_nh skb + 12) 4;
       daddr \<leftarrow> bytes_at mem (rk_nh skb + 16) 4;
       mem \<leftarrow> put_bytes mem (rk_th skb + 6) (fe_csum_magic env saddr daddr (rk_len skb - ihl) csum);
       mem \<leftarrow> put_bytes mem (rk_nh skb + 10) [0, 0];
       hdr \<leftarrow> bytes_at mem (rk_nh skb) ihl;
       mem \<leftarrow> put_bytes mem (rk_nh skb + 10) (fe_ip_csum env hdr);
       Some (skb\<lparr>rk_mem := mem, rk_csum := csum\<rparr>)
     }
   }"

text \<open>What leaves the module: frames given to \<open>dev_queue_xmit\<close>, and frames for the two proxy senders.\<close>

datatype filter_effect =
    Fx_xmit "byte list"
  | Fx_sendto_client route_skb
  | Fx_sendto_server route_skb

definition frame_bytes :: "route_skb \<Rightarrow> byte list" where
  "frame_bytes skb = take (rk_len skb) (drop (rk_data skb) (rk_mem skb))"

definition skb_recv_dns :: "'m filter_env \<Rightarrow> route_skb \<Rightarrow> (filter_effect list \<times> nf_verdict) option" where
  "skb_recv_dns env skb = do {
     let e = fe_endian env;
     local_ip \<leftarrow> get_local_ipv4 skb;
     mem \<leftarrow> dns_block e local_ip (rk_th skb + 8) (rk_data skb + rk_len skb) (rk_mem skb);
     mem \<leftarrow> udp_block e (rk_th skb) mem;
     mem \<leftarrow> ip_block e (rk_nh skb) mem;
     mem \<leftarrow> eth_block (rk_mac skb) mem;
     skb \<leftarrow> sum_block env (skb\<lparr>rk_mem := mem, rk_len := rk_len skb + 16\<rparr>);
     Some ([Fx_xmit (frame_bytes skb)], NF_QUEUE)
   }"

definition skb_recv_client :: "'m filter_env \<Rightarrow> byte list \<Rightarrow> route_skb \<Rightarrow> (filter_effect list \<times> nf_verdict) option" where
  "skb_recv_client env config skb =
     (if fe_config_wants env config then do {
        tcp \<leftarrow> skb_is_tcp env skb;
        if tcp then Some ([Fx_sendto_server skb], NF_DROP) else Some ([], NF_ACCEPT)
      } else Some ([], NF_ACCEPT))"

definition skb_recv_server :: "'m filter_env \<Rightarrow> byte list \<Rightarrow> route_skb \<Rightarrow> (filter_effect list \<times> nf_verdict) option" where
  "skb_recv_server env config skb =
     (if fe_config_wants env config then do {
        tcp \<leftarrow> skb_is_tcp env skb;
        if tcp then Some ([Fx_sendto_client skb], NF_DROP) else Some ([], NF_ACCEPT)
      } else Some ([], NF_ACCEPT))"

text \<open>
  The mirrored frame: the headers as the source fills them in (\<open>udp->len\<close> in host order, both
  lengths without the headers), then the frame. \<open>ident\<close> is the identification, which stays
  uninitialised.
\<close>

definition capture_ip :: "'m filter_env \<Rightarrow> byte list \<Rightarrow> byte list \<Rightarrow> u16 \<Rightarrow> byte list \<Rightarrow> byte list \<Rightarrow> byte list" where
  "capture_ip env ident check n saddr daddr =
     [0x45, 0] @ store16 (fe_endian env) (htons (fe_endian env) n) @ ident @ [0, 0, 0x40, 17] @ check @ saddr @ daddr"

definition skb_sendto_capture ::
    "'m filter_env \<Rightarrow> byte list \<Rightarrow> byte list \<Rightarrow> route_skb \<Rightarrow> (filter_effect list \<times> nf_verdict) option" where
  "skb_sendto_capture env cap ident skb = do {
     let e = fe_endian env;
     saddr \<leftarrow> get_local_ipv4 skb;
     payload \<leftarrow> bytes_at (rk_mem skb) (rk_data skb) (rk_len skb);
     let daddr = fe_cap_addr env cap;
     let port = store16 e (htons e ROUTE_CAPTURE_PORT);
     let n = of_nat (rk_len skb);
     let udp_check = fe_csum_magic env saddr daddr (rk_len skb + 22) (rk_csum skb);
     let ip = capture_ip env ident (fe_ip_csum env (capture_ip env ident [0, 0] n saddr daddr)) n saddr daddr;
     Some ([Fx_xmit (fe_cap_mac env cap @ get_local_mac_addr skb @ [8, 0] @ ip @
              port @ port @ store16 e n @ udp_check @ payload)], NF_ACCEPT)
   }"

definition route_nf_handle ::
    "'m filter_env \<Rightarrow> byte list \<Rightarrow> route_skb \<Rightarrow> 'm route_device \<Rightarrow>
     ('m route_device \<times> filter_effect list \<times> nf_verdict) option" where
  "route_nf_handle env ident skb d = do {
     dns \<leftarrow> skb_is_dns env skb;
     if dns then do { (fx, v) \<leftarrow> skb_recv_dns env skb; Some (d, fx, v) }
     else do {
       config \<leftarrow> skb_is_config env skb;
       if config then do { (d, v) \<leftarrow> skb_recv_config env skb d; Some (d, [], v) }
       else do {
         set_capture \<leftarrow> skb_is_set_capture env skb;
         if set_capture then do { (d, v) \<leftarrow> skb_recv_capture env skb d; Some (d, [], v) }
         else do {
           get_capture \<leftarrow> skb_is_get_capture env (rd_capture d) skb;
           fx \<leftarrow> (if get_capture then map_option fst (skb_sendto_capture env (rd_capture d) ident skb) else Some []);
           if fe_config_proxy env (rd_config d) then
             (if skb_is_client_to_server skb then do {
                (fx', v) \<leftarrow> skb_recv_client env (rd_config d) skb; Some (d, fx @ fx', v) }
              else if skb_is_server_to_client skb then do {
                (fx', v) \<leftarrow> skb_recv_server env (rd_config d) skb; Some (d, fx @ fx', v) }
              else Some (d, fx, NF_ACCEPT))
           else Some (d, fx, NF_ACCEPT)
         }
       }
     }
   }"

definition route_init :: "'m filter_env \<Rightarrow> 'm route_device \<times> int" where
  "route_init env =
     (\<lparr>rd_nat_map = fe_create env, rd_hash_map = fe_create env, rd_limit_map = fe_create env,
       rd_config = replicate (fe_config_size env) 0, rd_capture = replicate (fe_capture_size env) 0\<rparr>, 0)"

section \<open>Which handlers run\<close>

lemma swap16_inj: "swap16 a = swap16 b \<longleftrightarrow> a = b"
proof
  assume *: "swap16 a = swap16 b"
  show "a = b"
  proof (rule bit_eqI)
    fix n assume "possible_bit TYPE(16 word) n"
    then have n: "n < 16" by simp
    have "bit (swap16 a) (if n < 8 then n + 8 else n - 8) = bit (swap16 b) (if n < 8 then n + 8 else n - 8)"
      using * by simp
    then show "bit a n = bit b n" using n
      by (auto simp: swap16_def bit_simps not_less split: if_splits dest: bit_imp_le_length)
  qed
qed simp

lemma htons_inj: "htons e a = htons e b \<longleftrightarrow> a = b"
  by (cases e) (simp_all add: htons_def swap16_inj)

text \<open>
  On a little-endian machine the swapped protocol number has an empty low byte, so no byte equals it
  unless the number is 0 modulo 256.
\<close>

lemma byte_not_swapped:
  assumes "n < 256" "n \<noteq> 0"
  shows "ucast (b :: byte) \<noteq> htons Little_endian n"
proof
  assume *: "ucast b = htons Little_endian n"
  have lo: "take_bit 8 (swap16 n) = drop_bit 8 n"
    by (rule bit_eqI) (auto simp: swap16_def bit_simps dest: bit_imp_le_length)
  have hi: "drop_bit 8 n = 0" using assms(1)
    by (simp add: drop_bit_eq_div word_less_nat_alt unat_eq_zero [symmetric] unat_div)
  have "ucast b = take_bit 8 (ucast b :: u16)"
    by (rule bit_eqI) (use bit_imp_le_length [of b] in \<open>auto simp: bit_simps\<close>)
  then have "ucast b = (0 :: u16)" using * lo hi by (simp add: htons_def)
  then have "swap16 n = swap16 0" using * by (simp add: htons_def swap16_def)
  then show False using assms(2) swap16_inj by blast
qed

lemma proto_is_little:
  assumes "fe_endian env = Little_endian" "n < 256" "n \<noteq> 0" "proto_is env skb off n = Some r"
  shows "\<not> r"
  using assms byte_not_swapped [OF assms(2,3)] by (auto simp: proto_is_def split: bind_splits)

lemma udp_number: "IP_PROTO_UDP < 256" "IP_PROTO_UDP \<noteq> 0" "IPV6_NEXTHDR_UDP < 256" "IPV6_NEXTHDR_UDP \<noteq> 0"
  by (simp_all add: IP_PROTO_UDP_def IPV6_NEXTHDR_UDP_def)

lemma proto_is_udp_little:
  assumes "fe_endian env = Little_endian"
  shows "proto_is env skb off IP_PROTO_UDP = Some r \<Longrightarrow> \<not> r" "proto_is env skb off IPV6_NEXTHDR_UDP = Some r \<Longrightarrow> \<not> r"
  using proto_is_little [OF assms udp_number(1,2)] proto_is_little [OF assms udp_number(3,4)] by blast+

lemma little_no_dns: "fe_endian env = Little_endian \<Longrightarrow> skb_is_dns env skb = Some r \<Longrightarrow> \<not> r"
  by (auto simp: skb_is_dns_def dest: proto_is_udp_little split: bind_splits if_splits)

lemma little_no_local_udp: "fe_endian env = Little_endian \<Longrightarrow> local_udp_to env skb port = Some r \<Longrightarrow> \<not> r"
  by (auto simp: local_udp_to_def dest: proto_is_udp_little split: bind_splits if_splits)

lemma local_udp_ports:
  "local_udp_to env skb p = Some True \<Longrightarrow> local_udp_to env skb q = Some True \<Longrightarrow> p = q"
  by (auto simp: local_udp_to_def udp_dest_is_def htons_inj split: bind_splits if_splits)

lemma recv_capture_idle:
  assumes "skb_is_config env skb = Some False" "skb_recv_capture env skb d = Some (d', v)"
  shows "d' = d" "v = NF_ACCEPT"
  using assms by (auto simp: skb_is_config_def skb_recv_capture_def split: bind_splits)

lemma load_config_fields:
  assumes "load_config env data d = Some d'"
  shows "d' = d\<lparr>rd_config := take (fe_config_size env) data, rd_limit_map := fe_create env\<rparr>"
  using assms by (auto simp: load_config_def bytes_at_def Let_def split: bind_splits if_splits)

section \<open>The reply to a DNS query\<close>

text \<open>A buffer changed nowhere but in the ranges \<open>rs\<close> (start and length).\<close>

definition only_in :: "(nat \<times> nat) list \<Rightarrow> byte list \<Rightarrow> byte list \<Rightarrow> bool" where
  "only_in rs mem mem' \<longleftrightarrow> length mem' = length mem \<and>
     (\<forall>j < length mem. (\<forall>(a, n) \<in> set rs. j < a \<or> a + n \<le> j) \<longrightarrow> mem' ! j = mem ! j)"

lemma only_in_trans: "only_in rs a b \<Longrightarrow> only_in ss b c \<Longrightarrow> only_in (rs @ ss) a c"
  by (fastforce simp: only_in_def)

lemma only_in_slice:
  assumes "only_in rs mem mem'" "p + k \<le> length mem" "\<forall>(a, n) \<in> set rs. p + k \<le> a \<or> a + n \<le> p"
  shows "slice mem' p k = slice mem p k"
proof (rule slice_eqI)
  show "length mem' = length mem" "p + k \<le> length mem'" using assms by (simp_all add: only_in_def)
  show "mem' ! (p + j) = mem ! (p + j)" if "j < k" for j
  proof -
    have "\<forall>(a, n) \<in> set rs. p + j < a \<or> a + n \<le> p + j" using assms(3) that by fastforce
    then show ?thesis using assms(1,2) that by (simp add: only_in_def)
  qed
qed

lemma put_only:
  assumes "length bs = n" "off + n \<le> length mem"
  shows "\<exists>mem'. put_bytes mem off bs = Some mem' \<and> only_in [(off, n)] mem mem' \<and> slice mem' off n = bs"
proof -
  obtain mem' where m: "put_bytes mem off bs = Some mem'" using assms by (simp add: put_bytes_def)
  then show ?thesis using assms
    put_bytes_length [OF m] put_bytes_nth [OF m] slice_put_same [OF m] by (auto simp: only_in_def)
qed

lemma swap_only:
  assumes "a + n \<le> length mem" "b + n \<le> length mem" "a + n \<le> b \<or> b + n \<le> a"
  obtains mem' where "swap_bytes mem a b n = Some mem'" "only_in [(a, n), (b, n)] mem mem'"
    "slice mem' a n = slice mem b n" "slice mem' b n = slice mem a n"
proof -
  let ?x = "slice mem a n" and ?y = "slice mem b n"
  have len: "length ?x = n" "length ?y = n" using assms by (simp_all add: slice_length)
  obtain m1 where m1: "put_bytes mem a ?y = Some m1" "only_in [(a, n)] mem m1" "slice m1 a n = ?y"
    using put_only [of ?y n a mem] assms len by auto
  have l1: "length m1 = length mem" using m1(2) by (simp add: only_in_def)
  obtain m2 where m2: "put_bytes m1 b ?x = Some m2" "only_in [(b, n)] m1 m2" "slice m2 b n = ?x"
    using put_only [of ?x n b m1] assms len l1 by auto
  have "swap_bytes mem a b n = Some m2"
    using assms m1(1) m2(1) by (simp add: swap_bytes_def bytes_at_def slice_def)
  moreover have "slice m2 a n = ?y" using only_in_slice [OF m2(2), of a n] m1(3) l1 assms by auto
  ultimately show ?thesis using that only_in_trans [OF m1(2) m2(2)] m2(3) by simp
qed

lemma store16_length [simp]: "length (store16 e w) = 2"
  by (cases e) (simp_all add: store16_def)

lemma add_len_only:
  assumes "off + 2 \<le> length mem"
  obtains mem' where "add_len e mem off n = Some mem'" "only_in [(off, 2)] mem mem'"
proof -
  have "\<exists>w. read16 e mem off = Some w" using assms by (simp add: read16_def byte_at_def)
  then obtain w where w: "read16 e mem off = Some w" by blast
  obtain mem' where "put_bytes mem off (store16 e (htons e (htons e w + n))) = Some mem'" "only_in [(off, 2)] mem mem'"
    using put_only [of "store16 e (htons e (htons e w + n))" 2 off mem] assms by auto
  then show ?thesis using that w by (simp add: add_len_def)
qed

lemma dns_block_only:
  assumes "dns + 8 \<le> tail" "tail + 16 \<le> length mem" "length local_ip = 4"
  obtains mem' where "dns_block e local_ip dns tail mem = Some mem'"
    "only_in [(dns + 2, 2), (dns + 6, 2), (tail, 16)] mem mem'" "slice mem' tail 16 = dns_answer local_ip"
proof -
  have len: "length (dns_answer local_ip) = 16" using assms(3) by (simp add: dns_answer_def)
  obtain m1 where m1: "put_bytes mem (dns + 2) (store16 e (htons e 0x8580)) = Some m1" "only_in [(dns + 2, 2)] mem m1"
    using put_only [of "store16 e (htons e 0x8580)" 2 "dns + 2" mem] assms by auto
  then have l1: "length m1 = length mem" by (simp add: only_in_def)
  obtain m2 where m2: "put_bytes m1 (dns + 6) (store16 e (htons e 1)) = Some m2" "only_in [(dns + 6, 2)] m1 m2"
    using put_only [of "store16 e (htons e 1)" 2 "dns + 6" m1] assms l1 by auto
  then have l2: "length m2 = length mem" using l1 by (simp add: only_in_def)
  obtain m3 where m3: "put_bytes m2 tail (dns_answer local_ip) = Some m3" "only_in [(tail, 16)] m2 m3"
    "slice m3 tail 16 = dns_answer local_ip"
    using put_only [of "dns_answer local_ip" 16 tail m2] assms l2 len by auto
  have "dns_block e local_ip dns tail mem = Some m3" using m1(1) m2(1) m3(1) by (simp add: dns_block_def)
  moreover have "only_in [(dns + 2, 2), (dns + 6, 2), (tail, 16)] mem m3"
    using only_in_trans [OF only_in_trans [OF m1(2) m2(2)] m3(2)] by simp
  ultimately show ?thesis using that m3(3) by blast
qed

lemma udp_block_only:
  assumes "udp + 8 \<le> length mem"
  obtains mem' where "udp_block e udp mem = Some mem'" "only_in [(udp, 2), (udp + 2, 2), (udp + 4, 2)] mem mem'"
    "slice mem' udp 2 = slice mem (udp + 2) 2" "slice mem' (udp + 2) 2 = slice mem udp 2"
proof -
  obtain m1 where m1: "swap_bytes mem udp (udp + 2) 2 = Some m1" "only_in [(udp, 2), (udp + 2, 2)] mem m1"
    "slice m1 udp 2 = slice mem (udp + 2) 2" "slice m1 (udp + 2) 2 = slice mem udp 2"
    by (rule swap_only [of udp 2 mem "udp + 2"]) (use assms in auto)
  have l1: "length m1 = length mem" using m1(2) by (simp add: only_in_def)
  obtain m2 where m2: "add_len e m1 (udp + 4) 16 = Some m2" "only_in [(udp + 4, 2)] m1 m2"
    by (rule add_len_only [of "udp + 4" m1]) (use assms l1 in auto)
  have "slice m2 udp 2 = slice m1 udp 2" "slice m2 (udp + 2) 2 = slice m1 (udp + 2) 2"
    by (rule only_in_slice [OF m2(2)]; use assms l1 in simp)+
  then show ?thesis using that m1 m2 only_in_trans [OF m1(2) m2(2)] by (simp add: udp_block_def)
qed

lemma ip_block_only:
  assumes "ip + 20 \<le> length mem"
  obtains mem' where "ip_block e ip mem = Some mem'"
    "only_in [(ip + 12, 4), (ip + 16, 4), (ip + 4, 2), (ip + 6, 2), (ip + 2, 2)] mem mem'"
    "slice mem' (ip + 12) 4 = slice mem (ip + 16) 4" "slice mem' (ip + 16) 4 = slice mem (ip + 12) 4"
proof -
  obtain m1 where m1: "swap_bytes mem (ip + 12) (ip + 16) 4 = Some m1" "only_in [(ip + 12, 4), (ip + 16, 4)] mem m1"
    "slice m1 (ip + 12) 4 = slice mem (ip + 16) 4" "slice m1 (ip + 16) 4 = slice mem (ip + 12) 4"
    by (rule swap_only [of "ip + 12" 4 mem "ip + 16"]) (use assms in auto)
  have l1: "length m1 = length mem" using m1(2) by (simp add: only_in_def)
  obtain m2 where m2: "put_bytes m1 (ip + 4) [0, 0] = Some m2" "only_in [(ip + 4, 2)] m1 m2"
    using put_only [of "[0, 0]" 2 "ip + 4" m1] assms l1 by auto
  then have l2: "length m2 = length mem" using l1 by (simp add: only_in_def)
  obtain m3 where m3: "put_bytes m2 (ip + 6) (store16 e (htons e 0x4000)) = Some m3" "only_in [(ip + 6, 2)] m2 m3"
    using put_only [of "store16 e (htons e 0x4000)" 2 "ip + 6" m2] assms l2 by auto
  then have l3: "length m3 = length mem" using l2 by (simp add: only_in_def)
  obtain m4 where m4: "add_len e m3 (ip + 2) 16 = Some m4" "only_in [(ip + 2, 2)] m3 m4"
    by (rule add_len_only [of "ip + 2" m3]) (use assms l3 in auto)
  have o: "only_in [(ip + 4, 2), (ip + 6, 2), (ip + 2, 2)] m1 m4"
    using only_in_trans [OF only_in_trans [OF m2(2) m3(2)] m4(2)] by simp
  have "slice m4 (ip + 12) 4 = slice m1 (ip + 12) 4" "slice m4 (ip + 16) 4 = slice m1 (ip + 16) 4"
    by (rule only_in_slice [OF o]; use assms l1 in simp)+
  then show ?thesis using that m1 m2(1) m3(1) m4(1) only_in_trans [OF m1(2) o] by (simp add: ip_block_def)
qed

lemma sum_block_only:
  assumes "rk_mem skb ! rk_nh skb AND 15 = 5" "20 \<le> rk_len skb" "rk_data skb + rk_len skb \<le> length (rk_mem skb)"
    and "rk_nh skb + 20 \<le> length (rk_mem skb)" "rk_th skb + 8 \<le> length (rk_mem skb)"
    and "\<forall>s d n c. length (fe_csum_magic env s d n c) = 2" "\<forall>hdr. length (fe_ip_csum env hdr) = 2"
  obtains skb' where "sum_block env skb = Some skb'" "rk_data skb' = rk_data skb" "rk_len skb' = rk_len skb"
    "only_in [(rk_th skb + 6, 2), (rk_nh skb + 10, 2)] (rk_mem skb) (rk_mem skb')"
proof -
  let ?m = "rk_mem skb" and ?nh = "rk_nh skb"
  define seg where "seg = take (rk_len skb - 20) (drop (rk_data skb + 20) ?m)"
  define magic where "magic = fe_csum_magic env (slice ?m (?nh + 12) 4) (slice ?m (?nh + 16) 4) (rk_len skb - 20) (fe_skb_checksum env seg)"
  have R: "byte_at ?m ?nh = Some (?m ! ?nh)" "bytes_at ?m (rk_data skb + 20) (rk_len skb - 20) = Some seg"
    "bytes_at ?m (?nh + 12) 4 = Some (slice ?m (?nh + 12) 4)" "bytes_at ?m (?nh + 16) 4 = Some (slice ?m (?nh + 16) 4)"
    using assms by (simp_all add: byte_at_def bytes_at_def seg_def slice_def)
  obtain m1 where m1: "put_bytes ?m (rk_th skb + 6) magic = Some m1" "only_in [(rk_th skb + 6, 2)] ?m m1"
    using put_only [of magic 2 "rk_th skb + 6" ?m] assms by (auto simp: magic_def)
  have l1: "length m1 = length ?m" using m1(2) by (simp add: only_in_def)
  obtain m2 where m2: "put_bytes m1 (?nh + 10) [0, 0] = Some m2" "only_in [(?nh + 10, 2)] m1 m2"
    using put_only [of "[0, 0]" 2 "?nh + 10" m1] assms l1 by auto
  then have l2: "length m2 = length ?m" using l1 by (simp add: only_in_def)
  define hdr where "hdr = slice m2 ?nh 20"
  obtain m3 where m3: "put_bytes m2 (?nh + 10) (fe_ip_csum env hdr) = Some m3" "only_in [(?nh + 10, 2)] m2 m3"
    using put_only [of "fe_ip_csum env hdr" 2 "?nh + 10" m2] assms l2 by auto
  have "bytes_at m2 ?nh 20 = Some hdr" using assms l2 by (simp add: bytes_at_def hdr_def slice_def)
  then have "sum_block env skb = Some (skb\<lparr>rk_mem := m3, rk_csum := fe_skb_checksum env seg\<rparr>)"
    using R m1(1) m2(1) m3(1) assms(1,2) by (simp add: sum_block_def magic_def Let_def)
  moreover have "only_in [(rk_th skb + 6, 2), (?nh + 10, 2), (?nh + 10, 2)] ?m m3"
    using only_in_trans [OF only_in_trans [OF m1(2) m2(2)] m3(2)] by simp
  then have "only_in [(rk_th skb + 6, 2), (?nh + 10, 2)] ?m m3" by (auto simp: only_in_def)
  ultimately show ?thesis using that by simp
qed

text \<open>What the reply has in place of the query's fields.\<close>

definition reply_fields :: "route_skb \<Rightarrow> byte list \<Rightarrow> byte list \<Rightarrow> bool" where
  "reply_fields skb ip mem \<longleftrightarrow>
     slice mem (rk_mac skb) 6 = slice (rk_mem skb) (rk_mac skb + 6) 6 \<and>
     slice mem (rk_mac skb + 6) 6 = slice (rk_mem skb) (rk_mac skb) 6 \<and>
     slice mem (rk_nh skb + 12) 4 = slice (rk_mem skb) (rk_nh skb + 16) 4 \<and>
     slice mem (rk_nh skb + 16) 4 = slice (rk_mem skb) (rk_nh skb + 12) 4 \<and>
     slice mem (rk_th skb) 2 = slice (rk_mem skb) (rk_th skb + 2) 2 \<and>
     slice mem (rk_th skb + 2) 2 = slice (rk_mem skb) (rk_th skb) 2 \<and>
     slice mem (rk_th skb + 20) (rk_data skb + rk_len skb - (rk_th skb + 20)) =
       slice (rk_mem skb) (rk_th skb + 20) (rk_data skb + rk_len skb - (rk_th skb + 20)) \<and>
     slice mem (rk_data skb + rk_len skb) 16 = dns_answer ip"

definition query_fits :: "route_skb \<Rightarrow> bool" where
  "query_fits skb \<longleftrightarrow> rk_mac skb + 14 \<le> rk_nh skb \<and> rk_nh skb + 20 \<le> rk_th skb \<and> rk_th skb + 20 \<le> rk_data skb + rk_len skb \<and>
     rk_data skb + rk_len skb + 16 \<le> length (rk_mem skb) \<and> 20 \<le> rk_len skb"

text \<open>The four blocks rewrite the headers; no other byte of the query changes.\<close>

lemma blocks_reply:
  assumes "query_fits skb" "length ip = 4"
  shows "\<exists>mem. do { mem \<leftarrow> dns_block e ip (rk_th skb + 8) (rk_data skb + rk_len skb) (rk_mem skb);
       mem \<leftarrow> udp_block e (rk_th skb) mem; mem \<leftarrow> ip_block e (rk_nh skb) mem; eth_block (rk_mac skb) mem } = Some mem \<and>
    reply_fields skb ip mem \<and> length mem = length (rk_mem skb) \<and> mem ! rk_nh skb = rk_mem skb ! rk_nh skb"
proof -
  let ?m = "rk_mem skb" and ?nh = "rk_nh skb" and ?th = "rk_th skb" and ?mac = "rk_mac skb" and ?tail = "rk_data skb + rk_len skb"
  note B = assms(1) [unfolded query_fits_def]
  obtain m1 where m1: "dns_block e ip (?th + 8) ?tail ?m = Some m1"
    "only_in [(?th + 8 + 2, 2), (?th + 8 + 6, 2), (?tail, 16)] ?m m1" "slice m1 ?tail 16 = dns_answer ip"
    by (rule dns_block_only [of "?th + 8" ?tail ?m ip]) (use B assms(2) in auto)
  have l1: "length m1 = length ?m" using m1(2) by (simp add: only_in_def)
  obtain m2 where m2: "udp_block e ?th m1 = Some m2" "only_in [(?th, 2), (?th + 2, 2), (?th + 4, 2)] m1 m2"
    "slice m2 ?th 2 = slice m1 (?th + 2) 2" "slice m2 (?th + 2) 2 = slice m1 ?th 2"
    by (rule udp_block_only [of ?th m1]) (use B l1 in auto)
  note o2 = only_in_trans [OF m1(2) m2(2)]
  have l2: "length m2 = length ?m" using o2 by (simp add: only_in_def)
  obtain m3 where m3: "ip_block e ?nh m2 = Some m3"
    "only_in [(?nh + 12, 4), (?nh + 16, 4), (?nh + 4, 2), (?nh + 6, 2), (?nh + 2, 2)] m2 m3"
    "slice m3 (?nh + 12) 4 = slice m2 (?nh + 16) 4" "slice m3 (?nh + 16) 4 = slice m2 (?nh + 12) 4"
    by (rule ip_block_only [of ?nh m2]) (use B l2 in auto)
  note o3 = only_in_trans [OF o2 m3(2)]
  have l3: "length m3 = length ?m" using o3 by (simp add: only_in_def)
  obtain m4 where m4: "eth_block ?mac m3 = Some m4" "only_in [(?mac + 6, 6), (?mac, 6)] m3 m4"
    "slice m4 (?mac + 6) 6 = slice m3 ?mac 6" "slice m4 ?mac 6 = slice m3 (?mac + 6) 6"
    unfolding eth_block_def by (rule swap_only [of "?mac + 6" 6 m3 ?mac]) (use B l3 in auto)
  note o4 = only_in_trans [OF o3 m4(2)] and p3 = only_in_trans [OF m3(2) m4(2)]
  note p2 = only_in_trans [OF m2(2) p3]
  have l4: "length m4 = length ?m" using o4 by (simp add: only_in_def)
  have mac: "slice m3 (?mac + a) 6 = slice ?m (?mac + a) 6" if "a = 0 \<or> a = 6" for a
    by (rule only_in_slice [OF o3]) (use B l3 that in auto)
  have ip: "slice m4 (?nh + a) 4 = slice m3 (?nh + a) 4" "slice m2 (?nh + a) 4 = slice ?m (?nh + a) 4" if "a = 12 \<or> a = 16" for a
    by (rule only_in_slice [OF m4(2)]; use B l3 that in auto) (rule only_in_slice [OF o2]; use B l2 that in auto)
  have udp: "slice m4 (?th + a) 2 = slice m2 (?th + a) 2" "slice m1 (?th + a) 2 = slice ?m (?th + a) 2" if "a = 0 \<or> a = 2" for a
    by (rule only_in_slice [OF p3]; use B l2 that in auto) (rule only_in_slice [OF m1(2)]; use B l1 that in auto)
  have "slice m4 (?th + 20) (?tail - (?th + 20)) = slice ?m (?th + 20) (?tail - (?th + 20))"
    by (rule only_in_slice [OF o4]) (use B in auto)
  moreover have "slice m4 ?tail 16 = slice m1 ?tail 16" by (rule only_in_slice [OF p2]) (use B l1 in auto)
  moreover have "slice m4 ?nh 1 = slice ?m ?nh 1" by (rule only_in_slice [OF o4]) (use B in auto)
  then have "m4 ! ?nh = ?m ! ?nh" using slice_nth [of ?nh 1 m4 0] slice_nth [of ?nh 1 ?m 0] B l4 by simp
  ultimately have "reply_fields skb ip m4 \<and> length m4 = length ?m \<and> m4 ! ?nh = ?m ! ?nh"
    using l4 m1(3) m2(3,4) m3(3,4) m4(3,4) mac [of 0] mac [of 6] ip [of 12] ip [of 16] udp [of 0] udp [of 2]
    by (simp add: reply_fields_def)
  then show ?thesis using m1(1) m2(1) m3(1) m4(1) by simp
qed

text \<open>The checksums are none of these fields.\<close>

lemma sums_keep_reply:
  assumes "reply_fields skb ip mem" "only_in [(rk_th skb + 6, 2), (rk_nh skb + 10, 2)] mem mem'" "query_fits skb"
    and "length mem = length (rk_mem skb)"
  shows "reply_fields skb ip mem'"
proof -
  note B = assms(3) [unfolded query_fits_def]
  have keep: "slice mem' p n = slice mem p n"
    if "p + n \<le> length mem" "\<forall>(a, k) \<in> set [(rk_th skb + 6, 2), (rk_nh skb + 10, 2)]. p + n \<le> a \<or> a + k \<le> p" for p n
    by (rule only_in_slice [OF assms(2) that])
  show ?thesis using assms(1) B assms(4) by (simp add: reply_fields_def keep)
qed

section \<open>Properties\<close>


text \<open>The capture settings never change. A frame that \<open>skb_is_set_capture\<close> recognises goes to the
capture port, but \<open>skb_recv_capture\<close> loads the settings only from a frame to the configuration port; so on
either byte order \<open>route_nf_handle\<close> leaves the settings as \<open>route_init\<close> made them.\<close>

theorem capture_never_set:
  assumes "route_nf_handle env ident skb d = Some (d', fx, v)"
  shows "rd_capture d' = rd_capture d"
proof -
  have cfg: "rd_capture d' = rd_capture d" if "skb_recv_config env skb d = Some (d', v)" for d' v
    using that by (auto simp: skb_recv_config_def dest: load_config_fields split: bind_splits if_splits)
  show ?thesis using assms
    by (auto simp: route_nf_handle_def skb_is_client_to_server_def skb_is_server_to_client_def
        dest: cfg recv_capture_idle split: bind_splits if_splits)
qed

text \<open>Loading a configuration forgets the limits. After \<open>load_config\<close> the configuration is the head of
the datagram, and the limit map is a fresh one whatever MAC addresses and domains the datagram lists: the
entries went into the map that is freed.\<close>

theorem load_config_drops_limits:
  assumes "load_config env data d = Some d'"
  shows "d' = d\<lparr>rd_config := take (fe_config_size env) data, rd_limit_map := fe_create env\<rparr>"
  by (rule load_config_fields [OF assms])

text \<open>On a big-endian machine a configuration datagram is taken. A UDP datagram over IPv4 to a local
address and to the configuration port, not a DNS query, is dropped from the path exactly when its payload
can be loaded, and the device then has the new configuration.\<close>

theorem config_datagram_loaded:
  assumes "fe_endian env = Big_endian" "eth_proto Big_endian skb = Some ETH_TYPE_IPV4"
    and "byte_at (rk_mem skb) (rk_nh skb + 9) = Some 17"
    and "bytes_at (rk_mem skb) (rk_nh skb + 16) 4 = Some daddr" "daddr \<in> set (rk_dev_ipv4 skb)"
    and "read16 Big_endian (rk_mem skb) (rk_th skb + 2) = Some ROUTE_CONFIG_PORT"
  shows "route_nf_handle env ident skb d =
    map_option (\<lambda>d'. (d', [], NF_DROP)) (load_config env (udp_payload skb) d)"
proof -
  have listed: "addr_listed a as \<longleftrightarrow> a \<in> set as" for a :: "byte list" and as
    by (induction as) auto
  have udp: "proto_is env skb 9 IP_PROTO_UDP = Some True"
    using assms(1,3) by (simp add: proto_is_def htons_def IP_PROTO_UDP_def)
  have "local_udp_to env skb ROUTE_CONFIG_PORT = Some True"
    using assms udp by (simp add: local_udp_to_def htons_def is_local_ipv4_def listed udp_dest_is_def)
  moreover have "skb_is_dns env skb = Some False"
    using assms udp by (simp add: skb_is_dns_def htons_def dns_name_in_def udp_dest_is_def
        ROUTE_CONFIG_PORT_def DNS_FIXED_PORT_def)
  ultimately show ?thesis
    by (cases "load_config env (udp_payload skb) d")
       (simp_all add: route_nf_handle_def skb_is_config_def skb_recv_config_def)
qed


section \<open>A concrete environment and concrete frames\<close>

text \<open>A configuration of two bytes: the number of MAC entries and of domains; maps as lists.\<close>

definition list_env :: "endian \<Rightarrow> (byte list \<times> nat) list filter_env" where
  "list_env e = \<lparr>fe_endian = e, fe_IP_PROTO_ICMP = 1, fe_IPV6_NEXTHDR_TCP = 6, fe_IPV6_NEXTHDR_ICMP = 58,
     fe_create = [], fe_insert = (\<lambda>m k v. (k, v) # m), fe_config_size = 2, fe_mac_size = 7, fe_domain_size = 2,
     fe_capture_size = 8, fe_config_macs = (\<lambda>c. unat (c ! 0)), fe_config_domains = (\<lambda>c. unat (c ! 1)),
     fe_config_proxy = (\<lambda>_. False), fe_config_wants = (\<lambda>_. False), fe_mac_addr = take 6,
     fe_mac_type = (\<lambda>m. unat (m ! 6)), fe_domain_strlen = (\<lambda>d. unat (d ! 0)), fe_domain_type = (\<lambda>d. unat (d ! 1)),
     fe_cap_arp = (\<lambda>c. c ! 0 \<noteq> 0), fe_cap_ip = (\<lambda>c. c ! 1 \<noteq> 0), fe_cap_icmp = (\<lambda>c. c ! 2 \<noteq> 0),
     fe_cap_tcp = (\<lambda>c. c ! 3 \<noteq> 0), fe_cap_http = (\<lambda>c. c ! 4 \<noteq> 0), fe_cap_https = (\<lambda>c. c ! 5 \<noteq> 0),
     fe_cap_udp = (\<lambda>c. c ! 6 \<noteq> 0), fe_cap_dns = (\<lambda>c. c ! 7 \<noteq> 0),
     fe_cap_addr = (\<lambda>_. [9, 9, 9, 9]), fe_cap_mac = (\<lambda>_. [2, 0, 0, 0, 0, 9]),
     fe_skb_checksum = (\<lambda>_. 0), fe_csum_magic = (\<lambda>_ _ _ _. [0, 0]), fe_ip_csum = (\<lambda>_. [0, 0])\<rparr>"

text \<open>A UDP datagram to 10.0.0.1 and the given port, with one MAC entry as its payload.\<close>

definition datagram :: "byte \<Rightarrow> byte \<Rightarrow> route_skb" where
  "datagram p1 p2 = \<lparr>rk_mem = [2, 0, 0, 0, 0, 1, 2, 0, 0, 0, 0, 2, 8, 0,
       0x45, 0, 0, 37, 0, 0, 0, 0, 64, 17, 0, 0, 10, 0, 0, 2, 10, 0, 0, 1,
       0xc0, 0, p1, p2, 0, 17, 0, 0, 1, 0, 1, 2, 3, 4, 5, 6, 7, 0, 0, 0, 0, 0, 0, 0, 0, 0, 0, 0, 0, 0, 0, 0, 0, 0, 0, 0, 0],
     rk_mac = 0, rk_nh = 14, rk_th = 34, rk_data = 14, rk_len = 41, rk_csum = 0,
     rk_dev_mac = [2, 0, 0, 0, 0, 1], rk_dev_ipv4 = [[10, 0, 0, 1]], rk_dev_ipv6 = []\<rparr>"

lemma datagram_fields:
  "eth_proto Big_endian (datagram p1 p2) = Some ETH_TYPE_IPV4"
  "byte_at (rk_mem (datagram p1 p2)) (rk_nh (datagram p1 p2) + 9) = Some 17"
  "bytes_at (rk_mem (datagram p1 p2)) (rk_nh (datagram p1 p2) + 16) 4 = Some [10, 0, 0, 1]"
  "rk_dev_ipv4 (datagram p1 p2) = [[10, 0, 0, 1]]"
  "read16 Big_endian (rk_mem (datagram 0xab 0xab)) (rk_th (datagram 0xab 0xab) + 2) = Some ROUTE_CONFIG_PORT"
  by (simp_all add: eth_proto_def read16_def byte_at_def bytes_at_def datagram_def load16_def be16_def
      ETH_TYPE_IPV4_def ROUTE_CONFIG_PORT_def)

theorem config_datagram_loaded_witness:
  "route_nf_handle (list_env Big_endian) [0, 0] (datagram 0xab 0xab) (fst (route_init (list_env Big_endian))) =
     Some ((fst (route_init (list_env Big_endian)))\<lparr>rd_config := [1, 0], rd_limit_map := []\<rparr>, [], NF_DROP)"
  using config_datagram_loaded [of "list_env Big_endian", OF _ datagram_fields(1,2,3) _ datagram_fields(5),
      of "[0, 0]" "fst (route_init (list_env Big_endian))"] datagram_fields(4)
  by (simp add: list_env_def udp_payload_def datagram_def load_config_def bytes_at_def route_init_def)

theorem load_config_drops_limits_witness:
  "load_config (list_env Big_endian) [1, 0, 1, 2, 3, 4, 5, 6, 7] (fst (route_init (list_env Big_endian))) =
     Some ((fst (route_init (list_env Big_endian)))\<lparr>rd_config := [1, 0], rd_limit_map := []\<rparr>)"
proof -
  have "load_config (list_env Big_endian) [1, 0, 1, 2, 3, 4, 5, 6, 7] (fst (route_init (list_env Big_endian))) \<noteq> None"
    by (simp add: load_config_def list_env_def bytes_at_def route_init_def)
  then show ?thesis
    using load_config_drops_limits [of "list_env Big_endian" "[1, 0, 1, 2, 3, 4, 5, 6, 7]"]
    by (auto simp: list_env_def)
qed

lemma datagram_little:
  "\<exists>d fx v. route_nf_handle (list_env Little_endian) [0, 0] (datagram 0xab 0xab)
     (fst (route_init (list_env Little_endian))) = Some (d, fx, v)"
  by (simp add: route_nf_handle_def skb_is_dns_def skb_is_config_def skb_is_set_capture_def local_udp_to_def
      skb_is_get_capture_def capture_wants_def eth_proto_def read16_def byte_at_def bytes_at_def datagram_def
      load16_def be16_def htons_def swap16_def list_env_def route_init_def proto_is_def is_local_ipv4_def
      ETH_TYPE_IPV4_def ETH_TYPE_IPV6_def ETH_TYPE_ARP_def IP_PROTO_UDP_def IP_PROTO_TCP_def)


theorem capture_never_set_witness:
  "\<exists>d fx v. route_nf_handle (list_env Little_endian) [0, 0] (datagram 0xab 0xab)
     (fst (route_init (list_env Little_endian))) = Some (d, fx, v) \<and>
     rd_capture d = rd_capture (fst (route_init (list_env Little_endian)))"
  using datagram_little capture_never_set by blast


end
