(* ===== verification/Route_Proxy.thy ===== *)
theory Route_Proxy
  imports Route_Filter
begin

text \<open>
  The two senders of the route module that pass TCP packets on to the proxy server and back (\<open>skb_sendto_client\<close> and
  \<open>skb_sendto_server\<close> of \<open>server/main.c\<close>), and unloading.

  A sender builds its packet in a freshly allocated buffer, whose contents are an argument: the code takes the size of
  the payload from a header it has not written yet. A failed allocation, a push below the start of the buffer and a copy
  outside of a buffer are \<open>None\<close>. The kernel's \<open>skb_put\<close> is a parameter, of which \<open>put_fits\<close> says only what it does when
  the bytes fit; the endpoint of the server in the configuration and the checksum of TCP are parameters too.

  The theorems: the hook never calls the senders, and what they would ask of \<open>skb_put\<close> with a zeroed buffer.
\<close>

section \<open>The new buffer\<close>

definition TCPOPT_OP_V4 :: byte where "TCPOPT_OP_V4 = 253"
definition TCPOPT_LEN_V4 :: nat where "TCPOPT_LEN_V4 = 8"

text \<open>The memory of the buffer and the ends of its data.\<close>

record new_skb =
  ns_mem :: "byte list"
  ns_data :: nat
  ns_tail :: nat

record proxy_env =
  px_put :: "u32 \<Rightarrow> new_skb \<Rightarrow> (nat \<times> new_skb) option"
  px_port :: "byte list \<Rightarrow> byte list"
  px_addr :: "byte list \<Rightarrow> byte list"
  px_tcp_magic :: "byte list \<Rightarrow> byte list \<Rightarrow> u32 \<Rightarrow> u32 \<Rightarrow> byte list"

definition ns_reserve :: "nat \<Rightarrow> byte list option \<Rightarrow> new_skb option" where
  "ns_reserve n fresh = map_option (\<lambda>mem. \<lparr>ns_mem = mem, ns_data = n, ns_tail = n\<rparr>) fresh"

definition ns_push :: "nat \<Rightarrow> new_skb \<Rightarrow> (nat \<times> new_skb) option" where
  "ns_push n s = (if n \<le> ns_data s then Some (ns_data s - n, s\<lparr>ns_data := ns_data s - n\<rparr>) else None)"

definition put_fits :: "proxy_env \<Rightarrow> bool" where
  "put_fits px \<longleftrightarrow> (\<forall>n s. ns_tail s + unat n \<le> length (ns_mem s) \<longrightarrow>
     px_put px n s = Some (ns_tail s, s\<lparr>ns_tail := ns_tail s + unat n\<rparr>))"

text \<open>Where the headers and the payload lie: Ethernet, IP, TCP, payload. The size given to \<open>skb_put\<close> is an \<open>unsigned int\<close>.\<close>

definition proxy_buffer :: "proxy_env \<Rightarrow> endian \<Rightarrow> nat \<Rightarrow> byte list option \<Rightarrow> ((nat \<times> nat \<times> nat \<times> nat) \<times> new_skb) option" where
  "proxy_buffer px e reserved fresh = do {
     nskb \<leftarrow> ns_reserve reserved fresh;
     (eth, nskb) \<leftarrow> ns_push 14 nskb;
     (ip, nskb) \<leftarrow> px_put px 20 nskb;
     (tcp, nskb) \<leftarrow> px_put px 20 nskb;
     tot_len \<leftarrow> read16 e (ns_mem nskb) (ip + 2);
     (payload, nskb) \<leftarrow> px_put px (ucast tot_len - 20 - 20) nskb;
     Some ((eth, ip, tcp, payload), nskb)
   }"

definition mem_set :: "nat \<Rightarrow> byte list \<Rightarrow> new_skb \<Rightarrow> new_skb option" where
  "mem_set off bs s = map_option (\<lambda>mem. s\<lparr>ns_mem := mem\<rparr>) (put_bytes (ns_mem s) off bs)"

text \<open>The size of a copy is a \<open>size_t\<close>; the length field is read in the byte order of the machine.\<close>

definition copy_size :: "endian \<Rightarrow> route_skb \<Rightarrow> u64 \<Rightarrow> nat option" where
  "copy_size e skb headers = do { tot_len \<leftarrow> read16 e (rk_mem skb) (rk_nh skb + 2); Some (unat (ucast tot_len - headers :: u64)) }"

text \<open>The common end: the Ethernet header, both checksums and the transmission.\<close>

definition proxy_finish :: "'m filter_env \<Rightarrow> proxy_env \<Rightarrow> route_skb \<Rightarrow> nat \<Rightarrow> nat \<Rightarrow> nat \<Rightarrow> new_skb \<Rightarrow> (filter_effect list \<times> nf_verdict) option" where
  "proxy_finish env px skb eth ip tcp nskb = do {
     bs \<leftarrow> bytes_at (rk_mem skb) (rk_mac skb) 14;
     nskb \<leftarrow> mem_set eth bs nskb;
     ihl \<leftarrow> byte_at (ns_mem nskb) ip;
     let ihl = 4 * unat (ihl AND 15);
     saddr \<leftarrow> bytes_at (ns_mem nskb) (ip + 12) 4;
     daddr \<leftarrow> bytes_at (ns_mem nskb) (ip + 16) 4;
     nskb \<leftarrow> mem_set (tcp + 16) (px_tcp_magic px saddr daddr (of_nat (ns_tail nskb - ns_data nskb) - of_nat ihl) (rk_csum skb)) nskb;
     nskb \<leftarrow> mem_set (ip + 10) [0, 0] nskb;
     header \<leftarrow> bytes_at (ns_mem nskb) ip ihl;
     nskb \<leftarrow> mem_set (ip + 10) (fe_ip_csum env header) nskb;
     frame \<leftarrow> bytes_at (ns_mem nskb) (ns_data nskb) (ns_tail nskb - ns_data nskb);
     Some ([Fx_xmit frame], NF_DROP)
   }"

section \<open>The senders\<close>

definition skb_sendto_client :: "'m filter_env \<Rightarrow> proxy_env \<Rightarrow> byte list \<Rightarrow> nat \<Rightarrow> byte list option \<Rightarrow> route_skb \<Rightarrow>
    (filter_effect list \<times> nf_verdict) option" where
  "skb_sendto_client env px config reserved fresh skb = do {
     let e = fe_endian env;
     ((eth, ip, tcp, payload), nskb) \<leftarrow> proxy_buffer px e reserved fresh;
     dest \<leftarrow> bytes_at (rk_mem skb) (rk_th skb + 2) 2;
     daddr \<leftarrow> bytes_at (rk_mem skb) (rk_nh skb + 16) 4;
     nskb \<leftarrow> mem_set payload ([TCPOPT_OP_V4, 2] @ dest @ daddr) nskb;
     n \<leftarrow> copy_size e skb 40;
     bs \<leftarrow> bytes_at (rk_mem skb) (rk_th skb + 20) n;
     nskb \<leftarrow> mem_set (payload + 8) bs nskb;
     bs \<leftarrow> bytes_at (rk_mem skb) (rk_th skb) 20;
     nskb \<leftarrow> mem_set tcp bs nskb;
     nskb \<leftarrow> mem_set (tcp + 16) [0, 0] nskb;
     nskb \<leftarrow> mem_set (tcp + 2) (px_port px config) nskb;
     bs \<leftarrow> bytes_at (rk_mem skb) (rk_nh skb) 20;
     nskb \<leftarrow> mem_set ip bs nskb;
     nskb \<leftarrow> mem_set (ip + 10) [0, 0] nskb;
     nskb \<leftarrow> mem_set (ip + 16) (px_addr px config) nskb;
     tot_len \<leftarrow> read16 e (ns_mem nskb) (ip + 2);
     nskb \<leftarrow> mem_set (ip + 2) (store16 e (htons e (htons e tot_len + of_nat TCPOPT_LEN_V4))) nskb;
     proxy_finish env px skb eth ip tcp nskb
   }"

definition skb_sendto_server :: "'m filter_env \<Rightarrow> proxy_env \<Rightarrow> nat \<Rightarrow> byte list option \<Rightarrow> route_skb \<Rightarrow>
    (filter_effect list \<times> nf_verdict) option" where
  "skb_sendto_server env px reserved fresh skb = do {
     let e = fe_endian env;
     ((eth, ip, tcp, payload), nskb) \<leftarrow> proxy_buffer px e reserved fresh;
     port \<leftarrow> bytes_at (rk_mem skb) (rk_th skb + 20 + 2) 2;
     addr \<leftarrow> bytes_at (rk_mem skb) (rk_th skb + 20 + 4) 4;
     n \<leftarrow> copy_size e skb 48;
     bs \<leftarrow> bytes_at (rk_mem skb) (rk_th skb + 20 + TCPOPT_LEN_V4) n;
     nskb \<leftarrow> mem_set payload bs nskb;
     bs \<leftarrow> bytes_at (rk_mem skb) (rk_th skb) 20;
     nskb \<leftarrow> mem_set tcp bs nskb;
     nskb \<leftarrow> mem_set (tcp + 16) [0, 0] nskb;
     nskb \<leftarrow> mem_set tcp port nskb;
     bs \<leftarrow> bytes_at (rk_mem skb) (rk_nh skb) 20;
     nskb \<leftarrow> mem_set ip bs nskb;
     nskb \<leftarrow> mem_set (ip + 10) [0, 0] nskb;
     nskb \<leftarrow> mem_set (ip + 12) addr nskb;
     tot_len \<leftarrow> read16 e (ns_mem nskb) (ip + 2);
     nskb \<leftarrow> mem_set (ip + 2) (store16 e (htons e (htons e tot_len - of_nat TCPOPT_LEN_V4))) nskb;
     proxy_finish env px skb eth ip tcp nskb
   }"

text \<open>Unloading: the hooks are unregistered and the three maps freed, in this order; \<open>free_hash_map\<close> is missing code.\<close>

datatype 'm exit_effect = Unregister_hooks | Free_map 'm

definition route_exit :: "'m route_device \<Rightarrow> 'm exit_effect list" where
  "route_exit d = [Unregister_hooks, Free_map (rd_limit_map d), Free_map (rd_hash_map d), Free_map (rd_nat_map d)]"

section \<open>Properties\<close>

text \<open>The hook transmits frames only: no packet reaches the senders of the proxy.\<close>

theorem proxy_never_sends:
  assumes "route_nf_handle env ident skb d = Some (d', fx, v)"
  shows "\<forall>x \<in> set fx. \<exists>frame. x = Fx_xmit frame"
proof -
  have cap: "\<forall>x \<in> set (fst r). \<exists>frame. x = Fx_xmit frame" if "skb_sendto_capture env cap ident skb = Some r" for cap r
    using that by (auto simp: skb_sendto_capture_def Let_def split: bind_splits)
  have dns: "\<forall>x \<in> set (fst r). \<exists>frame. x = Fx_xmit frame" if "skb_recv_dns env skb = Some r" for r
    using that by (auto simp: skb_recv_dns_def Let_def split: bind_splits)
  show ?thesis using assms
    by (fastforce simp: route_nf_handle_def skb_is_client_to_server_def skb_is_server_to_client_def
        dest: cap dns split: bind_splits if_splits)
qed

text \<open>A buffer whose memory is zero has the length zero in its unwritten IP header: whatever the packet, both senders
ask \<open>skb_put\<close> for \<open>2 ^ 32 - 40\<close> bytes, and a \<open>skb_put\<close> that refuses them stops the sender.\<close>

theorem zeroed_buffer_request:
  assumes "put_fits px" "14 \<le> reserved" "reserved + 40 \<le> length mem" "mem ! (reserved + 2) = 0" "mem ! (reserved + 3) = 0"
  shows "proxy_buffer px e reserved (Some mem) = map_option (\<lambda>(payload, s). ((reserved - 14, reserved, reserved + 20, payload), s))
           (px_put px (- 40) \<lparr>ns_mem = mem, ns_data = reserved - 14, ns_tail = reserved + 20 + 20\<rparr>)"
proof -
  have "read16 e mem (reserved + 2) = Some 0"
    using assms(3-5) by (simp add: read16_def byte_at_def load16_def be16_def numeral_3_eq_3 split: endian.split)
  then show ?thesis
    using assms(1-3) by (auto simp: proxy_buffer_def ns_reserve_def ns_push_def put_fits_def map_option_case split: option.split)
qed

corollary refused_request_stops:
  assumes "put_fits px" "14 \<le> reserved" "reserved + 40 \<le> length mem" "mem ! (reserved + 2) = 0" "mem ! (reserved + 3) = 0"
    and "px_put px (- 40) \<lparr>ns_mem = mem, ns_data = reserved - 14, ns_tail = reserved + 20 + 20\<rparr> = None"
  shows "skb_sendto_client env px config reserved (Some mem) skb = None" "skb_sendto_server env px reserved (Some mem) skb = None"
  using zeroed_buffer_request [OF assms(1-5)] assms(6) by (simp_all add: skb_sendto_client_def skb_sendto_server_def)

end
