(* ===== verification/Task_Dispatch.thy ===== *)
theory Task_Dispatch
  imports Xsky_Prelude "HOL-Library.Multiset"
begin

text \<open>
  The controller's dispatch of packets to tasks and its pool of worker threads
  (\<open>controller/controller.cpp\<close>, with \<open>task.cpp\<close>, \<open>device.cpp\<close> and the six empty tasks).

  A packet is the byte list at the callback's \<open>data\<close> pointer; a read past it is \<open>None\<close>. The layout of
  \<open>protocol_ipv4\<close> and \<open>protocol_ipv6\<close> is that of the little-endian System V ABI: 20 and 40 bytes, the
  first bit field of a byte in its low bits. The concurrent queue is third-party code; what the source
  relies on is that an enqueued element is dequeued at most once and by one thread, in any order, so it is a
  multiset.

  The lemmas: which bytes decide the task, what packets never get one, and of the pool the
  conservation of tasks and the lost wake-up.
\<close>

section \<open>Tasks\<close>

datatype task_kind = Http_task | Https_task | Tcp_task | Dns_task | Https3_task | Udp_task

text \<open>\<open>tk_data\<close> is the memory from the task's data pointer on.\<close>

record task =
  tk_kind :: task_kind
  tk_id :: u64
  tk_size :: u32
  tk_data :: "byte list"

definition task_new :: "task_kind \<Rightarrow> task" where
  "task_new k = \<lparr>tk_kind = k, tk_id = 0, tk_size = 0, tk_data = []\<rparr>"

definition task_init :: "u64 \<Rightarrow> byte list \<Rightarrow> u32 \<Rightarrow> task \<Rightarrow> task" where
  "task_init ident data sz t = t\<lparr>tk_id := ident, tk_size := sz, tk_data := data\<rparr>"

definition load64 :: "byte list \<Rightarrow> u64 option" where
  "load64 data = map_option (\<lambda>bs. fold (\<lambda>b w. w * 256 + ucast b) (rev bs) 0) (bytes_at data 0 8)"

definition IP_VERSION_4 :: nat where "IP_VERSION_4 = 0x0100"
definition IP_PROTO_TCP :: nat where "IP_PROTO_TCP = 6"
definition IP_PROTO_UDP :: nat where "IP_PROTO_UDP = 17"
definition IPV6_NEXTHDR_UDP :: nat where "IPV6_NEXTHDR_UDP = 136"
definition DNS_FIXED_PORT :: u16 where "DNS_FIXED_PORT = 53"
definition HTTP_FIXED_PORT :: u16 where "HTTP_FIXED_PORT = 80"
definition HTTPS_FIXED_PORT :: u16 where "HTTPS_FIXED_PORT = 443"

text \<open>The bit field \<open>version : 4\<close>.\<close>

definition ip_version :: "byte list \<Rightarrow> nat option" where
  "ip_version data = map_option (\<lambda>b. unat (b AND 15)) (byte_at data 0)"

datatype transport = Tcp_at nat | Udp_at nat | No_transport

definition find_transport :: "byte list \<Rightarrow> transport option" where
  "find_transport data = do {
     version \<leftarrow> ip_version data;
     if version = IP_VERSION_4 then do {
       protocol \<leftarrow> byte_at data 9;
       Some (if unat protocol = IP_PROTO_TCP then Tcp_at 20
             else if unat protocol = IP_PROTO_UDP then Udp_at 20 else No_transport)
     } else do {
       nexthdr \<leftarrow> byte_at data 6;
       Some (if unat nexthdr = IP_PROTO_TCP then Tcp_at 20
             else if unat nexthdr = IP_PROTO_UDP then Udp_at 20
             else if unat nexthdr = IPV6_NEXTHDR_UDP then Udp_at 20 else No_transport)
     }
   }"

definition dest_port :: "byte list \<Rightarrow> nat \<Rightarrow> u16 option" where
  "dest_port data off = do { hi \<leftarrow> byte_at data (off + 2); lo \<leftarrow> byte_at data (off + 3); Some (be16 hi lo) }"

definition choose_task :: "byte list \<Rightarrow> transport \<Rightarrow> task_kind option option" where
  "choose_task data tr =
     (case tr of
        Tcp_at off \<Rightarrow> do {
          port \<leftarrow> dest_port data off;
          Some (Some (if port = HTTP_FIXED_PORT then Http_task
                      else if port = HTTPS_FIXED_PORT then Https_task else Tcp_task))
        }
      | Udp_at off \<Rightarrow> do {
          port \<leftarrow> dest_port data off;
          Some (Some (if port = DNS_FIXED_PORT then Dns_task
                      else if port = HTTPS_FIXED_PORT then Https3_task else Udp_task))
        }
      | No_transport \<Rightarrow> Some None)"

text \<open>The result: the task pushed to the pool, if any. \<open>sizeof( protocol_ipv4 * )\<close> is that of a pointer.\<close>

definition controller_create :: "byte list \<Rightarrow> u32 \<Rightarrow> task option option" where
  "controller_create data sz =
     (if unat sz > 8 then do {
        ident \<leftarrow> load64 data;
        let data = drop 8 data;
        tr \<leftarrow> find_transport data;
        kind \<leftarrow> choose_task data tr;
        Some (map_option (\<lambda>k. task_init ident data sz (task_new k)) kind)
      } else Some None)"

section \<open>The device\<close>

text \<open>The device keeps a callback; here whether packets reach the controller.\<close>

record xdevice =
  dv_callback :: bool

definition device_open :: "xdevice \<Rightarrow> xdevice" where "device_open d = d\<lparr>dv_callback := True\<rparr>"
definition device_close :: "xdevice \<Rightarrow> xdevice" where "device_close d = d\<lparr>dv_callback := False\<rparr>"

section \<open>The pool\<close>

text \<open>
  Where a worker is in \<open>execute\<close>: at the test of \<open>exit\<close>, past it, past a failed dequeue but not yet
  waiting, waiting on the condition variable, running a task, or done.
\<close>

datatype 't worker = At_loop | Tested | Before_wait | Waiting | Running 't | Finished

text \<open>
  \<open>pl_notify\<close> is a \<open>push\<close> between its two calls; \<open>pl_exiting\<close> the destructor between storing \<open>exit\<close>
  and \<open>notify_all\<close>. The last two fields record history.
\<close>

record 't pool =
  pl_queue :: "'t multiset"
  pl_workers :: "'t worker list"
  pl_exit :: bool
  pl_notify :: bool
  pl_exiting :: bool
  pl_pushed :: "'t multiset"
  pl_executed :: "'t multiset"

definition wake :: "'t worker \<Rightarrow> 't worker" where
  "wake w = (case w of Waiting \<Rightarrow> At_loop | _ \<Rightarrow> w)"

text \<open>
  The steps; a woken worker has no task and goes back to the test. Spurious wake-ups are a step of
  their own.
\<close>

datatype pool_step = Producer | Worker | Spurious | Shutdown

inductive pstep :: "'t pool \<Rightarrow> pool_step \<Rightarrow> 't pool \<Rightarrow> bool" where
  enqueue: "\<not> pl_notify p \<Longrightarrow> \<not> pl_exit p \<Longrightarrow>
     pstep p Producer (p\<lparr>pl_queue := add_mset t (pl_queue p), pl_pushed := add_mset t (pl_pushed p), pl_notify := True\<rparr>)"
| notify_one: "pl_notify p \<Longrightarrow> i < length (pl_workers p) \<Longrightarrow> pl_workers p ! i = Waiting \<Longrightarrow>
     pstep p Producer (p\<lparr>pl_notify := False, pl_workers := (pl_workers p)[i := At_loop]\<rparr>)"
| notify_none: "pl_notify p \<Longrightarrow> Waiting \<notin> set (pl_workers p) \<Longrightarrow> pstep p Producer (p\<lparr>pl_notify := False\<rparr>)"
| leave: "i < length (pl_workers p) \<Longrightarrow> pl_workers p ! i = At_loop \<Longrightarrow> pl_exit p \<Longrightarrow>
     pstep p Worker (p\<lparr>pl_workers := (pl_workers p)[i := Finished]\<rparr>)"
| enter: "i < length (pl_workers p) \<Longrightarrow> pl_workers p ! i = At_loop \<Longrightarrow> \<not> pl_exit p \<Longrightarrow>
     pstep p Worker (p\<lparr>pl_workers := (pl_workers p)[i := Tested]\<rparr>)"
| dequeue: "i < length (pl_workers p) \<Longrightarrow> pl_workers p ! i = Tested \<Longrightarrow> t \<in># pl_queue p \<Longrightarrow>
     pstep p Worker (p\<lparr>pl_queue := pl_queue p - {#t#}, pl_workers := (pl_workers p)[i := Running t]\<rparr>)"
| empty: "i < length (pl_workers p) \<Longrightarrow> pl_workers p ! i = Tested \<Longrightarrow> pl_queue p = {#} \<Longrightarrow>
     pstep p Worker (p\<lparr>pl_workers := (pl_workers p)[i := Before_wait]\<rparr>)"
| wait: "i < length (pl_workers p) \<Longrightarrow> pl_workers p ! i = Before_wait \<Longrightarrow>
     pstep p Worker (p\<lparr>pl_workers := (pl_workers p)[i := Waiting]\<rparr>)"
| run: "i < length (pl_workers p) \<Longrightarrow> pl_workers p ! i = Running t \<Longrightarrow>
     pstep p Worker (p\<lparr>pl_executed := add_mset t (pl_executed p), pl_workers := (pl_workers p)[i := At_loop]\<rparr>)"
| spurious: "i < length (pl_workers p) \<Longrightarrow> pl_workers p ! i = Waiting \<Longrightarrow>
     pstep p Spurious (p\<lparr>pl_workers := (pl_workers p)[i := At_loop]\<rparr>)"
| set_exit: "\<not> pl_exit p \<Longrightarrow> pstep p Shutdown (p\<lparr>pl_exit := True, pl_exiting := True\<rparr>)"
| notify_all: "pl_exiting p \<Longrightarrow>
     pstep p Shutdown (p\<lparr>pl_exiting := False, pl_workers := map wake (pl_workers p)\<rparr>)"

definition pool_start :: "nat \<Rightarrow> 't pool" where
  "pool_start n = \<lparr>pl_queue = {#}, pl_workers = replicate n At_loop, pl_exit = False, pl_notify = False,
     pl_exiting = False, pl_pushed = {#}, pl_executed = {#}\<rparr>"

inductive preach :: "nat \<Rightarrow> 't pool \<Rightarrow> bool" for n where
  start: "preach n (pool_start n)"
| step: "preach n p \<Longrightarrow> pstep p l q \<Longrightarrow> preach n q"

text \<open>The tasks in the hands of workers.\<close>

fun held :: "'t worker \<Rightarrow> 't multiset" where
  "held (Running t) = {#t#}"
| "held w = {#}"

definition in_hands :: "'t worker list \<Rightarrow> 't multiset" where
  "in_hands ws = sum_list (map held ws)"

inductive_cases pstepE: "pstep p l q"

lemma in_hands_update:
  "i < length ws \<Longrightarrow> in_hands (ws[i := w]) + held (ws ! i) = in_hands ws + held w"
proof (induction ws arbitrary: i)
  case (Cons x ws)
  then show ?case by (cases i) (auto simp: in_hands_def ac_simps)
qed simp

lemma in_hands_wake: "in_hands (map wake ws) = in_hands ws"
proof -
  have "held (wake w) = held w" for w :: "'a worker" by (cases w) (simp_all add: wake_def)
  then show ?thesis by (simp add: in_hands_def comp_def)
qed

lemma conserved_step:
  assumes "pstep p l q" "pl_pushed p = pl_executed p + pl_queue p + in_hands (pl_workers p)"
  shows "pl_pushed q = pl_executed q + pl_queue q + in_hands (pl_workers q)"
  using assms
proof (cases rule: pstep.cases)
  case (notify_one i)
  then show ?thesis using assms(2) in_hands_update [of i "pl_workers p" At_loop] by simp
next
  case (leave i)
  then show ?thesis using assms(2) in_hands_update [of i "pl_workers p" Finished] by simp
next
  case (enter i)
  then show ?thesis using assms(2) in_hands_update [of i "pl_workers p" Tested] by simp
next
  case (dequeue i t)
  then have "in_hands ((pl_workers p)[i := Running t]) = add_mset t (in_hands (pl_workers p))"
    using in_hands_update [of i "pl_workers p" "Running t"] by simp
  moreover obtain m where "pl_queue p = add_mset t m" using dequeue by (metis insert_DiffM)
  ultimately show ?thesis using dequeue assms(2) by simp
next
  case (empty i)
  then show ?thesis using assms(2) in_hands_update [of i "pl_workers p" Before_wait] by simp
next
  case (wait i)
  then show ?thesis using assms(2) in_hands_update [of i "pl_workers p" Waiting] by simp
next
  case (run i t)
  then have "in_hands (pl_workers p) = add_mset t (in_hands ((pl_workers p)[i := At_loop]))"
    using in_hands_update [of i "pl_workers p" At_loop] by simp
  then show ?thesis using run assms(2) by simp
next
  case (spurious i)
  then show ?thesis using assms(2) in_hands_update [of i "pl_workers p" At_loop] by simp
qed (simp_all add: in_hands_wake)

section \<open>Dispatch\<close>

lemma version_never_four: "ip_version data \<noteq> Some IP_VERSION_4"
proof
  assume "ip_version data = Some IP_VERSION_4"
  then obtain b :: byte where "unat (b AND 15) = 256" by (auto simp: ip_version_def IP_VERSION_4_def)
  then show False using unsigned_less [of "b AND 15", where ?'a = nat] by simp
qed

text \<open>The task that the bytes at offsets 6, 22 and 23 of a packet select.\<close>

definition kind_of :: "nat \<Rightarrow> u16 \<Rightarrow> task_kind option" where
  "kind_of nexthdr port =
     (if nexthdr = 6 then Some (if port = 80 then Http_task else if port = 443 then Https_task else Tcp_task)
      else if nexthdr \<in> {17, 136} then Some (if port = 53 then Dns_task else if port = 443 then Https3_task else Udp_task)
      else None)"

lemma choose_kind:
  assumes "24 \<le> length data"
  shows "Option.bind (find_transport data) (choose_task data) =
    Some (kind_of (unat (data ! 6)) (be16 (data ! 22) (data ! 23)))"
proof -
  obtain v where v: "ip_version data = Some v" "v \<noteq> IP_VERSION_4"
    using assms version_never_four [of data]
    by (cases "ip_version data") (auto simp: ip_version_def byte_at_def split: if_splits)
  have r: "byte_at data 6 = Some (data ! 6)" "dest_port data 20 = Some (be16 (data ! 22) (data ! 23))"
    using assms by (simp_all add: byte_at_def dest_port_def)
  show ?thesis using v r
    by (simp add: find_transport_def choose_task_def kind_of_def IP_PROTO_TCP_def IP_PROTO_UDP_def
        IPV6_NEXTHDR_UDP_def DNS_FIXED_PORT_def HTTP_FIXED_PORT_def HTTPS_FIXED_PORT_def)
qed

section \<open>Properties\<close>

text \<open>What the dispatch looks at. As a four-bit field never equals \<open>0x0100\<close>, every packet is read as
IPv6 with a 20-byte header: for 32 bytes or more the result depends only on byte 6 and on bytes 22 and
23 of the packet, and a created task has the id of the first 8 bytes and the full size.\<close>

theorem create_reads:
  assumes "32 \<le> length data" "8 < unat sz"
  shows "controller_create data sz = Some (map_option
    (\<lambda>k. \<lparr>tk_kind = k, tk_id = the (load64 data), tk_size = sz, tk_data = drop 8 data\<rparr>)
    (kind_of (unat (data ! 14)) (be16 (data ! 30) (data ! 31))))"
proof -
  have "load64 data = Some (the (load64 data))" using assms(1) by (simp add: load64_def bytes_at_def)
  then obtain ident where l: "load64 data = Some ident" by blast
  have c: "Option.bind (find_transport (drop 8 data)) (choose_task (drop 8 data)) =
      Some (kind_of (unat (data ! 14)) (be16 (data ! 30) (data ! 31)))"
    using choose_kind [of "drop 8 data"] assms(1) by (simp add: add.commute)
  then obtain tr where tr: "find_transport (drop 8 data) = Some tr"
    "choose_task (drop 8 data) tr = Some (kind_of (unat (data ! 14)) (be16 (data ! 30) (data ! 31)))"
    by (cases "find_transport (drop 8 data)") auto
  show ?thesis using assms(2) l tr
    by (cases "kind_of (unat (data ! 14)) (be16 (data ! 30) (data ! 31))")
       (simp_all add: controller_create_def task_init_def task_new_def)
qed

text \<open>Ordinary IPv4 packets get no task. In an IPv4 header byte 6 holds the flags and the high part
of the fragment offset; for an unfragmented packet (0, or 0x40 with the don't-fragment flag) nothing is
created, whatever the protocol and the port.\<close>

theorem ipv4_never_dispatched:
  assumes "32 \<le> length data" "data ! 14 \<in> {0, 0x40}"
  shows "controller_create data sz = Some None"
proof (cases "8 < unat sz")
  case True
  have k: "kind_of (unat (data ! 14)) port = None" for port using assms(2) by (auto simp: kind_of_def)
  have "load64 data = Some (the (load64 data))" using assms(1) by (simp add: load64_def bytes_at_def)
  then obtain ident where l: "load64 data = Some ident" by blast
  have "Option.bind (find_transport (drop 8 data)) (choose_task (drop 8 data)) = Some None"
    using choose_kind [of "drop 8 data"] assms(1) k by (simp add: add.commute)
  then obtain tr where "find_transport (drop 8 data) = Some tr" "choose_task (drop 8 data) tr = Some None"
    by (cases "find_transport (drop 8 data)") auto
  then show ?thesis using True l by (simp add: controller_create_def)
qed (simp add: controller_create_def)

text \<open>The size check is too weak. It compares with the size of a pointer: a buffer of 9 to 14 bytes
passes it and the dispatch reads behind the buffer.\<close>

theorem create_reads_past:
  assumes "8 < length data" "length data < 15" "unat sz = length data"
  shows "controller_create data sz = None"
proof -
  have "byte_at (drop 8 data) 6 = None" using assms by (simp add: byte_at_def)
  moreover have "load64 data = Some (the (load64 data))" using assms(1) by (simp add: load64_def bytes_at_def)
  moreover obtain v where "ip_version (drop 8 data) = Some v" "v \<noteq> IP_VERSION_4"
    using assms(1) version_never_four [of "drop 8 data"]
    by (cases "ip_version (drop 8 data)") (auto simp: ip_version_def byte_at_def split: if_splits)
  ultimately have "find_transport (drop 8 data) = None" by (simp add: find_transport_def)
  then show ?thesis using assms(1,3) by (simp add: controller_create_def split: bind_split)
qed

text \<open>C14: the pool neither loses nor repeats a task. In every reachable state the tasks pushed are
exactly those executed, those queued and those in the hands of workers, with their multiplicities.\<close>

theorem pool_conserves:
  assumes "preach n p"
  shows "pl_pushed p = pl_executed p + pl_queue p + in_hands (pl_workers p)"
  using assms
proof (induction rule: preach.induct)
  case start
  have "in_hands (replicate n At_loop) = {#}" by (induction n) (simp_all add: in_hands_def)
  then show ?case by (simp add: pool_start_def)
next
  case (step p l q)
  then show ?case using conserved_step by blast
qed

text \<open>C23: the lost wake-up. A worker that found the queue empty does not hold the lock the producer
notifies under, so a push can fall between its check and its wait: with one worker a state is reachable
in which the task stays queued, the worker waits, and no step of a worker is possible.\<close>

theorem lost_wakeup:
  "\<exists>p. preach 1 p \<and> t \<in># pl_queue p \<and> pl_workers p = [Waiting] \<and> \<not> pl_notify p \<and> \<not> pl_exit p \<and>
     (\<nexists>q. pstep p Worker q)"
proof -
  let ?s0 = "pool_start 1 :: 'a pool"
  let ?r0 = "?s0\<lparr>pl_workers := [Tested]\<rparr>"
  let ?s1 = "?s0\<lparr>pl_workers := [Before_wait]\<rparr>"
  let ?s2 = "?s1\<lparr>pl_queue := {#t#}, pl_pushed := {#t#}, pl_notify := True\<rparr>"
  let ?s3 = "?s2\<lparr>pl_notify := False\<rparr>"
  let ?s4 = "?s3\<lparr>pl_workers := [Waiting]\<rparr>"
  have "pstep ?s0 Worker ?r0" using pstep.enter [of 0 ?s0] by (simp add: pool_start_def)
  moreover have "pstep ?r0 Worker ?s1" using pstep.empty [of 0 ?r0] by (simp add: pool_start_def)
  moreover have "pstep ?s1 Producer ?s2" using pstep.enqueue [of ?s1 t] by (simp add: pool_start_def)
  moreover have "pstep ?s2 Producer ?s3" using pstep.notify_none [of ?s2] by (simp add: pool_start_def)
  moreover have "pstep ?s3 Worker ?s4" using pstep.wait [of 0 ?s3] by (simp add: pool_start_def)
  ultimately have "preach 1 ?s4" by (meson preach.intros)
  moreover have "\<nexists>q. pstep ?s4 Worker q" by (auto simp: pool_start_def elim!: pstep.cases)
  ultimately show ?thesis by (intro exI [of _ ?s4]) (simp add: pool_start_def)
qed

text \<open>The destructor can hang in the same way. With one worker a state is reachable in which \<open>exit\<close> is
set, \<open>notify_all\<close> has been called, and the worker waits: no further step but a spurious wake-up exists, so
the join does not return.\<close>

theorem shutdown_hangs:
  "\<exists>p :: 't pool. preach 1 p \<and> pl_exit p \<and> \<not> pl_exiting p \<and> pl_workers p = [Waiting] \<and>
     (\<nexists>l q. pstep p l q \<and> l \<noteq> Spurious)"
proof -
  let ?s0 = "pool_start 1 :: 't pool"
  let ?r0 = "?s0\<lparr>pl_workers := [Tested]\<rparr>"
  let ?s1 = "?s0\<lparr>pl_workers := [Before_wait]\<rparr>"
  let ?s2 = "?s1\<lparr>pl_exit := True, pl_exiting := True\<rparr>"
  let ?s3 = "?s2\<lparr>pl_exiting := False\<rparr>"
  let ?s4 = "?s3\<lparr>pl_workers := [Waiting]\<rparr>"
  have "pstep ?s0 Worker ?r0" using pstep.enter [of 0 ?s0] by (simp add: pool_start_def)
  moreover have "pstep ?r0 Worker ?s1" using pstep.empty [of 0 ?r0] by (simp add: pool_start_def)
  moreover have "pstep ?s1 Shutdown ?s2" using pstep.set_exit [of ?s1] by (simp add: pool_start_def)
  moreover have "pstep ?s2 Shutdown ?s3" using pstep.notify_all [of ?s2] by (simp add: pool_start_def wake_def)
  moreover have "pstep ?s3 Worker ?s4" using pstep.wait [of 0 ?s3] by (simp add: pool_start_def)
  ultimately have "preach 1 ?s4" by (meson preach.intros)
  moreover have "\<nexists>l q. pstep ?s4 l q \<and> l \<noteq> Spurious" by (auto simp: pool_start_def elim!: pstep.cases)
  ultimately show ?thesis by (intro exI [of _ ?s4]) (simp add: pool_start_def)
qed

section \<open>Concrete packets\<close>

text \<open>An IPv6 packet with next header 6, whose source address puts 80 where the source reads a port.\<close>

definition packet6 :: "byte list" where
  "packet6 = [1, 0, 0, 0, 0, 0, 0, 0, 0x60, 0, 0, 0, 0, 20, 6, 64, 0, 0, 0, 0, 0, 0, 0, 0, 0, 0, 0, 0, 0, 0, 0, 80]"

theorem create_reads_witness:
  "\<exists>t. controller_create packet6 32 = Some (Some t) \<and> tk_kind t = Http_task \<and> tk_size t = 32 \<and> length (tk_data t) = 24"
  using create_reads [of packet6 32] by (simp add: packet6_def kind_of_def be16_def)

theorem ipv4_never_dispatched_witness:
  "controller_create ([1, 0, 0, 0, 0, 0, 0, 0, 0x45, 0, 0, 40, 0, 0, 0x40, 0, 64, 6] @ replicate 22 80) 40 = Some None"
  by (rule ipv4_never_dispatched) simp_all

theorem create_reads_past_witness: "controller_create [1, 0, 0, 0, 0, 0, 0, 0, 0x45, 0] 10 = None"
  by (rule create_reads_past) simp_all

theorem pool_conserves_witness:
  "\<exists>p :: nat pool. preach 1 p \<and> pl_workers p = [Running 7] \<and> pl_pushed p = pl_executed p + pl_queue p + {#7#}"
proof -
  let ?s0 = "pool_start 1 :: nat pool"
  let ?s1 = "?s0\<lparr>pl_queue := {#7#}, pl_pushed := {#7#}, pl_notify := True\<rparr>"
  let ?s2 = "?s1\<lparr>pl_workers := [Tested]\<rparr>"
  let ?s3 = "?s2\<lparr>pl_queue := {#}, pl_workers := [Running 7]\<rparr>"
  have "pstep ?s0 Producer ?s1" using pstep.enqueue [of ?s0 7] by (simp add: pool_start_def)
  moreover have "pstep ?s1 Worker ?s2" using pstep.enter [of 0 ?s1] by (simp add: pool_start_def)
  moreover have "pstep ?s2 Worker ?s3" using pstep.dequeue [of 0 ?s2 7] by (simp add: pool_start_def)
  ultimately have r: "preach 1 ?s3" by (meson preach.intros)
  have "pl_pushed ?s3 = pl_executed ?s3 + pl_queue ?s3 + {#7#}"
    using pool_conserves [OF r] by (simp add: in_hands_def)
  then show ?thesis using r by (intro exI [of _ ?s3]) (simp add: pool_start_def)
qed

end
