(* ===== verification/Apnic.thy ===== *)
theory Apnic
  imports Xsky_Prelude
begin

text \<open>
  The address database of the controller: the bit map over a mapped file (\<open>controller/mmap.cpp\<close>)
  and its filling from the APNIC delegation list (\<open>controller/apnic.cpp\<close>).

  The mapped memory is a byte list, absent while no file is open. The parser of textual addresses is
  the library's (\<open>asio\<close>) and a parameter; an address it rejects raises and ends the thread
  (\<open>None\<close>). The bytes that arrive from the network are a list of chunks, as \<open>read_some\<close> returns
  them. Words are little-endian where the source reinterprets bytes.

  The lemmas: the bit map as a set of indices, what a list of lines marks, and what the index of an
  address leaves out.
\<close>

section \<open>The bit map\<close>

record mmap =
  mm_address :: "byte list option"

definition mmap_read :: "mmap \<Rightarrow> nat \<Rightarrow> bool option" where
  "mmap_read m index = do {
     mem \<leftarrow> mm_address m;
     b \<leftarrow> byte_at mem (index div 8);
     Some (b AND push_bit (index mod 8) 1 \<noteq> 0)
   }"

definition mmap_write :: "mmap \<Rightarrow> nat \<Rightarrow> bool \<Rightarrow> mmap option" where
  "mmap_write m index v = do {
     mem \<leftarrow> mm_address m;
     b \<leftarrow> byte_at mem (index div 8);
     let b' = (if v then b OR push_bit (index mod 8) 1 else b AND NOT (push_bit (index mod 8) 1));
     Some (m\<lparr>mm_address := Some (mem[index div 8 := b'])\<rparr>)
   }"

text \<open>\<open>open\<close> maps the file's contents, or fails and leaves the map closed; \<open>close\<close> unmaps.\<close>

definition mmap_close :: "mmap \<Rightarrow> mmap" where
  "mmap_close m = m\<lparr>mm_address := None\<rparr>"

definition mmap_open :: "byte list option \<Rightarrow> mmap \<Rightarrow> mmap \<times> bool" where
  "mmap_open file m =
     (let m = mmap_close m in
      case file of None \<Rightarrow> (m, False) | Some mem \<Rightarrow> (m\<lparr>mm_address := Some mem\<rparr>, True))"

section \<open>The database\<close>

record apnic =
  ap_ipv4 :: mmap
  ap_ipv6 :: mmap
  ap_exit :: bool

definition v4_index :: "u32 \<Rightarrow> nat" where
  "v4_index ip = unat (drop_bit 8 (ip AND 0xFFFFFF))"

text \<open>The first 32-bit word of the address, little-endian.\<close>

definition v6_index :: "byte list \<Rightarrow> nat" where
  "v6_index bytes = unat (bytes ! 0) + 256 * unat (bytes ! 1) + 65536 * unat (bytes ! 2) + 16777216 * unat (bytes ! 3)"

definition is_cn4 :: "apnic \<Rightarrow> u32 \<Rightarrow> bool option" where
  "is_cn4 a ip = mmap_read (ap_ipv4 a) (v4_index ip)"

definition is_cn6 :: "apnic \<Rightarrow> byte list \<Rightarrow> bool option" where
  "is_cn6 a ip = mmap_read (ap_ipv6 a) (v6_index ip)"

text \<open>\<open>std::string::find\<close>, of a string and of a character from a position on.\<close>

fun find_from :: "string \<Rightarrow> string \<Rightarrow> nat option" where
  "find_from pat [] = (if pat = [] then Some 0 else None)"
| "find_from pat (c # cs) =
     (if take (length pat) (c # cs) = pat then Some 0 else map_option Suc (find_from pat cs))"

definition find_char :: "char \<Rightarrow> string \<Rightarrow> nat \<Rightarrow> nat option" where
  "find_char c s off = map_option (\<lambda>i. i + off) (find_from [c] (drop off s))"

text \<open>
  One line. \<open>v4_of\<close> and \<open>v6_of\<close> are the address parser's results; a line without the closing bar, or
  cut off before its address, makes the source form an iterator out of range.
\<close>

datatype cn_entry = Cn_v4 u32 | Cn_v6 "byte list" | Cn_none

definition parse_line ::
    "(string \<Rightarrow> u32 option) \<Rightarrow> (string \<Rightarrow> byte list option) \<Rightarrow> string \<Rightarrow> cn_entry option" where
  "parse_line v4_of v6_of line =
     (case find_from ''apnic|CN|ipv'' line of
        None \<Rightarrow> Some Cn_none
      | Some pos \<Rightarrow>
          let pos = pos + 12 in
          if length line < pos + 2 then None
          else do {
            e \<leftarrow> find_char (CHR ''|'') line (pos + 2);
            let ip = take (e - (pos + 2)) (drop (pos + 2) line);
            if line ! pos = CHR ''4'' then map_option Cn_v4 (v4_of ip)
            else if line ! pos = CHR ''6'' then map_option Cn_v6 (v6_of ip)
            else Some Cn_none
          })"

definition mark_entry :: "cn_entry \<Rightarrow> apnic \<Rightarrow> apnic option" where
  "mark_entry e a =
     (case e of
        Cn_none \<Rightarrow> Some a
      | Cn_v4 ip \<Rightarrow> map_option (\<lambda>m. a\<lparr>ap_ipv4 := m\<rparr>) (mmap_write (ap_ipv4 a) (v4_index ip) True)
      | Cn_v6 bytes \<Rightarrow> map_option (\<lambda>m. a\<lparr>ap_ipv6 := m\<rparr>) (mmap_write (ap_ipv6 a) (v6_index bytes) True))"

text \<open>
  The inner loop of \<open>sync\<close>: lines are taken from the buffer until one is empty, the last one also
  when its end has not arrived yet. The result is what stays in the buffer, and the database.
\<close>

definition newline :: char where "newline = CHR 0x0A"

function sync_lines ::
    "(string \<Rightarrow> u32 option) \<Rightarrow> (string \<Rightarrow> byte list option) \<Rightarrow> string \<Rightarrow> apnic \<Rightarrow> (string \<times> apnic) option" where
  "sync_lines v4_of v6_of buf a =
     (let line = takeWhile (\<lambda>c. c \<noteq> newline) buf; rest = drop (Suc (length line)) buf in
      if line = [] then Some (rest, a)
      else do {
        e \<leftarrow> parse_line v4_of v6_of line;
        a \<leftarrow> mark_entry e a;
        sync_lines v4_of v6_of rest a
      })"
  by pat_completeness auto
termination
proof (relation "measure (\<lambda>(v4_of, v6_of, buf, a). length buf)", goal_cases)
  case (2 v4_of v6_of buf a line rest e b)
  then have "buf \<noteq> []" by auto
  then show ?case using 2 by (cases buf) auto
qed simp

declare sync_lines.simps [simp del]

fun sync_chunks ::
    "(string \<Rightarrow> u32 option) \<Rightarrow> (string \<Rightarrow> byte list option) \<Rightarrow> string \<Rightarrow> string list \<Rightarrow> apnic \<Rightarrow> (string \<times> apnic) option" where
  "sync_chunks v4_of v6_of buf [] a = Some (buf, a)"
| "sync_chunks v4_of v6_of buf (chunk # chunks) a = do {
     (buf, a) \<leftarrow> sync_lines v4_of v6_of (buf @ chunk) a;
     sync_chunks v4_of v6_of buf chunks a
   }"

definition apnic_init :: "byte list option \<Rightarrow> byte list option \<Rightarrow> apnic \<Rightarrow> apnic" where
  "apnic_init file4 file6 a =
     a\<lparr>ap_exit := False, ap_ipv4 := fst (mmap_open file4 (ap_ipv4 a)), ap_ipv6 := fst (mmap_open file6 (ap_ipv6 a))\<rparr>"

definition apnic_release :: "apnic \<Rightarrow> apnic" where
  "apnic_release a = a\<lparr>ap_ipv4 := mmap_close (ap_ipv4 a), ap_ipv6 := mmap_close (ap_ipv6 a), ap_exit := True\<rparr>"

section \<open>The bit map as a set\<close>

definition map_bits :: "mmap \<Rightarrow> nat \<Rightarrow> bool" where
  "map_bits m i = (case mm_address m of None \<Rightarrow> False | Some mem \<Rightarrow> bit (mem ! (i div 8)) (i mod 8))"

definition map_size :: "mmap \<Rightarrow> nat" where
  "map_size m = (case mm_address m of None \<Rightarrow> 0 | Some mem \<Rightarrow> 8 * length mem)"

lemma bit_test: "n < 8 \<Longrightarrow> ((b :: byte) AND 2 ^ n = 0) = (\<not> bit b n)"
  by (simp add: bit_iff_and_push_bit_not_eq_0)

lemma mmap_read_bits: "mmap_read m i = (if i < map_size m then Some (map_bits m i) else None)"
  by (auto simp: mmap_read_def map_size_def map_bits_def byte_at_def bit_test less_mult_imp_div_less
      mult.commute split: option.splits)

lemma write_bit: "n < 8 \<Longrightarrow> k < 8 \<Longrightarrow>
   bit (if v then (b :: byte) OR push_bit n 1 else b AND NOT (push_bit n 1)) k = (if k = n then v else bit b k)"
  by (auto simp: bit_simps)

lemma mmap_write_bits:
  assumes "i < map_size m"
  obtains m' where "mmap_write m i v = Some m'" "map_size m' = map_size m"
    "\<And>j. j < map_size m \<Longrightarrow> map_bits m' j = (if j = i then v else map_bits m j)"
proof -
  obtain mem where mem: "mm_address m = Some mem" using assms by (cases "mm_address m") (auto simp: map_size_def)
  have i: "i div 8 < length mem" using assms mem by (simp add: map_size_def less_mult_imp_div_less mult.commute)
  let ?b = "mem ! (i div 8)"
  let ?b' = "if v then ?b OR push_bit (i mod 8) 1 else ?b AND NOT (push_bit (i mod 8) 1)"
  let ?m = "m\<lparr>mm_address := Some (mem[i div 8 := ?b'])\<rparr>"
  have "mmap_write m i v = Some ?m" using mem i by (simp add: mmap_write_def byte_at_def Let_def)
  moreover have "map_size ?m = map_size m" by (simp add: map_size_def mem)
  moreover have "map_bits ?m j = (if j = i then v else map_bits m j)" if "j < map_size m" for j
  proof (cases "j div 8 = i div 8")
    case True
    then have "j = i \<longleftrightarrow> j mod 8 = i mod 8" by (metis div_mult_mod_eq)
    moreover have "map_bits ?m j = bit ?b' (j mod 8)" using True i by (simp add: map_bits_def)
    moreover have "bit ?b' (j mod 8) = (if j mod 8 = i mod 8 then v else bit ?b (j mod 8))"
      by (rule write_bit) simp_all
    ultimately show ?thesis using True mem by (simp add: map_bits_def)
  next
    case False
    then show ?thesis using mem by (auto simp: map_bits_def)
  qed
  ultimately show ?thesis using that by blast
qed

section \<open>What a list of lines marks\<close>

definition db_ok :: "apnic \<Rightarrow> bool" where
  "db_ok a \<longleftrightarrow> 65536 \<le> map_size (ap_ipv4 a) \<and> 2 ^ 32 \<le> map_size (ap_ipv6 a)"

lemma v4_index_lt: "v4_index ip < 65536"
proof -
  have "(0xFFFFFF :: u32) = mask 24" by (simp add: mask_eq_exp_minus_1)
  then have "drop_bit 8 (ip AND 0xFFFFFF) = drop_bit 8 (take_bit 24 ip)" by (simp only: take_bit_eq_mask)
  also have "\<dots> = take_bit 16 (drop_bit 8 ip)" by (simp add: drop_bit_take_bit)
  finally have "v4_index ip = take_bit 16 (unat (drop_bit 8 ip))"
    unfolding v4_index_def by (simp only: unsigned_take_bit_eq)
  then show ?thesis by (simp add: take_bit_eq_mod)
qed

lemma v6_index_lt: "v6_index bs < 2 ^ 32"
proof -
  have "unat (bs ! k) < 256" for k using unsigned_less [of "bs ! k", where ?'a = nat] by simp
  from this [of 0] this [of 1] this [of 2] this [of 3] show ?thesis by (simp add: v6_index_def)
qed

fun entry_marks4 :: "nat \<Rightarrow> cn_entry \<Rightarrow> bool" where
  "entry_marks4 i (Cn_v4 ip) \<longleftrightarrow> i = v4_index ip"
| "entry_marks4 i e \<longleftrightarrow> False"

fun entry_marks6 :: "nat \<Rightarrow> cn_entry \<Rightarrow> bool" where
  "entry_marks6 i (Cn_v6 ip) \<longleftrightarrow> i = v6_index ip"
| "entry_marks6 i e \<longleftrightarrow> False"

lemma mark_entry_ok:
  assumes "db_ok a"
  obtains a' where "mark_entry e a = Some a'" "db_ok a'"
    "\<And>i. i < 65536 \<Longrightarrow> map_bits (ap_ipv4 a') i = (map_bits (ap_ipv4 a) i \<or> entry_marks4 i e)"
    "\<And>i. i < 2 ^ 32 \<Longrightarrow> map_bits (ap_ipv6 a') i = (map_bits (ap_ipv6 a) i \<or> entry_marks6 i e)"
proof (cases e)
  case (Cn_v4 ip)
  have "v4_index ip < map_size (ap_ipv4 a)" using assms v4_index_lt [of ip] by (simp add: db_ok_def)
  then obtain m where "mmap_write (ap_ipv4 a) (v4_index ip) True = Some m" "map_size m = map_size (ap_ipv4 a)"
    "\<And>j. j < map_size (ap_ipv4 a) \<Longrightarrow> map_bits m j = (if j = v4_index ip then True else map_bits (ap_ipv4 a) j)"
    by (rule mmap_write_bits) blast
  then show ?thesis using that [of "a\<lparr>ap_ipv4 := m\<rparr>"] assms Cn_v4 by (auto simp: mark_entry_def db_ok_def)
next
  case (Cn_v6 ip)
  have "v6_index ip < map_size (ap_ipv6 a)" using assms v6_index_lt [of ip] by (simp add: db_ok_def)
  then obtain m where "mmap_write (ap_ipv6 a) (v6_index ip) True = Some m" "map_size m = map_size (ap_ipv6 a)"
    "\<And>j. j < map_size (ap_ipv6 a) \<Longrightarrow> map_bits m j = (if j = v6_index ip then True else map_bits (ap_ipv6 a) j)"
    by (rule mmap_write_bits) blast
  then show ?thesis using that [of "a\<lparr>ap_ipv6 := m\<rparr>"] assms Cn_v6 by (auto simp: mark_entry_def db_ok_def)
next
  case Cn_none
  then show ?thesis using that [of a] assms by (simp add: mark_entry_def)
qed

text \<open>A text of complete lines, none of them empty.\<close>

definition whole_lines :: "string list \<Rightarrow> bool" where
  "whole_lines ls \<longleftrightarrow> (\<forall>l \<in> set ls. l \<noteq> [] \<and> newline \<notin> set l)"

definition unlines :: "string list \<Rightarrow> string" where
  "unlines ls = concat (map (\<lambda>l. l @ [newline]) ls)"

lemma takeWhile_line: "newline \<notin> set l \<Longrightarrow> takeWhile (\<lambda>c. c \<noteq> newline) (l @ newline # r) = l"
  by (induction l) auto

lemma sync_lines_cons:
  assumes "l \<noteq> []" "newline \<notin> set l"
  shows "sync_lines v4_of v6_of (l @ newline # r) a = do {
     e \<leftarrow> parse_line v4_of v6_of l; a \<leftarrow> mark_entry e a; sync_lines v4_of v6_of r a }"
  using assms by (subst sync_lines.simps) (simp add: takeWhile_line Let_def)

lemma sync_lines_nil: "sync_lines v4_of v6_of [] a = Some ([], a)"
  by (subst sync_lines.simps) simp

lemma sync_lines_last:
  assumes "l \<noteq> []" "newline \<notin> set l"
  shows "sync_lines v4_of v6_of l a = do { e \<leftarrow> parse_line v4_of v6_of l; a \<leftarrow> mark_entry e a; Some ([], a) }"
proof -
  have "takeWhile (\<lambda>c. c \<noteq> newline) l = l" using assms(2) by (induction l) auto
  moreover have "sync_lines v4_of v6_of [] = (\<lambda>a. Some ([], a))" by (rule ext) (rule sync_lines_nil)
  ultimately show ?thesis using assms(1)
    by (subst sync_lines.simps) (simp only: Let_def if_False drop_all le_SucI order.refl)
qed

lemma sync_lines_marks:
  assumes "db_ok a" "whole_lines ls" "\<forall>l \<in> set ls. parse_line v4_of v6_of l \<noteq> None"
  obtains a' where "sync_lines v4_of v6_of (unlines ls) a = Some ([], a')" "db_ok a'"
    "\<And>i. i < 65536 \<Longrightarrow> map_bits (ap_ipv4 a') i =
       (map_bits (ap_ipv4 a) i \<or> (\<exists>l \<in> set ls. entry_marks4 i (the (parse_line v4_of v6_of l))))"
    "\<And>i. i < 2 ^ 32 \<Longrightarrow> map_bits (ap_ipv6 a') i =
       (map_bits (ap_ipv6 a) i \<or> (\<exists>l \<in> set ls. entry_marks6 i (the (parse_line v4_of v6_of l))))"
proof -
  have "\<exists>a'. sync_lines v4_of v6_of (unlines ls) a = Some ([], a') \<and> db_ok a' \<and>
    (\<forall>i < 65536. map_bits (ap_ipv4 a') i =
       (map_bits (ap_ipv4 a) i \<or> (\<exists>l \<in> set ls. entry_marks4 i (the (parse_line v4_of v6_of l))))) \<and>
    (\<forall>i < 2 ^ 32. map_bits (ap_ipv6 a') i =
       (map_bits (ap_ipv6 a) i \<or> (\<exists>l \<in> set ls. entry_marks6 i (the (parse_line v4_of v6_of l)))))"
    using assms
  proof (induction ls arbitrary: a)
    case Nil
    then show ?case by (simp add: unlines_def sync_lines_nil)
  next
    case (Cons l ls)
    obtain e where e: "parse_line v4_of v6_of l = Some e" using Cons.prems(3) by auto
    obtain b where b: "mark_entry e a = Some b" "db_ok b"
      "\<And>i. i < 65536 \<Longrightarrow> map_bits (ap_ipv4 b) i = (map_bits (ap_ipv4 a) i \<or> entry_marks4 i e)"
      "\<And>i. i < 2 ^ 32 \<Longrightarrow> map_bits (ap_ipv6 b) i = (map_bits (ap_ipv6 a) i \<or> entry_marks6 i e)"
      by (rule mark_entry_ok [OF Cons.prems(1)]) blast
    have "l \<noteq> []" "newline \<notin> set l" using Cons.prems(2) by (simp_all add: whole_lines_def)
    then have step: "sync_lines v4_of v6_of (unlines (l # ls)) a = sync_lines v4_of v6_of (unlines ls) b"
      using e b(1) by (simp add: unlines_def sync_lines_cons)
    have "whole_lines ls" "\<forall>l \<in> set ls. parse_line v4_of v6_of l \<noteq> None"
      using Cons.prems by (simp_all add: whole_lines_def)
    from Cons.IH [OF b(2) this] show ?case unfolding step using b(3,4) e by auto
  qed
  then show ?thesis using that by blast
qed

lemma sync_chunks_whole:
  assumes "db_ok a" "\<forall>ls \<in> set lss. whole_lines ls \<and> (\<forall>l \<in> set ls. parse_line v4_of v6_of l \<noteq> None)"
  shows "\<exists>a'. sync_chunks v4_of v6_of [] (map unlines lss) a = Some ([], a') \<and> db_ok a' \<and>
    (\<forall>i < 65536. map_bits (ap_ipv4 a') i =
       (map_bits (ap_ipv4 a) i \<or> (\<exists>l \<in> set (concat lss). entry_marks4 i (the (parse_line v4_of v6_of l))))) \<and>
    (\<forall>i < 2 ^ 32. map_bits (ap_ipv6 a') i =
       (map_bits (ap_ipv6 a) i \<or> (\<exists>l \<in> set (concat lss). entry_marks6 i (the (parse_line v4_of v6_of l)))))"
  using assms
proof (induction lss arbitrary: a)
  case (Cons ls lss)
  have ls: "whole_lines ls" "\<forall>l \<in> set ls. parse_line v4_of v6_of l \<noteq> None" using Cons.prems(2) by simp_all
  obtain b where b: "sync_lines v4_of v6_of (unlines ls) a = Some ([], b)" "db_ok b"
    "\<And>i. i < 65536 \<Longrightarrow> map_bits (ap_ipv4 b) i =
       (map_bits (ap_ipv4 a) i \<or> (\<exists>l \<in> set ls. entry_marks4 i (the (parse_line v4_of v6_of l))))"
    "\<And>i. i < 2 ^ 32 \<Longrightarrow> map_bits (ap_ipv6 b) i =
       (map_bits (ap_ipv6 a) i \<or> (\<exists>l \<in> set ls. entry_marks6 i (the (parse_line v4_of v6_of l))))"
    by (rule sync_lines_marks [OF Cons.prems(1) ls]) blast
  obtain c where "sync_chunks v4_of v6_of [] (map unlines lss) b = Some ([], c)" "db_ok c"
    "\<forall>i < 65536. map_bits (ap_ipv4 c) i =
       (map_bits (ap_ipv4 b) i \<or> (\<exists>l \<in> set (concat lss). entry_marks4 i (the (parse_line v4_of v6_of l))))"
    "\<forall>i < 2 ^ 32. map_bits (ap_ipv6 c) i =
       (map_bits (ap_ipv6 b) i \<or> (\<exists>l \<in> set (concat lss). entry_marks6 i (the (parse_line v4_of v6_of l))))"
    using Cons.IH [OF b(2)] Cons.prems(2) by auto
  then show ?case using b by (intro exI [of _ c]) auto
qed simp

section \<open>Properties\<close>

text \<open>The bit map is a set of indices. Within the mapped size, writing an index changes the answer
of reading that index to the written value and of no other; outside it both operations leave the map.\<close>

theorem mmap_read_write:
  "if i < map_size m then (\<exists>m'. mmap_write m i v = Some m' \<and> map_size m' = map_size m \<and>
      (\<forall>j. mmap_read m' j = (if j = i then Some v else mmap_read m j)))
   else mmap_write m i v = None \<and> mmap_read m i = None"
proof (cases "i < map_size m")
  case True
  obtain m' where "mmap_write m i v = Some m'" "map_size m' = map_size m"
    "\<And>j. j < map_size m \<Longrightarrow> map_bits m' j = (if j = i then v else map_bits m j)"
    by (rule mmap_write_bits [OF True]) blast
  then show ?thesis using True by (auto simp: mmap_read_bits)
next
  case False
  then show ?thesis
    by (auto simp: mmap_read_bits mmap_write_def map_size_def byte_at_def less_mult_imp_div_less not_less
        dest: div_le_mono [where k = 8] split: option.splits)
qed


text \<open>The first octet does not count. Two IPv4 addresses whose second and third octets agree get
the same answer from the database, whatever their first octets and the text it was filled from.\<close>

theorem first_octet_ignored:
  assumes "drop_bit 8 (take_bit 24 ip) = drop_bit 8 (take_bit 24 ip')"
  shows "is_cn4 a ip = is_cn4 a ip'"
proof -
  have "(0xFFFFFF :: u32) = mask 24" by (simp add: mask_eq_exp_minus_1)
  then have "v4_index x = unat (drop_bit 8 (take_bit 24 x))" for x
    unfolding v4_index_def by (simp only: take_bit_eq_mask)
  then show ?thesis using assms by (simp add: is_cn4_def)
qed

definition cn_record :: string where "cn_record = ''apnic|CN|ipv4|1.0.1.0|256''"

text \<open>A record cut by the end of a chunk. The text of one CN record marks its address when it arrives
in one chunk; split inside the record type, neither half is recognised and nothing is marked.\<close>

theorem split_record_lost:
  "parse_line (\<lambda>_. Some 0x01000100) (\<lambda>_. None) cn_record = Some (Cn_v4 0x01000100) \<and>
   sync_chunks (\<lambda>_. Some 0x01000100) (\<lambda>_. None) [] [take 8 cn_record, drop 8 cn_record @ [newline]] a = Some ([], a)"
proof -
  have p: "parse_line (\<lambda>_. Some 0x01000100) (\<lambda>_. None) cn_record = Some (Cn_v4 0x01000100)"
    by (simp add: parse_line_def cn_record_def find_char_def)
  have h: "parse_line (\<lambda>_. Some 0x01000100) (\<lambda>_. None) (take 8 cn_record) = Some Cn_none"
    "parse_line (\<lambda>_. Some 0x01000100) (\<lambda>_. None) (drop 8 cn_record) = Some Cn_none"
    by (simp_all add: parse_line_def cn_record_def)
  have n: "newline \<notin> set (take 8 cn_record)" "newline \<notin> set (drop 8 cn_record)" "take 8 cn_record \<noteq> []" "drop 8 cn_record \<noteq> []"
    by (simp_all add: cn_record_def newline_def)
  have "sync_lines (\<lambda>_. Some 0x01000100) (\<lambda>_. None) (take 8 cn_record) a = Some ([], a)"
    using h(1) n(1,3) by (simp only: sync_lines_last [OF n(3,1)] mark_entry_def bind.bind_lunit cn_entry.case)
  moreover have "sync_lines (\<lambda>_. Some 0x01000100) (\<lambda>_. None) (drop 8 cn_record @ [newline]) a = Some ([], a)"
    using h(2) n(2,4) by (simp add: sync_lines_cons mark_entry_def sync_lines_nil)
  ultimately show ?thesis using p by simp
qed

section \<open>A concrete database\<close>

definition blank_map :: "nat \<Rightarrow> mmap" where "blank_map n = \<lparr>mm_address = Some (replicate n 0)\<rparr>"

lemma blank_map_bits: "map_size (blank_map n) = 8 * n" "i < 8 * n \<Longrightarrow> \<not> map_bits (blank_map n) i"
  by (simp_all add: blank_map_def map_size_def map_bits_def less_mult_imp_div_less mult.commute)

definition blank_db :: apnic where
  "blank_db = \<lparr>ap_ipv4 = blank_map 8192, ap_ipv6 = blank_map (2 ^ 29), ap_exit = False\<rparr>"


theorem first_octet_ignored_witness: "is_cn4 blank_db 0x01020304 = is_cn4 blank_db 0xC8020304"
  by (rule first_octet_ignored) simp

end
