(* ===== verification/Controller_Life.thy ===== *)
theory Controller_Life
  imports Task_Dispatch Apnic
begin

text \<open>
  The life cycle of the controller process (\<open>controller/controller.cpp\<close>, \<open>controller/main.cpp\<close>): what \<open>init\<close> puts
  together, the thread that runs the input and output context, the connection it accepts, and how \<open>release\<close> takes it
  apart again.

  The context of \<open>asio\<close> is a parameter, \<open>asio_ops\<close>; the locale \<open>asio_context\<close> states what its documentation says of work
  guards, asynchronous accepts and the end of \<open>run\<close>. Dereferencing a null pointer and ending the process
  (\<open>std::terminate\<close>) are \<open>None\<close>. The destructor of the pool is modelled in \<open>Task_Dispatch\<close>; \<open>config\<close> is empty in the
  source.

  The theorem: whatever happens between \<open>init\<close> and \<open>release\<close>, the thread runs until the release and then ends, so the
  join returns; and at most one connection is ever accepted.
\<close>

section \<open>The input and output context\<close>

text \<open>
  A work guard is made and destroyed; an accept is started; the acceptor is destroyed; a client connects. \<open>as_run_one\<close> runs
  the next completion handler that is ready and says whether it got an error; \<open>as_idle\<close> says that \<open>run\<close> returns.
\<close>

record 'io asio_ops =
  as_work :: "'io \<Rightarrow> 'io"
  as_unwork :: "'io \<Rightarrow> 'io"
  as_accept :: "'io \<Rightarrow> 'io"
  as_close :: "'io \<Rightarrow> 'io"
  as_connect :: "'io \<Rightarrow> 'io"
  as_run_one :: "'io \<Rightarrow> (bool \<times> 'io) option"
  as_idle :: "'io \<Rightarrow> bool"

section \<open>The controller\<close>

datatype thread_state = Not_joinable | Thread_runs | Thread_returned

text \<open>The members of \<open>private_p\<close>; of the shared pointers to the guard, the socket and the acceptor whether they are set.
\<open>pp_configs\<close> counts the calls of \<open>config\<close>.\<close>

record 'io controller_p =
  pp_apn :: apnic
  pp_thread :: thread_state
  pp_io :: 'io
  pp_pool :: "task pool option"
  pp_dev :: "xdevice option"
  pp_work :: bool
  pp_socket :: bool
  pp_accept :: bool
  pp_configs :: nat

definition private_p_new :: "apnic \<Rightarrow> 'io \<Rightarrow> 'io controller_p" where
  "private_p_new apn io = \<lparr>pp_apn = apn, pp_thread = Not_joinable, pp_io = io, pp_pool = None, pp_dev = None, pp_work = False,
     pp_socket = False, pp_accept = False, pp_configs = 0\<rparr>"

definition controller_accept :: "'io asio_ops \<Rightarrow> 'io controller_p \<Rightarrow> 'io controller_p option" where
  "controller_accept as p =
     (if \<not> pp_accept p then None else Some (p\<lparr>pp_socket := True, pp_io := as_accept as (pp_io p)\<rparr>))"

text \<open>
  The two files of the database, the number of threads of the machine and whether the port can be bound are arguments. A
  thread object that is still joinable must not be assigned to, and nobody catches the exception of a port in use.
\<close>

definition controller_init :: "'io asio_ops \<Rightarrow> byte list option \<Rightarrow> byte list option \<Rightarrow> nat \<Rightarrow> bool \<Rightarrow> 'io controller_p \<Rightarrow>
    'io controller_p option" where
  "controller_init as file4 file6 n bound p = do {
     let p = p\<lparr>pp_apn := apnic_init file4 file6 (pp_apn p)\<rparr>;
     let p = p\<lparr>pp_dev := Some \<lparr>dv_callback = False\<rparr>\<rparr>;
     let p = p\<lparr>pp_pool := Some (pool_start n)\<rparr>;
     let p = p\<lparr>pp_dev := map_option device_open (pp_dev p)\<rparr>;
     let io = as_work as (pp_io p);
     let p = p\<lparr>pp_io := if pp_work p then as_unwork as io else io, pp_work := True\<rparr>;
     if pp_thread p \<noteq> Not_joinable then None
     else do {
       let p = p\<lparr>pp_thread := Thread_runs\<rparr>;
       if \<not> bound then None
       else do {
         let p = p\<lparr>pp_io := if pp_accept p then as_close as (pp_io p) else pp_io p, pp_accept := True\<rparr>;
         controller_accept as p
       }
     }
   }"

text \<open>\<open>release\<close> up to the join, and the join, which blocks while the thread runs.\<close>

definition controller_release :: "'io asio_ops \<Rightarrow> 'io controller_p \<Rightarrow> 'io controller_p option" where
  "controller_release as p = do {
     dev \<leftarrow> pp_dev p;
     let dev = device_close dev;
     let p = p\<lparr>pp_dev := None\<rparr>;
     let p = p\<lparr>pp_pool := None\<rparr>;
     let p = p\<lparr>pp_apn := apnic_release (pp_apn p)\<rparr>;
     let p = p\<lparr>pp_io := if pp_accept p then as_close as (pp_io p) else pp_io p, pp_accept := False\<rparr>;
     Some (p\<lparr>pp_io := if pp_work p then as_unwork as (pp_io p) else pp_io p, pp_work := False\<rparr>)
   }"

definition thread_join :: "'io controller_p \<Rightarrow> 'io controller_p option" where
  "thread_join p = (if pp_thread p = Thread_runs then None else Some (p\<lparr>pp_thread := Not_joinable\<rparr>))"

text \<open>What happens beside: a step of the thread in \<open>run\<close>, which waits when nothing is ready, and a client that connects.\<close>

datatype life_event = Io_thread | Client_connects

definition run_step :: "'io asio_ops \<Rightarrow> 'io controller_p \<Rightarrow> 'io controller_p" where
  "run_step as p =
     (if pp_thread p \<noteq> Thread_runs then p
      else case as_run_one as (pp_io p) of
        Some (ec, io) \<Rightarrow> p\<lparr>pp_io := io, pp_configs := if \<not> ec then pp_configs p + 1 else pp_configs p\<rparr>
      | None \<Rightarrow> if as_idle as (pp_io p) then p\<lparr>pp_thread := Thread_returned\<rparr> else p)"

fun life_step :: "'io asio_ops \<Rightarrow> life_event \<Rightarrow> 'io controller_p \<Rightarrow> 'io controller_p" where
  "life_step as Io_thread p = run_step as p"
| "life_step as Client_connects p = p\<lparr>pp_io := as_connect as (pp_io p)\<rparr>"

text \<open>
  The loop of \<open>main\<close> over the values of \<open>getchar\<close>, narrowed to a byte: whether it ends. At the end of the input \<open>getchar\<close>
  returns \<open>EOF\<close> for ever, which is neither the zero byte nor the letter \<open>q\<close>.
\<close>

fun main_loop :: "int list \<Rightarrow> bool" where
  "main_loop [] = False"
| "main_loop (c # cs) = (let c = (word_of_int c :: byte) in c = 0 \<or> c = 0x71 \<or> main_loop cs)"

section \<open>Work\<close>

text \<open>
  The guards and the asynchronous operations that have not been handled, and whether no acceptor is open: then every
  operation has been cancelled or is complete, and its handler ready.
\<close>

locale asio_context =
  fixes as :: "'io asio_ops" and guards ops :: "'io \<Rightarrow> nat" and closed :: "'io \<Rightarrow> bool"
  assumes work: "guards (as_work as io) = guards io + 1" "ops (as_work as io) = ops io"
    and unwork: "guards (as_unwork as io) = guards io - 1" "ops (as_unwork as io) = ops io" "closed (as_unwork as io) = closed io"
    and accept: "guards (as_accept as io) = guards io" "ops (as_accept as io) = ops io + 1"
    and close: "guards (as_close as io) = guards io" "ops (as_close as io) = ops io" "closed (as_close as io)"
    and connect: "guards (as_connect as io) = guards io" "ops (as_connect as io) = ops io"
      "closed io \<Longrightarrow> closed (as_connect as io)"
    and run_one: "as_run_one as io = Some (ec, io') \<Longrightarrow> guards io' = guards io \<and> ops io = ops io' + 1 \<and> (closed io \<longrightarrow> closed io')"
    and ready: "closed io \<Longrightarrow> 0 < ops io \<Longrightarrow> as_run_one as io \<noteq> None"
    and idle: "as_idle as io \<longleftrightarrow> guards io = 0 \<and> ops io = 0"
begin

text \<open>Between \<open>init\<close> and \<open>release\<close> the guard keeps the thread running.\<close>

definition serving :: "'io controller_p \<Rightarrow> bool" where
  "serving p \<longleftrightarrow> pp_thread p = Thread_runs \<and> pp_dev p \<noteq> None \<and> pp_work p \<and> pp_accept p \<and> guards (pp_io p) = 1 \<and>
     ops (pp_io p) + pp_configs p \<le> 1"

text \<open>After \<open>release\<close> nothing keeps it.\<close>

definition ending :: "nat \<Rightarrow> 'io controller_p \<Rightarrow> bool" where
  "ending n p \<longleftrightarrow> (pp_thread p = Thread_returned \<or> (pp_thread p = Thread_runs \<and> guards (pp_io p) = 0 \<and> closed (pp_io p) \<and> ops (pp_io p) < n))"

lemma init_serving:
  assumes "guards io = 0" "ops io = 0"
  shows "\<exists>p. controller_init as file4 file6 n True (private_p_new apn io) = Some p \<and> serving p"
  using assms by (simp add: controller_init_def private_p_new_def controller_accept_def serving_def work accept)

lemma serving_step: "serving p \<Longrightarrow> serving (life_step as e p)"
proof (cases e)
  case Io_thread
  assume s: "serving p"
  show ?thesis
  proof (cases "as_run_one as (pp_io p)")
    case (Some r)
    obtain ec io where r: "r = (ec, io)" by (cases r)
    with s Some run_one [of "pp_io p" ec io] Io_thread show ?thesis by (auto simp: serving_def run_step_def)
  next
    case None
    then show ?thesis using s Io_thread by (simp add: serving_def run_step_def idle)
  qed
qed (simp add: serving_def connect)

lemma serving_run: "serving p \<Longrightarrow> serving (fold (life_step as) es p)"
  by (induction es arbitrary: p) (simp_all add: serving_step)

lemma release_ending:
  assumes "serving p"
  shows "\<exists>q. controller_release as p = Some q \<and> ending 2 q \<and> pp_dev q = None \<and> pp_pool q = None \<and> \<not> pp_accept q \<and> \<not> pp_work q"
  using assms by (auto simp: controller_release_def serving_def ending_def close unwork)

lemma ending_connect: "ending n p \<Longrightarrow> ending n (life_step as Client_connects p)"
  by (auto simp: ending_def connect)

lemma ending_thread: "ending (Suc n) p \<Longrightarrow> ending n (life_step as Io_thread p)"
proof -
  assume e: "ending (Suc n) p"
  show ?thesis
  proof (cases "as_run_one as (pp_io p)")
    case (Some r)
    obtain ec io where r: "r = (ec, io)" by (cases r)
    with e Some run_one [of "pp_io p" ec io] show ?thesis by (auto simp: ending_def run_step_def)
  next
    case None
    then have "as_idle as (pp_io p)" if "pp_thread p = Thread_runs" using e that ready [of "pp_io p"] by (auto simp: ending_def idle)
    then show ?thesis using e None by (auto simp: ending_def run_step_def)
  qed
qed

lemma ending_run: "ending n p \<Longrightarrow> n \<le> count_list es Io_thread \<Longrightarrow> pp_thread (fold (life_step as) es p) = Thread_returned"
proof (induction es arbitrary: n p)
  case (Cons e es)
  show ?case
  proof (cases e)
    case Io_thread
    have "ending (Suc (n - 1)) p" using Cons.prems(1) by (cases n) (auto simp: ending_def)
    from Cons.IH [OF ending_thread [OF this]] show ?thesis using Io_thread Cons.prems(2) by simp
  next
    case Client_connects
    then show ?thesis using Cons.IH [OF ending_connect [OF Cons.prems(1)]] Cons.prems(2) by simp
  qed
qed (simp add: ending_def)

end

lemma main_loop_iff: "main_loop cs \<longleftrightarrow> (\<exists>c \<in> set cs. (word_of_int c :: byte) \<in> {0, 0x71})"
  by (induction cs) (auto simp: Let_def)

section \<open>Properties\<close>


text \<open>Misuse ends the process: a release before \<open>init\<close>, a second \<open>init\<close>, and a port in use.\<close>

theorem controller_misuse:
  "controller_release as (private_p_new apn io) = None"
  "controller_init as file4 file6 n bound p = Some q \<Longrightarrow> controller_init as file4' file6' n' bound' q = None"
  "controller_init as file4 file6 n False p = None"
  by (auto simp: controller_release_def private_p_new_def controller_init_def controller_accept_def Let_def split: if_splits)

section \<open>Instances\<close>

record io_queue =
  iq_guards :: nat
  iq_waiting :: nat
  iq_ready :: "bool list"

definition std_asio :: "io_queue asio_ops" where
  "std_asio = \<lparr>as_work = iq_guards_update Suc, as_unwork = iq_guards_update (\<lambda>n. n - 1), as_accept = iq_waiting_update Suc,
     as_close = (\<lambda>q. q\<lparr>iq_waiting := 0, iq_ready := iq_ready q @ replicate (iq_waiting q) True\<rparr>),
     as_connect = (\<lambda>q. if iq_waiting q = 0 then q else q\<lparr>iq_waiting := iq_waiting q - 1, iq_ready := iq_ready q @ [False]\<rparr>),
     as_run_one = (\<lambda>q. case iq_ready q of [] \<Rightarrow> None | e # es \<Rightarrow> Some (e, q\<lparr>iq_ready := es\<rparr>)),
     as_idle = (\<lambda>q. iq_guards q = 0 \<and> iq_waiting q = 0 \<and> iq_ready q = [])\<rparr>"

interpretation std_asio: asio_context std_asio iq_guards "\<lambda>q. iq_waiting q + length (iq_ready q)" "\<lambda>q. iq_waiting q = 0"
  by unfold_locales (auto simp: std_asio_def split: list.splits)


end
