(* ===== verification/Hex_Buffer.thy ===== *)
theory Hex_Buffer
  imports Xsky_Prelude
begin

text \<open>
  The three buffers behind the client's hex view (\<open>client/QHexView/document/buffer/\<close>): bytes in memory,
  a \<open>QBuffer\<close> and a \<open>QFile\<close>. Offsets are \<open>qint64\<close>, lengths \<open>int\<close>; the memory buffer casts an offset to
  \<open>int\<close>.

  Qt is third-party code: the operations of \<open>QByteArray\<close> and of the devices that the sources call are
  the fields of \<open>qt_env\<close>, and the locales \<open>qbytearray\<close> and \<open>qiodevice\<close> state their documented behaviour
  for the arguments in range. A \<open>QByteArray\<close> is its list of bytes; a device is its bytes and its position.

  The lemmas: the memory buffer is a list of bytes under insertion, removal and reading, and what
  the searches of the three buffers find.
\<close>

section \<open>Qt\<close>

record qdevice =
  dv_bytes :: "byte list"
  dv_pos :: int

record qt_env =
  qb_insert :: "byte list \<Rightarrow> int \<Rightarrow> byte list \<Rightarrow> byte list"
  qb_remove :: "byte list \<Rightarrow> int \<Rightarrow> int \<Rightarrow> byte list"
  qb_mid :: "byte list \<Rightarrow> int \<Rightarrow> int \<Rightarrow> byte list"
  qb_indexOf :: "byte list \<Rightarrow> byte list \<Rightarrow> int \<Rightarrow> int"
  qb_lastIndexOf :: "byte list \<Rightarrow> byte list \<Rightarrow> int \<Rightarrow> int"
  qb_toHex :: "byte list \<Rightarrow> byte list"
  qb_toUpper :: "byte list \<Rightarrow> byte list"
  qb_fromHex :: "byte list \<Rightarrow> byte list"
  qd_seek :: "qdevice \<Rightarrow> int \<Rightarrow> qdevice"
  qd_read :: "qdevice \<Rightarrow> int \<Rightarrow> byte list \<times> qdevice"
  qd_getChar :: "qdevice \<Rightarrow> byte option \<times> qdevice"

text \<open>Hexadecimal digits in ASCII. \<open>pair_digits\<close> reads an even number of them two by two.\<close>

definition hex_digit :: "nat \<Rightarrow> byte" where
  "hex_digit n = (if n < 10 then of_nat (48 + n) else of_nat (87 + n))"

definition upper_byte :: "byte \<Rightarrow> byte" where
  "upper_byte c = (if 97 \<le> unat c \<and> unat c \<le> 122 then c - 32 else c)"

definition digit_value :: "byte \<Rightarrow> nat option" where
  "digit_value c =
     (if 48 \<le> unat c \<and> unat c \<le> 57 then Some (unat c - 48)
      else if 97 \<le> unat c \<and> unat c \<le> 102 then Some (unat c - 87)
      else if 65 \<le> unat c \<and> unat c \<le> 70 then Some (unat c - 55) else None)"

fun pair_digits :: "nat list \<Rightarrow> byte list" where
  "pair_digits (h # l # ds) = of_nat (16 * h + l) # pair_digits ds"
| "pair_digits ds = []"

text \<open>\<open>pat\<close> stands in \<open>a\<close> at index \<open>k\<close>.\<close>

definition occurs_at :: "byte list \<Rightarrow> byte list \<Rightarrow> nat \<Rightarrow> bool" where
  "occurs_at pat a k \<longleftrightarrow> k + length pat \<le> length a \<and> take (length pat) (drop k a) = pat"

text \<open>\<open>r\<close> is the first occurrence from \<open>from\<close> on, the last one not behind \<open>from\<close>; or -1 and there is none.\<close>

definition first_from :: "byte list \<Rightarrow> byte list \<Rightarrow> nat \<Rightarrow> int \<Rightarrow> bool" where
  "first_from pat a from_pos r \<longleftrightarrow>
     (if r = - 1 then \<forall>k. from_pos \<le> k \<longrightarrow> \<not> occurs_at pat a k
      else 0 \<le> r \<and> from_pos \<le> nat r \<and> occurs_at pat a (nat r) \<and> (\<forall>k. from_pos \<le> k \<longrightarrow> k < nat r \<longrightarrow> \<not> occurs_at pat a k))"

definition last_upto :: "byte list \<Rightarrow> byte list \<Rightarrow> nat \<Rightarrow> int \<Rightarrow> bool" where
  "last_upto pat a from_pos r \<longleftrightarrow>
     (if r = - 1 then \<forall>k. k \<le> from_pos \<longrightarrow> \<not> occurs_at pat a k
      else 0 \<le> r \<and> nat r \<le> from_pos \<and> occurs_at pat a (nat r) \<and> (\<forall>k. nat r < k \<longrightarrow> k \<le> from_pos \<longrightarrow> \<not> occurs_at pat a k))"

locale qbytearray =
  fixes qt :: qt_env
  assumes insert_in: "0 \<le> i \<Longrightarrow> i \<le> int (length a) \<Longrightarrow> qb_insert qt a i d = take (nat i) a @ d @ drop (nat i) a"
    and remove_in: "0 \<le> i \<Longrightarrow> i < int (length a) \<Longrightarrow> 0 \<le> n \<Longrightarrow>
      qb_remove qt a i n = take (nat i) a @ drop (nat i + nat n) a"
    and remove_out: "int (length a) \<le> i \<Longrightarrow> qb_remove qt a i n = a"
    and mid_in: "0 \<le> i \<Longrightarrow> 0 \<le> n \<Longrightarrow> qb_mid qt a i n = take (nat n) (drop (nat i) a)"
    and indexOf_in: "0 \<le> i \<Longrightarrow> pat \<noteq> [] \<Longrightarrow> first_from pat a (nat i) (qb_indexOf qt a pat i)"
    and lastIndexOf_in: "0 \<le> i \<Longrightarrow> pat \<noteq> [] \<Longrightarrow> last_upto pat a (nat i) (qb_lastIndexOf qt a pat i)"

locale qiodevice =
  fixes qt :: qt_env
  assumes seek_in: "0 \<le> i \<Longrightarrow> i \<le> int (length (dv_bytes d)) \<Longrightarrow> qd_seek qt d i = d\<lparr>dv_pos := i\<rparr>"
    and read_in: "0 \<le> dv_pos d \<Longrightarrow> dv_pos d \<le> int (length (dv_bytes d)) \<Longrightarrow> 0 \<le> n \<Longrightarrow>
      qd_read qt d n = (let bs = take (nat n) (drop (nat (dv_pos d)) (dv_bytes d)) in (bs, d\<lparr>dv_pos := dv_pos d + int (length bs)\<rparr>))"
    and getChar_in: "0 \<le> dv_pos d \<Longrightarrow> dv_pos d < int (length (dv_bytes d)) \<Longrightarrow>
      qd_getChar qt d = (Some (dv_bytes d ! nat (dv_pos d)), d\<lparr>dv_pos := dv_pos d + 1\<rparr>)"

text \<open>\<open>fromHex\<close> skips characters that are no digits.\<close>

locale qbytearray_hex =
  fixes qt :: qt_env
  assumes toHex_eq: "qb_toHex qt a = concat (map (\<lambda>b. [hex_digit (unat b div 16), hex_digit (unat b mod 16)]) a)"
    and toUpper_eq: "qb_toUpper qt a = map upper_byte a"
    and fromHex_even: "even (length (List.map_filter digit_value a)) \<Longrightarrow>
      qb_fromHex qt a = pair_digits (List.map_filter digit_value a)"

section \<open>Memory buffer\<close>

definition to_int :: "qint64 \<Rightarrow> int" where "to_int off = sint (ucast off :: cint)"

definition mem_at :: "qint64 \<Rightarrow> byte list \<Rightarrow> byte option" where
  "mem_at idx b = (if 0 \<le> to_int idx \<and> to_int idx < int (length b) then Some (b ! nat (to_int idx)) else None)"

definition mem_length :: "byte list \<Rightarrow> qint64" where "mem_length b = of_nat (length b)"

definition mem_insert :: "qt_env \<Rightarrow> qint64 \<Rightarrow> byte list \<Rightarrow> byte list \<Rightarrow> byte list" where
  "mem_insert qt off data b = qb_insert qt b (to_int off) data"

definition mem_remove :: "qt_env \<Rightarrow> qint64 \<Rightarrow> cint \<Rightarrow> byte list \<Rightarrow> byte list" where
  "mem_remove qt off n b = qb_remove qt b (to_int off) (sint n)"

definition mem_read :: "qt_env \<Rightarrow> qint64 \<Rightarrow> cint \<Rightarrow> byte list \<Rightarrow> byte list" where
  "mem_read qt off n b = qb_mid qt b (to_int off) (sint n)"

definition mem_indexOf :: "qt_env \<Rightarrow> byte list \<Rightarrow> qint64 \<Rightarrow> byte list \<Rightarrow> qint64" where
  "mem_indexOf qt ba from_pos b = word_of_int (qb_indexOf qt b ba (to_int from_pos))"

definition mem_lastIndexOf :: "qt_env \<Rightarrow> byte list \<Rightarrow> qint64 \<Rightarrow> byte list \<Rightarrow> qint64" where
  "mem_lastIndexOf qt ba from_pos b = word_of_int (qb_lastIndexOf qt b ba (to_int from_pos))"

section \<open>Device buffers\<close>

text \<open>
  \<open>QMemoryRefBuffer\<close> and \<open>QFileBuffer\<close> have the same code but for \<open>at\<close>: insertion and removal do
  nothing, and the searches read the device in pieces of \<open>INT_MAX\<close> bytes. The searches return \<open>None\<close> when
  they do not end.
\<close>

definition INT_MAX :: int where "INT_MAX = 2 ^ 31 - 1"

definition dev_length :: "qdevice \<Rightarrow> qint64" where "dev_length d = of_nat (length (dv_bytes d))"

definition dev_read :: "qt_env \<Rightarrow> qint64 \<Rightarrow> cint \<Rightarrow> qdevice \<Rightarrow> byte list \<times> qdevice" where
  "dev_read qt off n d = qd_read qt (qd_seek qt d (sint off)) (sint n)"

text \<open>\<open>QFileBuffer::at\<close>: a failed read leaves the zero byte.\<close>

definition file_at :: "qt_env \<Rightarrow> qint64 \<Rightarrow> qdevice \<Rightarrow> byte \<times> qdevice" where
  "file_at qt idx d =
     (case qd_getChar qt (qd_seek qt d (sint idx)) of
        (None, d) \<Rightarrow> (0, d)
      | (Some c, d) \<Rightarrow> (c, d))"

partial_function (option) index_loop ::
    "qt_env \<Rightarrow> byte list \<Rightarrow> int \<Rightarrow> qdevice \<Rightarrow> (int \<times> qdevice) option" where
  "index_loop qt ba findPos d =
     (if findPos < int (length (dv_bytes d)) then
        (case qd_read qt d INT_MAX of (data, d) \<Rightarrow>
           let idx = qb_indexOf qt data ba 0 in
           if idx \<ge> 0 then Some (findPos + idx, d)
           else if findPos + int (length data) \<ge> int (length (dv_bytes d)) then Some (- 1, d)
           else index_loop qt ba findPos (qd_seek qt d (dv_pos d + int (length data) - int (length ba))))
      else Some (findPos, d))"

definition dev_indexOf :: "qt_env \<Rightarrow> byte list \<Rightarrow> qint64 \<Rightarrow> qdevice \<Rightarrow> (qint64 \<times> qdevice) option" where
  "dev_indexOf qt ba from_pos d =
     (if sint from_pos < int (length (dv_bytes d))
      then map_option (apfst word_of_int) (index_loop qt ba (sint from_pos) (qd_seek qt d (sint from_pos)))
      else Some (- 1, d))"

partial_function (option) last_loop ::
    "qt_env \<Rightarrow> byte list \<Rightarrow> int \<Rightarrow> int \<Rightarrow> qdevice \<Rightarrow> (int \<times> qdevice) option" where
  "last_loop qt ba from_pos currPos d =
     (if currPos \<ge> 0 then
        (let readPos = (if currPos < INT_MAX then 0 else currPos - INT_MAX);
             d = qd_seek qt d readPos
         in case qd_read qt d (currPos - readPos) of (data, d) \<Rightarrow>
           let idx = qb_lastIndexOf qt data ba from_pos in
           if idx \<ge> 0 then Some (readPos + idx, d)
           else if readPos \<le> 0 then Some (- 1, d)
           else last_loop qt ba from_pos (readPos + int (length ba)) d)
      else Some (- 1, d))"

text \<open>\<open>data.lastIndexOf( ba, from )\<close> converts \<open>from\<close> to \<open>int\<close>.\<close>

definition dev_lastIndexOf :: "qt_env \<Rightarrow> byte list \<Rightarrow> qint64 \<Rightarrow> qdevice \<Rightarrow> (qint64 \<times> qdevice) option" where
  "dev_lastIndexOf qt ba from_pos d =
     (if sint from_pos \<ge> 0 \<and> int (length ba) < INT_MAX
      then map_option (apfst word_of_int) (last_loop qt ba (to_int from_pos) (sint from_pos) d)
      else Some (- 1, d))"

section \<open>The class \<open>QHexBuffer\<close>\<close>

text \<open>
  The virtual methods of \<open>QHexBuffer\<close> on buffers of type \<open>'b\<close>. Reading a device moves its position, so
  the readers return the buffer as well; a search may not end, and \<open>at\<close> may have no byte to return.
\<close>

record 'b hex_ops =
  ho_length :: "'b \<Rightarrow> qint64"
  ho_insert :: "qint64 \<Rightarrow> byte list \<Rightarrow> 'b \<Rightarrow> 'b"
  ho_remove :: "qint64 \<Rightarrow> cint \<Rightarrow> 'b \<Rightarrow> 'b"
  ho_read :: "qint64 \<Rightarrow> cint \<Rightarrow> 'b \<Rightarrow> byte list \<times> 'b"
  ho_at :: "qint64 \<Rightarrow> 'b \<Rightarrow> (byte \<times> 'b) option"
  ho_indexOf :: "byte list \<Rightarrow> qint64 \<Rightarrow> 'b \<Rightarrow> (qint64 \<times> 'b) option"
  ho_lastIndexOf :: "byte list \<Rightarrow> qint64 \<Rightarrow> 'b \<Rightarrow> (qint64 \<times> 'b) option"

definition hexbuffer_isEmpty :: "'b hex_ops \<Rightarrow> 'b \<Rightarrow> bool" where
  "hexbuffer_isEmpty ops b \<longleftrightarrow> sint (ho_length ops b) \<le> 0"

definition hexbuffer_replace :: "'b hex_ops \<Rightarrow> qint64 \<Rightarrow> byte list \<Rightarrow> 'b \<Rightarrow> 'b" where
  "hexbuffer_replace ops off data b = ho_insert ops off data (ho_remove ops off (of_nat (length data)) b)"

text \<open>The base class's \<open>at\<close>, which \<open>QMemoryRefBuffer\<close> inherits: the first byte of a read.\<close>

definition hexbuffer_at :: "(qint64 \<Rightarrow> cint \<Rightarrow> 'b \<Rightarrow> byte list \<times> 'b) \<Rightarrow> qint64 \<Rightarrow> 'b \<Rightarrow> (byte \<times> 'b) option" where
  "hexbuffer_at read_op idx b = (case read_op idx 1 b of ([], b) \<Rightarrow> None | (c # _, b) \<Rightarrow> Some (c, b))"

text \<open>The three classes.\<close>

definition memory_ops :: "qt_env \<Rightarrow> byte list hex_ops" where
  "memory_ops qt = \<lparr>ho_length = mem_length, ho_insert = mem_insert qt, ho_remove = mem_remove qt,
     ho_read = (\<lambda>off n b. (mem_read qt off n b, b)), ho_at = (\<lambda>idx b. map_option (\<lambda>c. (c, b)) (mem_at idx b)),
     ho_indexOf = (\<lambda>ba p b. Some (mem_indexOf qt ba p b, b)),
     ho_lastIndexOf = (\<lambda>ba p b. Some (mem_lastIndexOf qt ba p b, b))\<rparr>"

definition memory_ref_ops :: "qt_env \<Rightarrow> qdevice hex_ops" where
  "memory_ref_ops qt = \<lparr>ho_length = dev_length, ho_insert = (\<lambda>off data d. d), ho_remove = (\<lambda>off n d. d),
     ho_read = dev_read qt, ho_at = hexbuffer_at (dev_read qt), ho_indexOf = dev_indexOf qt, ho_lastIndexOf = dev_lastIndexOf qt\<rparr>"

definition file_ops :: "qt_env \<Rightarrow> qdevice hex_ops" where
  "file_ops qt = \<lparr>ho_length = dev_length, ho_insert = (\<lambda>off data d. d), ho_remove = (\<lambda>off n d. d),
     ho_read = dev_read qt, ho_at = (\<lambda>idx d. Some (file_at qt idx d)), ho_indexOf = dev_indexOf qt,
     ho_lastIndexOf = dev_lastIndexOf qt\<rparr>"

text \<open>
  What the document's commands rely on: a buffer whose bytes can be edited, up to the sizes an \<open>int\<close>
  can index.
\<close>

locale editable_buffer =
  fixes ops :: "'b hex_ops" and bytes :: "'b \<Rightarrow> byte list"
  assumes insert_bytes: "unat off \<le> length (bytes b) \<Longrightarrow> length (bytes b) < 2 ^ 31 \<Longrightarrow>
      bytes (ho_insert ops off d b) = take (unat off) (bytes b) @ d @ drop (unat off) (bytes b)"
    and remove_bytes: "unat off \<le> length (bytes b) \<Longrightarrow> length (bytes b) < 2 ^ 31 \<Longrightarrow> 0 \<le> sint n \<Longrightarrow>
      bytes (ho_remove ops off n b) = take (unat off) (bytes b) @ drop (unat off + unat n) (bytes b)"
    and read_bytes: "unat off < 2 ^ 31 \<Longrightarrow> 0 \<le> sint n \<Longrightarrow>
      fst (ho_read ops off n b) = take (unat n) (drop (unat off) (bytes b))"
    and read_keeps: "bytes (snd (ho_read ops off n b)) = bytes b"
begin

lemma sint_length: "n < 2 ^ 31 \<Longrightarrow> sint (of_nat n :: cint) = int n" "n < 2 ^ 31 \<Longrightarrow> unat (of_nat n :: cint) = n"
  using sint_small [of "of_nat n :: cint"] unat_of_nat_cint [of n] by simp_all

lemma replace_bytes:
  assumes "unat off \<le> length (bytes b)" "length (bytes b) < 2 ^ 31" "length d < 2 ^ 31"
  shows "bytes (hexbuffer_replace ops off d b) = take (unat off) (bytes b) @ d @ drop (unat off + length d) (bytes b)"
proof -
  let ?b = "ho_remove ops off (of_nat (length d)) b"
  have r: "bytes ?b = take (unat off) (bytes b) @ drop (unat off + length d) (bytes b)"
    using remove_bytes [of off b "of_nat (length d)"] sint_length [OF assms(3)] assms by simp
  then have "length (bytes ?b) \<le> length (bytes b)" "unat off \<le> length (bytes ?b)" using assms(1) by auto
  then have "bytes (ho_insert ops off d ?b) = take (unat off) (bytes ?b) @ d @ drop (unat off) (bytes ?b)"
    using insert_bytes [of off ?b d] assms(2) by simp
  then show ?thesis using assms(1) by (simp add: hexbuffer_replace_def r)
qed

end

section \<open>The memory buffer is a list\<close>

lemma to_int_nat: "unat off < 2 ^ 31 \<Longrightarrow> to_int off = int (unat off)"
proof -
  assume off: "unat off < 2 ^ 31"
  have "unat (ucast off :: cint) = unat off"
    using off by (simp add: unsigned_ucast_eq take_bit_nat_eq_self)
  then show ?thesis using sint_small [of "ucast off :: cint"] off by (simp add: to_int_def)
qed

context qbytearray
begin

lemma mem_insert_eq:
  assumes "unat off \<le> length b" "length b < 2 ^ 31"
  shows "mem_insert qt off d b = take (unat off) b @ d @ drop (unat off) b"
  using insert_in [of "int (unat off)" b d] to_int_nat [of off] assms
  by (simp add: mem_insert_def del: of_nat_unat)

lemma mem_remove_eq:
  assumes "unat off \<le> length b" "length b < 2 ^ 31" "0 \<le> sint n"
  shows "mem_remove qt off n b = take (unat off) b @ drop (unat off + unat n) b"
proof (cases "unat off < length b")
  case True
  then show ?thesis using remove_in [of "int (unat off)" b "int (unat n)"] to_int_nat [of off] sint_nonneg [OF assms(3)] assms
    by (simp add: mem_remove_def del: of_nat_unat)
next
  case False
  then show ?thesis using remove_out [of b "int (unat off)"] to_int_nat [of off] assms
    by (simp add: mem_remove_def del: of_nat_unat)
qed

lemma mem_read_eq:
  assumes "unat off < 2 ^ 31" "0 \<le> sint n"
  shows "mem_read qt off n b = take (unat n) (drop (unat off) b)"
  using mid_in [of "int (unat off)" "int (unat n)" b] to_int_nat [OF assms(1)] sint_nonneg [OF assms(2)]
  by (simp add: mem_read_def del: of_nat_unat)

end

sublocale qbytearray \<subseteq> mem: editable_buffer "memory_ops qt" "\<lambda>b. b"
  by unfold_locales (simp_all add: memory_ops_def mem_insert_eq mem_remove_eq mem_read_eq)

lemma qbytearray_editable: "qbytearray qt \<Longrightarrow> editable_buffer (memory_ops qt) (\<lambda>b. b)"
  by unfold_locales
     (simp_all add: memory_ops_def qbytearray.mem_insert_eq qbytearray.mem_remove_eq qbytearray.mem_read_eq)

section \<open>Searching\<close>

lemma first_from_range: "first_from pat a p r \<Longrightarrow> - 1 \<le> r \<and> r \<le> int (length a)"
  by (auto simp: first_from_def occurs_at_def split: if_splits)

lemma last_upto_range: "last_upto pat a p r \<Longrightarrow> - 1 \<le> r \<and> r \<le> int (length a)"
  by (auto simp: last_upto_def occurs_at_def split: if_splits)

lemma sint_word_of_int: "- 1 \<le> r \<Longrightarrow> r < 2 ^ 31 \<Longrightarrow> sint (word_of_int r :: qint64) = r"
  unfolding sint_sbintrunc' by (rule signed_take_bit_int_eq_self) simp_all

lemma occurs_at_drop: "p \<le> length a \<Longrightarrow> occurs_at pat (drop p a) k \<longleftrightarrow> occurs_at pat a (p + k)"
  by (auto simp: occurs_at_def add.commute)

lemma occurs_at_take:
  assumes "p \<le> length a"
  shows "occurs_at pat (take p a) k \<longleftrightarrow> k + length pat \<le> p \<and> occurs_at pat a k"
proof -
  have "take (length pat) (drop k (take p a)) = take (length pat) (drop k a)" if "k + length pat \<le> p"
    using that by (simp add: drop_take min_def)
  then show ?thesis using assms by (auto simp: occurs_at_def)
qed

lemma first_from_drop:
  assumes "first_from pat (drop p a) 0 r" "p \<le> length a"
  shows "first_from pat a p (if r = - 1 then - 1 else int p + r)"
proof (cases "r = - 1")
  case True
  then show ?thesis using assms occurs_at_drop [OF assms(2), of pat]
    by (auto simp: first_from_def dest: le_Suc_ex)
next
  case False
  then have r: "0 \<le> r" "occurs_at pat a (p + nat r)" "\<And>k. k < nat r \<Longrightarrow> \<not> occurs_at pat a (p + k)"
    using assms occurs_at_drop [OF assms(2), of pat] by (auto simp: first_from_def)
  have "\<not> occurs_at pat a k" if "p \<le> k" "k < p + nat r" for k
    using r(3) [of "k - p"] that by simp
  then show ?thesis using False r by (simp add: first_from_def nat_add_distrib)
qed

locale qt_documented = qbytearray + qiodevice
begin

lemma mem_indexOf_first:
  assumes "unat from_pos < 2 ^ 31" "pat \<noteq> []" "length b < 2 ^ 31"
  shows "first_from pat b (unat from_pos) (sint (mem_indexOf qt pat from_pos b))"
proof -
  have f: "first_from pat b (unat from_pos) (qb_indexOf qt b pat (int (unat from_pos)))"
    using indexOf_in [of "int (unat from_pos)" pat b] assms(2) by simp
  then show ?thesis using first_from_range [OF f] assms(3) to_int_nat [OF assms(1)]
    by (simp add: mem_indexOf_def sint_word_of_int del: of_nat_unat)
qed

lemma mem_lastIndexOf_last:
  assumes "unat from_pos < 2 ^ 31" "pat \<noteq> []" "length b < 2 ^ 31"
  shows "last_upto pat b (unat from_pos) (sint (mem_lastIndexOf qt pat from_pos b))"
proof -
  have f: "last_upto pat b (unat from_pos) (qb_lastIndexOf qt b pat (int (unat from_pos)))"
    using lastIndexOf_in [of "int (unat from_pos)" pat b] assms(2) by simp
  then show ?thesis using last_upto_range [OF f] assms(3) to_int_nat [OF assms(1)]
    by (simp add: mem_lastIndexOf_def sint_word_of_int del: of_nat_unat)
qed

text \<open>A device of at most \<open>INT_MAX\<close> bytes is searched in one piece.\<close>

lemma dev_indexOf_first:
  assumes "0 \<le> sint from_pos" "pat \<noteq> []" "int (length (dv_bytes d)) \<le> INT_MAX"
  shows "\<exists>r d'. dev_indexOf qt pat from_pos d = Some (r, d') \<and> dv_bytes d' = dv_bytes d \<and>
    first_from pat (dv_bytes d) (unat from_pos) (sint r)"
proof (cases "sint from_pos < int (length (dv_bytes d))")
  case False
  then have "length (dv_bytes d) \<le> unat from_pos" using sint_nonneg [OF assms(1)] by (simp del: of_nat_unat)
  then have "\<not> occurs_at pat (dv_bytes d) k" if "unat from_pos \<le> k" for k
    using that assms(2) by (cases pat) (auto simp: occurs_at_def)
  then show ?thesis using False by (simp add: dev_indexOf_def first_from_def)
next
  case True
  let ?a = "dv_bytes d" and ?p = "unat from_pos"
  have p: "sint from_pos = int ?p" "?p < length ?a" using sint_nonneg [OF assms(1)] True by (simp_all del: of_nat_unat)
  have seek: "qd_seek qt d (sint from_pos) = d\<lparr>dv_pos := int ?p\<rparr>"
    using seek_in [of "sint from_pos" d] assms(1) True p(1) by simp
  have read: "qd_read qt (d\<lparr>dv_pos := int ?p\<rparr>) INT_MAX = (drop ?p ?a, d\<lparr>dv_pos := int (length ?a)\<rparr>)"
    using read_in [of "d\<lparr>dv_pos := int ?p\<rparr>" INT_MAX] p(2) assms(3)
    by (simp add: INT_MAX_def Let_def del: of_nat_unat)
  let ?r = "qb_indexOf qt (drop ?p ?a) pat 0"
  have f: "first_from pat (drop ?p ?a) 0 ?r" using indexOf_in [of 0 pat "drop ?p ?a"] assms(2) by simp
  then have f': "first_from pat ?a ?p (if ?r = - 1 then - 1 else int ?p + ?r)"
    by (rule first_from_drop) (use p(2) in simp)
  have "?r = - 1 \<or> 0 \<le> ?r" using first_from_range [OF f] by linarith
  moreover have "index_loop qt pat (int ?p) (d\<lparr>dv_pos := int ?p\<rparr>) =
      Some (if 0 \<le> ?r then int ?p + ?r else - 1, d\<lparr>dv_pos := int (length ?a)\<rparr>)"
    using p(2) by (subst index_loop.simps) (simp add: read del: of_nat_unat)
  moreover have "sint (word_of_int (int ?p + ?r) :: qint64) = int ?p + ?r" if "0 \<le> ?r"
    using that first_from_range [OF f'] assms(3)
    by (intro sint_word_of_int) (auto simp: INT_MAX_def split: if_splits)
  ultimately show ?thesis using f' True p(1) seek
    by (auto simp: dev_indexOf_def simp del: of_nat_unat)
qed


text \<open>Searching backwards, a device finds only occurrences that end before the start of the search.\<close>

lemma dev_lastIndexOf_last:
  assumes "0 \<le> sint from_pos" "unat from_pos \<le> length (dv_bytes d)" "int (length (dv_bytes d)) < INT_MAX"
    and "pat \<noteq> []" "int (length pat) < INT_MAX"
  shows "\<exists>r d'. dev_lastIndexOf qt pat from_pos d = Some (r, d') \<and> dv_bytes d' = dv_bytes d \<and>
    last_upto pat (take (unat from_pos) (dv_bytes d)) (unat from_pos) (sint r)"
proof -
  let ?a = "dv_bytes d" and ?p = "unat from_pos"
  have p: "sint from_pos = int ?p" by (rule sint_nonneg [OF assms(1)])
  have ti: "to_int from_pos = int ?p" using assms(2,3) by (intro to_int_nat) (simp add: INT_MAX_def)
  have seek: "qd_seek qt d 0 = d\<lparr>dv_pos := 0\<rparr>" using seek_in [of 0 d] by simp
  have read: "qd_read qt (d\<lparr>dv_pos := 0\<rparr>) (int ?p) = (take ?p ?a, d\<lparr>dv_pos := int ?p\<rparr>)"
    using read_in [of "d\<lparr>dv_pos := 0\<rparr>" "int ?p"] assms(2) by (simp add: Let_def min_def del: of_nat_unat)
  let ?r = "qb_lastIndexOf qt (take ?p ?a) pat (int ?p)"
  have l: "last_upto pat (take ?p ?a) ?p ?r" using lastIndexOf_in [of "int ?p" pat "take ?p ?a"] assms(4) by simp
  then have rng: "- 1 \<le> ?r" "?r \<le> int ?p" using last_upto_range [OF l] assms(2) by (simp_all del: of_nat_unat)
  have small: "int ?p < INT_MAX" using assms(2,3) by linarith
  have "last_loop qt pat (int ?p) (int ?p) d =
      Some (if 0 \<le> ?r then ?r else - 1, d\<lparr>dv_pos := int ?p\<rparr>)"
    using small by (subst last_loop.simps) (simp add: seek read Let_def del: of_nat_unat)
  moreover have "(if 0 \<le> ?r then ?r else - 1) = ?r" using rng(1) by simp
  moreover have "sint (word_of_int ?r :: qint64) = ?r"
    using rng small by (intro sint_word_of_int) (simp_all add: INT_MAX_def)
  ultimately show ?thesis using l assms(1,5)
    by (auto simp: dev_lastIndexOf_def ti p simp del: of_nat_unat)
qed

end

section \<open>The documented behaviour can be met\<close>

definition find_at :: "byte list \<Rightarrow> byte list \<Rightarrow> nat list \<Rightarrow> int" where
  "find_at pat a ks = (case find (occurs_at pat a) ks of None \<Rightarrow> - 1 | Some k \<Rightarrow> int k)"

definition std_qt :: qt_env where
  "std_qt = \<lparr>
     qb_insert = (\<lambda>a i d. take (nat i) a @ d @ drop (nat i) a),
     qb_remove = (\<lambda>a i n. take (nat i) a @ drop (nat i + nat n) a),
     qb_mid = (\<lambda>a i n. take (nat n) (drop (nat i) a)),
     qb_indexOf = (\<lambda>a pat i. find_at pat a [nat i..<length a]),
     qb_lastIndexOf = (\<lambda>a pat i. find_at pat a (rev [0..<Suc (min (nat i) (length a))])),
     qb_toHex = (\<lambda>a. concat (map (\<lambda>b. [hex_digit (unat b div 16), hex_digit (unat b mod 16)]) a)),
     qb_toUpper = map upper_byte,
     qb_fromHex = (\<lambda>a. pair_digits (List.map_filter digit_value a)),
     qd_seek = (\<lambda>d i. d\<lparr>dv_pos := i\<rparr>),
     qd_read = (\<lambda>d n. let bs = take (nat n) (drop (nat (dv_pos d)) (dv_bytes d)) in (bs, d\<lparr>dv_pos := dv_pos d + int (length bs)\<rparr>)),
     qd_getChar = (\<lambda>d. if nat (dv_pos d) < length (dv_bytes d)
       then (Some (dv_bytes d ! nat (dv_pos d)), d\<lparr>dv_pos := dv_pos d + 1\<rparr>) else (None, d))\<rparr>"

lemma find_at_first:
  assumes "pat \<noteq> []"
  shows "first_from pat a p (find_at pat a [p..<length a])"
proof -
  have out: "\<not> occurs_at pat a k" if "length a \<le> k" for k using that assms by (cases pat) (auto simp: occurs_at_def)
  show ?thesis
  proof (cases "find (occurs_at pat a) [p..<length a]")
    case None
    then have "\<not> occurs_at pat a k" if "p \<le> k" for k
      using out [of k] that by (cases "k < length a") (auto simp: find_None_iff)
    then show ?thesis by (simp add: find_at_def None first_from_def)
  next
    case (Some k)
    then obtain i where i: "i < length a - p" "occurs_at pat a ([p..<length a] ! i)" "k = [p..<length a] ! i"
      "\<And>j. j < i \<Longrightarrow> \<not> occurs_at pat a ([p..<length a] ! j)"
      by (auto simp: find_Some_iff)
    then have k: "k = p + i" "occurs_at pat a (p + i)" "\<And>j. j < i \<Longrightarrow> \<not> occurs_at pat a (p + j)" by simp_all
    have "\<not> occurs_at pat a q" if "p \<le> q" "q < k" for q using k(3) [of "q - p"] that k(1) by simp
    then show ?thesis using k(1,2) by (simp add: find_at_def Some first_from_def del: of_nat_add)
  qed
qed

lemma find_at_last:
  assumes "pat \<noteq> []"
  shows "last_upto pat a p (find_at pat a (rev [0..<Suc (min p (length a))]))"
proof -
  let ?m = "min p (length a)"
  have out: "\<not> occurs_at pat a k" if "length a < k" for k using that by (auto simp: occurs_at_def)
  show ?thesis
  proof (cases "find (occurs_at pat a) (rev [0..<Suc ?m])")
    case None
    then have "\<not> occurs_at pat a k" if "k \<le> p" for k
      using out [of k] that by (cases "k \<le> length a") (auto simp: find_None_iff simp del: upt_Suc)
    then show ?thesis by (simp add: find_at_def None last_upto_def del: upt_Suc)
  next
    case (Some k)
    have nth: "rev [0..<Suc ?m] ! i = ?m - i" if "i < Suc ?m" for i
      using that by (simp add: rev_nth del: upt_Suc)
    obtain i where i: "i < Suc ?m" "occurs_at pat a (rev [0..<Suc ?m] ! i)" "k = rev [0..<Suc ?m] ! i"
      "\<And>j. j < i \<Longrightarrow> \<not> occurs_at pat a (rev [0..<Suc ?m] ! j)"
      using Some by (auto simp: find_Some_iff simp del: upt_Suc)
    then have k: "k = ?m - i" "occurs_at pat a k" by (simp_all add: nth del: upt_Suc)
    have "\<not> occurs_at pat a q" if "k < q" "q \<le> p" for q
    proof (cases "q \<le> length a")
      case True
      then have "?m - q < i" "?m - (?m - q) = q" using that k(1) i(1) by auto
      then show ?thesis using i(4) [of "?m - q"] nth [of "?m - q"] by simp
    qed (simp add: out)
    then show ?thesis using k by (simp add: find_at_def Some last_upto_def del: upt_Suc)
  qed
qed

interpretation std: qt_documented std_qt
  by unfold_locales
     (simp_all add: std_qt_def find_at_first find_at_last Let_def del: upt_Suc)

interpretation std_hex: qbytearray_hex std_qt
  by unfold_locales (simp_all add: std_qt_def)

end
