(* ===== verification/Hex_Cursor.thy ===== *)
theory Hex_Cursor
  imports Xsky_Prelude
begin

text \<open>
  The cursor of the client's hex view (\<open>client/QHexView/document/qhexcursor.h\<close> and \<open>.cpp\<close>): a position
  and the other end of the selection, each a line, a column and a nibble. Widths are those of the code:
  lines are \<open>quint64\<close>, columns and lengths \<open>int\<close>, offsets \<open>qint64\<close>, the line width \<open>quint8\<close>; signed
  values are words read with \<open>sint\<close>. The signals of the class are counted.

  The lemmas: offsets of well-formed positions, moving to an offset, the order of the selection's ends.
\<close>

section \<open>Positions\<close>

record qhexposition =
  ps_line :: u64
  ps_column :: cint
  ps_lineWidth :: u8
  ps_nibbleindex :: cint

definition pos_offset :: "qhexposition \<Rightarrow> qint64" where
  "pos_offset p = ps_line p * ucast (ps_lineWidth p) + scast (ps_column p)"

text \<open>\<open>operator-\<close> returns an \<open>int\<close>.\<close>

definition pos_minus :: "qhexposition \<Rightarrow> qhexposition \<Rightarrow> cint" where
  "pos_minus p q = ucast (pos_offset p - pos_offset q)"

definition pos_eq :: "qhexposition \<Rightarrow> qhexposition \<Rightarrow> bool" where
  "pos_eq p q \<longleftrightarrow> ps_line p = ps_line q \<and> ps_column p = ps_column q \<and> ps_nibbleindex p = ps_nibbleindex q"

section \<open>The cursor\<close>

datatype insertion_mode = OverwriteMode | InsertMode

record qhexcursor =
  cu_insertionmode :: insertion_mode
  cu_lineWidth :: u8
  cu_position :: qhexposition
  cu_selection :: qhexposition
  cu_positionChanged :: nat
  cu_insertionModeChanged :: nat

definition selectionStart :: "qhexcursor \<Rightarrow> qhexposition" where
  "selectionStart c =
     (if ps_line (cu_position c) < ps_line (cu_selection c) then cu_position c
      else if ps_line (cu_position c) = ps_line (cu_selection c) \<and>
        sint (ps_column (cu_position c)) < sint (ps_column (cu_selection c)) then cu_position c
      else cu_selection c)"

definition selectionEnd :: "qhexcursor \<Rightarrow> qhexposition" where
  "selectionEnd c =
     (if ps_line (cu_position c) > ps_line (cu_selection c) then cu_position c
      else if ps_line (cu_position c) = ps_line (cu_selection c) \<and>
        sint (ps_column (cu_position c)) > sint (ps_column (cu_selection c)) then cu_position c
      else cu_selection c)"

definition selectionLength :: "qhexcursor \<Rightarrow> cint" where
  "selectionLength c = pos_minus (selectionEnd c) (selectionStart c) + 1"

definition hasSelection :: "qhexcursor \<Rightarrow> bool" where
  "hasSelection c \<longleftrightarrow> \<not> pos_eq (cu_position c) (cu_selection c)"

definition isLineSelected :: "qhexcursor \<Rightarrow> u64 \<Rightarrow> bool" where
  "isLineSelected c line =
     (if \<not> hasSelection c then False
      else let first_line = min (ps_line (cu_position c)) (ps_line (cu_selection c));
               last_line = max (ps_line (cu_position c)) (ps_line (cu_selection c))
           in \<not> (line < first_line \<or> line > last_line))"

definition clearSelection :: "qhexcursor \<Rightarrow> qhexcursor" where
  "clearSelection c = c\<lparr>cu_selection := cu_position c, cu_positionChanged := cu_positionChanged c + 1\<rparr>"

definition set_pos :: "u64 \<Rightarrow> cint \<Rightarrow> cint \<Rightarrow> qhexposition \<Rightarrow> qhexposition" where
  "set_pos line column nibbleindex p = p\<lparr>ps_line := line, ps_column := column, ps_nibbleindex := nibbleindex\<rparr>"

definition cursor_select :: "u64 \<Rightarrow> cint \<Rightarrow> cint \<Rightarrow> qhexcursor \<Rightarrow> qhexcursor" where
  "cursor_select line column nibbleindex c =
     c\<lparr>cu_position := set_pos line column nibbleindex (cu_position c), cu_positionChanged := cu_positionChanged c + 1\<rparr>"

definition moveTo :: "u64 \<Rightarrow> cint \<Rightarrow> cint \<Rightarrow> qhexcursor \<Rightarrow> qhexcursor" where
  "moveTo line column nibbleindex c =
     cursor_select line column nibbleindex (c\<lparr>cu_selection := set_pos line column nibbleindex (cu_selection c)\<rparr>)"

definition moveTo_pos :: "qhexposition \<Rightarrow> qhexcursor \<Rightarrow> qhexcursor" where
  "moveTo_pos p c = moveTo (ps_line p) (ps_column p) (ps_nibbleindex p) c"

definition select_pos :: "qhexposition \<Rightarrow> qhexcursor \<Rightarrow> qhexcursor" where
  "select_pos p c = cursor_select (ps_line p) (ps_column p) (ps_nibbleindex p) c"

text \<open>
  Division by a zero line width is undefined (\<open>None\<close>). The quotient is that of C++, rounded towards zero;
  the column is computed in \<open>quint64\<close> and passed as \<open>int\<close>.
\<close>

definition moveTo_offset :: "qint64 \<Rightarrow> qhexcursor \<Rightarrow> qhexcursor option" where
  "moveTo_offset off c =
     (if cu_lineWidth c = 0 then None
      else let q = \<bar>sint off\<bar> div int (unat (cu_lineWidth c));
               line = word_of_int (if sint off < 0 then - q else q) :: u64
           in Some (moveTo line (ucast (off - line * ucast (cu_lineWidth c))) 1 c))"

definition select_length :: "cint \<Rightarrow> qhexcursor \<Rightarrow> qhexcursor" where
  "select_length n c =
     (let a = ucast (cu_lineWidth c) - 1; b = ps_column (cu_position c) + n - 1
      in cursor_select (ps_line (cu_position c)) (if sint b < sint a then b else a) 1 c)"

definition selectOffset :: "qint64 \<Rightarrow> cint \<Rightarrow> qhexcursor \<Rightarrow> qhexcursor option" where
  "selectOffset off n c = map_option (select_length n) (moveTo_offset off c)"

definition setInsertionMode :: "insertion_mode \<Rightarrow> qhexcursor \<Rightarrow> qhexcursor" where
  "setInsertionMode mode c =
     (if cu_insertionmode c \<noteq> mode
      then c\<lparr>cu_insertionmode := mode, cu_insertionModeChanged := cu_insertionModeChanged c + 1\<rparr>
      else c\<lparr>cu_insertionmode := mode\<rparr>)"

definition setLineWidth :: "u8 \<Rightarrow> qhexcursor \<Rightarrow> qhexcursor" where
  "setLineWidth width c = c\<lparr>cu_lineWidth := width,
     cu_position := (cu_position c)\<lparr>ps_lineWidth := width\<rparr>, cu_selection := (cu_selection c)\<lparr>ps_lineWidth := width\<rparr>\<rparr>"

definition switchInsertionMode :: "qhexcursor \<Rightarrow> qhexcursor" where
  "switchInsertionMode c =
     c\<lparr>cu_insertionmode := (if cu_insertionmode c = OverwriteMode then InsertMode else OverwriteMode),
       cu_insertionModeChanged := cu_insertionModeChanged c + 1\<rparr>"

definition cursor_new :: qhexcursor where
  "cursor_new = setLineWidth 0x10
     \<lparr>cu_insertionmode = OverwriteMode, cu_lineWidth = 0,
      cu_position = \<lparr>ps_line = 0, ps_column = 0, ps_lineWidth = 0, ps_nibbleindex = 1\<rparr>,
      cu_selection = \<lparr>ps_line = 0, ps_column = 0, ps_lineWidth = 0, ps_nibbleindex = 1\<rparr>,
      cu_positionChanged = 0, cu_insertionModeChanged = 0\<rparr>"

section \<open>Well-formed positions\<close>

text \<open>The column lies in the line, and the offset is a non-negative \<open>qint64\<close>.\<close>

definition pos_ok :: "u8 \<Rightarrow> qhexposition \<Rightarrow> bool" where
  "pos_ok w p \<longleftrightarrow> ps_lineWidth p = w \<and> unat (ps_column p) < unat w \<and>
     unat (ps_line p) * unat w + unat (ps_column p) < 2 ^ 63"

definition cursor_ok :: "qhexcursor \<Rightarrow> bool" where
  "cursor_ok c \<longleftrightarrow> pos_ok (cu_lineWidth c) (cu_position c) \<and> pos_ok (cu_lineWidth c) (cu_selection c)"

definition at_offset :: "qhexposition \<Rightarrow> nat" where
  "at_offset p = unat (ps_line p) * unat (ps_lineWidth p) + unat (ps_column p)"

lemma scast_small: "2 * unat (x :: cint) < 2 ^ 32 \<Longrightarrow> scast x = (of_nat (unat x) :: u64)"
  by (simp add: scast_eq sint_small)

lemma u8_col: "unat (c :: cint) < unat (w :: u8) \<Longrightarrow> 2 * unat c < 2 ^ 32"
  using unat_u8 [of w] by simp

lemma ucast_u8: "ucast (w :: u8) = (of_nat (unat w) :: u64)" by simp

lemma pos_offset_nat:
  assumes "pos_ok w p"
  shows "pos_offset p = of_nat (at_offset p)" "unat (pos_offset p) = at_offset p" "sint (pos_offset p) = int (at_offset p)"
proof -
  have p: "unat (ps_column p) < unat (ps_lineWidth p)" "at_offset p < 2 ^ 63"
    using assms by (auto simp: pos_ok_def at_offset_def)
  have "scast (ps_column p) = (of_nat (unat (ps_column p)) :: u64)" by (rule scast_small [OF u8_col [OF p(1)]])
  then show 1: "pos_offset p = of_nat (at_offset p)" by (simp add: pos_offset_def at_offset_def)
  show 2: "unat (pos_offset p) = at_offset p" using p(2) unat_of_nat_u64 [of "at_offset p"] 1 by simp
  show "sint (pos_offset p) = int (at_offset p)" using sint_small [of "pos_offset p"] 2 p(2) by simp
qed

lemma col_sint: "pos_ok w p \<Longrightarrow> sint (ps_column p) = int (unat (ps_column p))"
  using sint_small [of "ps_column p"] u8_col [of "ps_column p" w] by (simp add: pos_ok_def)

lemma at_offset_less:
  assumes "pos_ok w p" "pos_ok w q" "ps_line p < ps_line q"
  shows "at_offset p < at_offset q"
proof -
  have "unat (ps_line p) < unat (ps_line q)" using assms(3) by (simp add: word_less_nat_alt)
  then have "(unat (ps_line p) + 1) * unat w \<le> unat (ps_line q) * unat w" by (intro mult_le_mono1) simp
  then show ?thesis using assms(1,2) by (simp add: pos_ok_def at_offset_def)
qed

text \<open>The order of the selection's ends is the order of their offsets.\<close>

lemma selection_order:
  assumes "cursor_ok c"
  shows "at_offset (selectionStart c) = min (at_offset (cu_position c)) (at_offset (cu_selection c))"
    "at_offset (selectionEnd c) = max (at_offset (cu_position c)) (at_offset (cu_selection c))"
    "pos_ok (cu_lineWidth c) (selectionStart c)" "pos_ok (cu_lineWidth c) (selectionEnd c)"
proof -
  let ?p = "cu_position c" and ?s = "cu_selection c" and ?w = "cu_lineWidth c"
  have ok: "pos_ok ?w ?p" "pos_ok ?w ?s" using assms by (simp_all add: cursor_ok_def)
  have col: "sint (ps_column ?p) = int (unat (ps_column ?p))" "sint (ps_column ?s) = int (unat (ps_column ?s))"
    using ok col_sint by blast+
  then have lt: "sint (ps_column ?p) < sint (ps_column ?s) \<longleftrightarrow> unat (ps_column ?p) < unat (ps_column ?s)"
    "sint (ps_column ?s) < sint (ps_column ?p) \<longleftrightarrow> unat (ps_column ?s) < unat (ps_column ?p)"
    by (simp_all only: of_nat_less_iff)
  have w: "ps_lineWidth ?p = ?w" "ps_lineWidth ?s = ?w" using ok by (simp_all add: pos_ok_def)
  consider "ps_line ?p < ps_line ?s" | "ps_line ?s < ps_line ?p" | "ps_line ?p = ps_line ?s"
    by (meson linorder_cases)
  then have "at_offset (selectionStart c) = min (at_offset ?p) (at_offset ?s) \<and>
      at_offset (selectionEnd c) = max (at_offset ?p) (at_offset ?s)"
  proof cases
    case 1
    then show ?thesis using at_offset_less [OF ok 1] by (auto simp: selectionStart_def selectionEnd_def)
  next
    case 2
    then show ?thesis using at_offset_less [OF ok(2,1) 2] by (auto simp: selectionStart_def selectionEnd_def)
  next
    case 3
    then show ?thesis using w lt
      by (simp add: selectionStart_def selectionEnd_def at_offset_def min_def max_def del: of_nat_unat)
  qed
  then show "at_offset (selectionStart c) = min (at_offset ?p) (at_offset ?s)"
    "at_offset (selectionEnd c) = max (at_offset ?p) (at_offset ?s)" by simp_all
  show "pos_ok ?w (selectionStart c)" "pos_ok ?w (selectionEnd c)"
    using ok by (simp_all add: selectionStart_def selectionEnd_def)
qed

lemma moveTo_offset_eq:
  assumes "0 < cu_lineWidth c" "n < 2 ^ 63"
  shows "moveTo_offset (of_nat n) c =
    Some (moveTo (of_nat (n div unat (cu_lineWidth c))) (of_nat (n mod unat (cu_lineWidth c))) 1 c)"
proof -
  let ?w = "unat (cu_lineWidth c)"
  have w: "0 < ?w" "?w < 256" "cu_lineWidth c \<noteq> 0" using assms(1) unat_u8 by (auto simp: word_less_nat_alt)
  have u: "unat (of_nat n :: u64) = n" by (rule unat_of_nat_u64) (use assms(2) in simp)
  have s: "sint (of_nat n :: u64) = int n" using sint_small [of "of_nat n :: u64"] u assms(2) by simp
  have "(of_nat n :: u64) - of_nat (n div ?w) * of_nat ?w = of_nat (n - n div ?w * ?w)"
    by (simp add: of_nat_diff div_times_less_eq_dividend)
  then have "(of_nat n :: u64) - of_nat (n div ?w) * ucast (cu_lineWidth c) = of_nat (n mod ?w)"
    by (simp add: minus_div_mult_eq_mod)
  moreover have "(ucast (of_nat (n mod ?w) :: u64) :: cint) = of_nat (n mod ?w)"
  proof -
    have "n mod ?w < 256" using w(1,2) mod_less_divisor [OF w(1), of n] by linarith
    then have "n mod ?w < 2 ^ 64" by simp
    then show ?thesis using unat_of_nat_u64 [of "n mod ?w"] by (metis of_nat_unat)
  qed
  ultimately show ?thesis using w(3) s
    by (simp add: moveTo_offset_def Let_def zdiv_int [symmetric] del: of_nat_unat)
qed

section \<open>Moving and selecting\<close>

lemma width_ok: "0 < w \<Longrightarrow> 0 < unat w \<and> unat w < 256" for w :: u8
  using unat_u8 by (auto simp: word_less_nat_alt)

lemma moveTo_lands:
  assumes "0 < cu_lineWidth c" "n < 2 ^ 63"
    and "ps_lineWidth (cu_position c) = cu_lineWidth c" "ps_lineWidth (cu_selection c) = cu_lineWidth c"
  obtains c' where "moveTo_offset (of_nat n) c = Some c'" "cursor_ok c'" "at_offset (cu_position c') = n"
    "at_offset (cu_selection c') = n" "\<not> hasSelection c'" "cu_lineWidth c' = cu_lineWidth c"
    "cu_position c' = set_pos (of_nat (n div unat (cu_lineWidth c))) (of_nat (n mod unat (cu_lineWidth c))) 1 (cu_position c)"
proof
  let ?w = "unat (cu_lineWidth c)"
  note w = width_ok [OF assms(1)]
  let ?q = "n div ?w" and ?r = "n mod ?w"
  let ?c = "moveTo (of_nat ?q) (of_nat ?r) 1 c"
  show "moveTo_offset (of_nat n) c = Some ?c" by (rule moveTo_offset_eq [OF assms(1,2)])
  have q: "?q \<le> n" by simp
  have r: "?r < ?w" using w by simp
  have uq: "unat (of_nat ?q :: u64) = ?q" by (rule unat_of_nat_u64) (use le_less_trans [OF q assms(2)] in simp)
  have "?r < 256" using r w by linarith
  then have ur: "unat (of_nat ?r :: cint) = ?r" by (intro unat_of_nat_cint) simp
  have at: "?q * ?w + ?r = n" by (rule div_mult_mod_eq)
  show "cursor_ok ?c" using r assms(2-4) uq ur at
    by (simp add: cursor_ok_def pos_ok_def moveTo_def cursor_select_def set_pos_def)
  show "at_offset (cu_position ?c) = n" "at_offset (cu_selection ?c) = n"
    using uq ur at assms(3,4) by (simp_all add: at_offset_def moveTo_def cursor_select_def set_pos_def)
  show "\<not> hasSelection ?c" by (simp add: hasSelection_def pos_eq_def moveTo_def cursor_select_def set_pos_def)
  show "cu_lineWidth ?c = cu_lineWidth c" "cu_position ?c = set_pos (of_nat ?q) (of_nat ?r) 1 (cu_position c)"
    by (simp_all add: moveTo_def cursor_select_def)
qed

lemma selection_length:
  assumes "cursor_ok c" "at_offset (selectionEnd c) - at_offset (selectionStart c) < 2 ^ 31 - 1"
  shows "sint (selectionLength c) = int (at_offset (selectionEnd c) - at_offset (selectionStart c) + 1)"
    "unat (selectionLength c) = at_offset (selectionEnd c) - at_offset (selectionStart c) + 1"
proof -
  note S = selection_order [OF assms(1)]
  let ?a = "at_offset (selectionStart c)" and ?b = "at_offset (selectionEnd c)"
  have ab: "?a \<le> ?b" using S(1,2) by simp
  note A = pos_offset_nat [OF S(3)] and B = pos_offset_nat [OF S(4)]
  have "pos_offset (selectionEnd c) - pos_offset (selectionStart c) = of_nat (?b - ?a)"
    using A(1) B(1) ab by (simp add: of_nat_diff)
  moreover have "(ucast (of_nat (?b - ?a) :: u64) :: cint) = of_nat (?b - ?a)"
  proof -
    have "?b - ?a < 2 ^ 64" using assms(2) by simp
    then show ?thesis using unat_of_nat_u64 [of "?b - ?a"] by (metis of_nat_unat)
  qed
  ultimately have e: "selectionLength c = of_nat (?b - ?a + 1)" by (simp add: selectionLength_def pos_minus_def)
  show u: "unat (selectionLength c) = ?b - ?a + 1"
    unfolding e by (rule unat_of_nat_cint) (use assms(2) in simp)
  show "sint (selectionLength c) = int (?b - ?a + 1)"
    using sint_small [of "selectionLength c"] u assms(2) by simp
qed

lemma clamp_sum:
  fixes a r w n off :: nat
  assumes "a + r = off" "r < w" "0 < n"
  shows "a + min (r + n - 1) (w - 1) + 1 = off + min n (w - r)"
  using assms by (auto simp: min_def)

text \<open>Selecting a length from a position at column \<open>r\<close> ends at the last column of the line or before.\<close>

lemma select_length_lands:
  assumes "cursor_ok c" "0 < n" "n < 2 ^ 31 - 256" "0 < cu_lineWidth c"
    and "at_offset (cu_position c) + 256 < 2 ^ 63"
  shows "cursor_ok (select_length (of_nat n) c)"
    "at_offset (cu_position (select_length (of_nat n) c)) + 1 = at_offset (cu_position c) +
      min n (unat (cu_lineWidth c) - unat (ps_column (cu_position c)))"
    "cu_selection (select_length (of_nat n) c) = cu_selection c"
    "cu_lineWidth (select_length (of_nat n) c) = cu_lineWidth c"
proof -
  let ?w = "unat (cu_lineWidth c)" and ?r = "unat (ps_column (cu_position c))" and ?q = "unat (ps_line (cu_position c))"
  note w = width_ok [OF assms(4)]
  have p: "ps_lineWidth (cu_position c) = cu_lineWidth c" "?r < ?w" "?q * ?w + ?r < 2 ^ 63"
    using assms(1) by (simp_all add: cursor_ok_def pos_ok_def)
  have s: "sint (of_nat k :: cint) = int k" "unat (of_nat k :: cint) = k" if "k < 2 ^ 31" for k
    using sint_small [of "of_nat k :: cint"] unat_of_nat_cint [of k] that by (simp_all del: of_nat_unat)
  have a: "ucast (cu_lineWidth c) - 1 = (of_nat (?w - 1) :: cint)" using w by (simp add: of_nat_diff)
  have b: "ps_column (cu_position c) + of_nat n - 1 = (of_nat (?r + n - 1) :: cint)"
    using assms(2) by (simp add: of_nat_diff)
  have lt: "?w - 1 < 2 ^ 31" "?r + n - 1 < 2 ^ 31" using w p(2) assms(3) by simp_all
  let ?k = "min (?r + n - 1) (?w - 1)"
  have pick: "select_length (of_nat n) c = cursor_select (ps_line (cu_position c)) (of_nat ?k) 1 c"
    unfolding select_length_def Let_def a b s(1) [OF lt(1)] s(1) [OF lt(2)]
    by (simp only: of_nat_less_iff min_def) auto
  have k: "unat (of_nat ?k :: cint) = ?k" by (rule s(2)) (use lt(1) in simp)
  have at: "at_offset (cu_position (select_length (of_nat n) c)) = ?q * ?w + ?k"
    unfolding pick using k p(1) by (simp add: at_offset_def cursor_select_def set_pos_def)
  have sum: "?q * ?w + ?k + 1 = (?q * ?w + ?r) + min n (?w - ?r)"
    by (rule clamp_sum [OF refl p(2) assms(2)])
  then show "at_offset (cu_position (select_length (of_nat n) c)) + 1 = at_offset (cu_position c) + min n (?w - ?r)"
    using at p(1) by (simp add: at_offset_def)
  show "cu_selection (select_length (of_nat n) c) = cu_selection c" "cu_lineWidth (select_length (of_nat n) c) = cu_lineWidth c"
    unfolding pick by (simp_all add: cursor_select_def)
  have kw: "?k < ?w" using w by linarith
  have "?q * ?w + ?r + 256 < 2 ^ 63" using assms(5) p(1) by (simp add: at_offset_def)
  then have "?q * ?w + ?k < 2 ^ 63" using kw w by linarith
  moreover note kw
  ultimately show "cursor_ok (select_length (of_nat n) c)"
    unfolding pick using assms(1) k p(1) by (simp add: cursor_ok_def pos_ok_def cursor_select_def set_pos_def)
qed

section \<open>Properties\<close>

text \<open>Moving to an offset. For a non-zero line width and a non-negative offset, \<open>moveTo\<close> puts the
cursor and the selection at a well-formed position of exactly that offset, with no selection.\<close>

theorem moveTo_offset_roundtrip:
  assumes "0 < cu_lineWidth c" "0 \<le> sint off" "ps_lineWidth (cu_position c) = cu_lineWidth c"
    and "ps_lineWidth (cu_selection c) = cu_lineWidth c"
  shows "\<exists>c'. moveTo_offset off c = Some c' \<and> cursor_ok c' \<and> pos_offset (cu_position c') = off \<and> \<not> hasSelection c'"
proof -
  obtain c' where c': "moveTo_offset (of_nat (unat off)) c = Some c'" "cursor_ok c'"
    "at_offset (cu_position c') = unat off" "\<not> hasSelection c'"
    using moveTo_lands [OF assms(1) qint64_nonneg [OF assms(2)] assms(3,4)] by metis
  moreover have "pos_offset (cu_position c') = off"
    using pos_offset_nat(1) [of "cu_lineWidth c'" "cu_position c'"] c'(2,3) by (simp add: cursor_ok_def)
  ultimately show ?thesis by simp
qed

text \<open>The selection. For well-formed ends no more than \<open>INT_MAX\<close> apart, the start is not behind the end,
the two are the cursor's two positions, and the length is their distance plus one.\<close>

theorem selection_span:
  assumes "cursor_ok c"
    and "max (at_offset (cu_position c)) (at_offset (cu_selection c)) -
         min (at_offset (cu_position c)) (at_offset (cu_selection c)) < 2 ^ 31 - 1"
  shows "{selectionStart c, selectionEnd c} \<subseteq> {cu_position c, cu_selection c} \<and>
    sint (pos_offset (selectionStart c)) \<le> sint (pos_offset (selectionEnd c)) \<and>
    sint (selectionLength c) = sint (pos_offset (selectionEnd c)) - sint (pos_offset (selectionStart c)) + 1"
proof -
  note S = selection_order [OF assms(1)]
  have "at_offset (selectionStart c) \<le> at_offset (selectionEnd c)" using S(1,2) by simp
  then show ?thesis
    using selection_length(1) [OF assms(1)] assms(2) S(1,2) pos_offset_nat(3) [OF S(3)] pos_offset_nat(3) [OF S(4)]
    by (auto simp: selectionStart_def selectionEnd_def)
qed

text \<open>Selecting by offset and length stays in one line. A selection of \<open>n\<close> bytes from an offset, as a
search result is shown, covers only the bytes up to the end of its line.\<close>

theorem selectOffset_clamped:
  assumes "0 < cu_lineWidth c" "off + 256 < 2 ^ 63" "0 < n" "n < 2 ^ 31 - 256"
    and "ps_lineWidth (cu_position c) = cu_lineWidth c" "ps_lineWidth (cu_selection c) = cu_lineWidth c"
  shows "\<exists>c'. selectOffset (of_nat off) (of_nat n) c = Some c' \<and>
    at_offset (cu_selection c') = off \<and>
    at_offset (cu_position c') + 1 = off + min n (unat (cu_lineWidth c) - off mod unat (cu_lineWidth c))"
proof -
  have "off < 2 ^ 63" using assms(2) by simp
  then obtain m where m: "moveTo_offset (of_nat off) c = Some m" "cursor_ok m" "at_offset (cu_position m) = off"
    "at_offset (cu_selection m) = off" "cu_lineWidth m = cu_lineWidth c"
    "cu_position m = set_pos (of_nat (off div unat (cu_lineWidth c))) (of_nat (off mod unat (cu_lineWidth c))) 1 (cu_position c)"
    using moveTo_lands [OF assms(1) _ assms(5,6)] by metis
  have "off mod unat (cu_lineWidth c) < 256" using width_ok [OF assms(1)] mod_less_divisor less_trans by blast
  then have "unat (ps_column (cu_position m)) = off mod unat (cu_lineWidth c)"
    unfolding m(6) by (simp add: set_pos_def unat_of_nat_cint)
  then show ?thesis
    using select_length_lands [of m n] m(1-5) assms by (auto simp: selectOffset_def)
qed

theorem moveTo_offset_roundtrip_witness:
  "\<exists>c. moveTo_offset 1000 cursor_new = Some c \<and> cursor_ok c \<and> pos_offset (cu_position c) = 1000"
  using moveTo_offset_roundtrip [of cursor_new 1000] by (auto simp: cursor_new_def setLineWidth_def)

theorem selection_span_witness: "sint (selectionLength cursor_new) = 1"
proof -
  have "cursor_ok cursor_new" by (simp add: cursor_ok_def pos_ok_def cursor_new_def setLineWidth_def)
  moreover have "selectionStart cursor_new = selectionEnd cursor_new"
    by (simp add: selectionStart_def selectionEnd_def cursor_new_def setLineWidth_def)
  ultimately show ?thesis using selection_span [of cursor_new]
    by (simp add: at_offset_def cursor_new_def setLineWidth_def)
qed

theorem selectOffset_clamped_witness:
  "\<exists>c. selectOffset 30 20 cursor_new = Some c \<and> at_offset (cu_selection c) = 30 \<and> at_offset (cu_position c) = 31"
  using selectOffset_clamped [of cursor_new 30 20] by (auto simp: cursor_new_def setLineWidth_def)

end
