(* ===== verification/Hex_Metadata.thy ===== *)
theory Hex_Metadata
  imports Xsky_Prelude "HOL-Library.Signed_Division"
begin

text \<open>
  The colours and comments of the client's hex view (\<open>client/QHexView/document/qhexmetadata.h\<close> and
  \<open>.cpp\<close>). An entry is kept twice: as a range of offsets, and as one item per line of the current
  line width. Offsets are \<open>qint64\<close>, lines \<open>quint64\<close>, starts and lengths \<open>int\<close>; colours are a type
  of their own, and \<open>nocolor\<close> is the default \<open>QColor()\<close>. The two signals are recorded.

  A result \<open>None\<close> is a division by a zero line width, a use of an end iterator, or a loop that does not
  end. The lemmas: the items of a line cover a column exactly when the range covers its offset,
  whatever operations and changes of the line width came before.
\<close>

section \<open>Data\<close>

record 'c absolute_item =
  ai_begin :: qint64
  ai_end :: qint64
  ai_foreground :: 'c
  ai_background :: 'c
  ai_comment :: string

record 'c metadata_item =
  mi_line :: u64
  mi_start :: cint
  mi_length :: cint
  mi_foreground :: 'c
  mi_background :: 'c
  mi_comment :: string

record 'c qhexmetadata =
  md_lineWidth :: u8
  md_metadata :: "u64 \<rightharpoonup> 'c metadata_item list"
  md_absoluteMetadata :: "'c absolute_item list"
  md_metadataChanged :: "u64 list"
  md_metadataCleared :: nat

text \<open>\<open>w\<close> is the uninitialised line width.\<close>

definition metadata_new :: "u8 \<Rightarrow> 'c qhexmetadata" where
  "metadata_new w = \<lparr>md_lineWidth = w, md_metadata = Map.empty, md_absoluteMetadata = [],
     md_metadataChanged = [], md_metadataCleared = 0\<rparr>"

section \<open>Reading\<close>

definition hasMetadata :: "'c qhexmetadata \<Rightarrow> u64 \<Rightarrow> bool" where
  "hasMetadata m line \<longleftrightarrow> md_metadata m line \<noteq> None"

definition metadata_get :: "'c qhexmetadata \<Rightarrow> u64 \<Rightarrow> 'c metadata_item list option" where
  "metadata_get m line = md_metadata m line"

definition newline :: char where "newline = CHR 0x0A"

fun comments_loop :: "cint \<Rightarrow> 'c metadata_item list \<Rightarrow> string \<Rightarrow> string" where
  "comments_loop column [] s = s"
| "comments_loop column (mi # mis) s =
     (if \<not> (sint (mi_start mi) \<le> sint column \<and> sint column < sint (mi_start mi + mi_length mi))
      then comments_loop column mis s
      else if mi_comment mi = [] then comments_loop column mis s
      else comments_loop column mis ((if s \<noteq> [] then s @ [newline] else s) @ mi_comment mi))"

definition comments :: "'c qhexmetadata \<Rightarrow> u64 \<Rightarrow> cint \<Rightarrow> string option" where
  "comments m line column =
     (if \<not> hasMetadata m line then Some []
      else do { mis \<leftarrow> metadata_get m line; Some (comments_loop column mis []) })"

section \<open>Writing\<close>

definition clear_line :: "u64 \<Rightarrow> 'c qhexmetadata \<Rightarrow> 'c qhexmetadata" where
  "clear_line line m =
     (if md_metadata m line = None then m
      else m\<lparr>md_metadata := (md_metadata m)(line := None), md_metadataChanged := md_metadataChanged m @ [line]\<rparr>)"

definition metadata_clear :: "'c qhexmetadata \<Rightarrow> 'c qhexmetadata" where
  "metadata_clear m = m\<lparr>md_absoluteMetadata := [], md_metadata := Map.empty,
     md_metadataCleared := md_metadataCleared m + 1\<rparr>"

definition setMetadata :: "'c metadata_item \<Rightarrow> 'c qhexmetadata \<Rightarrow> 'c qhexmetadata" where
  "setMetadata mi m =
     (let m = (case md_metadata m (mi_line mi) of
         None \<Rightarrow> m\<lparr>md_metadata := (md_metadata m)(mi_line mi \<mapsto> [mi])\<rparr>
       | Some mis \<Rightarrow> m\<lparr>md_metadata := (md_metadata m)(mi_line mi \<mapsto> mis @ [mi])\<rparr>)
      in m\<lparr>md_metadataChanged := md_metadataChanged m @ [mi_line mi]\<rparr>)"

text \<open>
  Quotient and remainder of a \<open>qint64\<close> by the line width, rounded towards zero: a row, converted to
  \<open>quint64\<close>, and a column, converted to \<open>int\<close>.
\<close>

definition row_of :: "u8 \<Rightarrow> qint64 \<Rightarrow> u64" where
  "row_of w off = word_of_int (sint off sdiv int (unat w))"

definition column_of :: "u8 \<Rightarrow> qint64 \<Rightarrow> cint" where
  "column_of w off = word_of_int (sint off smod int (unat w))"

definition row_start :: "u8 \<Rightarrow> 'c absolute_item \<Rightarrow> u64 \<Rightarrow> cint" where
  "row_start w mai row = (if row = row_of w (ai_begin mai) then column_of w (ai_begin mai) else 0)"

definition row_length :: "u8 \<Rightarrow> 'c absolute_item \<Rightarrow> u64 \<Rightarrow> cint" where
  "row_length w mai row =
     (if row = row_of w (ai_end mai) then column_of w (ai_end mai) - row_start w mai row else ucast w)"

definition set_row :: "'c absolute_item \<Rightarrow> u64 \<Rightarrow> 'c qhexmetadata \<Rightarrow> 'c qhexmetadata" where
  "set_row mai row m =
     (let start = row_start (md_lineWidth m) mai row; n = row_length (md_lineWidth m) mai row
      in if sint n > 0
         then setMetadata \<lparr>mi_line = row, mi_start = start, mi_length = n, mi_foreground = ai_foreground mai,
                mi_background = ai_background mai, mi_comment = ai_comment mai\<rparr> m
         else m)"

partial_function (option) set_rows ::
    "'c absolute_item \<Rightarrow> u64 \<Rightarrow> u64 \<Rightarrow> 'c qhexmetadata \<Rightarrow> 'c qhexmetadata option" where
  "set_rows mai lastRow row m =
     (if row \<le> lastRow then set_rows mai lastRow (row + 1) (set_row mai row m) else Some m)"

definition setAbsoluteMetadata :: "'c absolute_item \<Rightarrow> 'c qhexmetadata \<Rightarrow> 'c qhexmetadata option" where
  "setAbsoluteMetadata mai m =
     (if md_lineWidth m = 0 then None
      else set_rows mai (row_of (md_lineWidth m) (ai_end mai)) (row_of (md_lineWidth m) (ai_begin mai)) m)"

definition metadata_range ::
    "qint64 \<Rightarrow> qint64 \<Rightarrow> 'c \<Rightarrow> 'c \<Rightarrow> string \<Rightarrow> 'c qhexmetadata \<Rightarrow> 'c qhexmetadata option" where
  "metadata_range b e fg bg comment m =
     (let mai = \<lparr>ai_begin = b, ai_end = e, ai_foreground = fg, ai_background = bg, ai_comment = comment\<rparr>
      in setAbsoluteMetadata mai (m\<lparr>md_absoluteMetadata := md_absoluteMetadata m @ [mai]\<rparr>))"

fun regenerate :: "'c absolute_item list \<Rightarrow> 'c qhexmetadata \<Rightarrow> 'c qhexmetadata option" where
  "regenerate [] m = Some m"
| "regenerate (mai # mais) m = do { m \<leftarrow> setAbsoluteMetadata mai m; regenerate mais m }"

definition metadata_setLineWidth :: "u8 \<Rightarrow> 'c qhexmetadata \<Rightarrow> 'c qhexmetadata option" where
  "metadata_setLineWidth width m =
     (if width \<noteq> md_lineWidth m
      then regenerate (md_absoluteMetadata m) (m\<lparr>md_lineWidth := width, md_metadata := Map.empty\<rparr>)
      else Some m)"

definition metadata_line ::
    "u64 \<Rightarrow> cint \<Rightarrow> cint \<Rightarrow> 'c \<Rightarrow> 'c \<Rightarrow> string \<Rightarrow> 'c qhexmetadata \<Rightarrow> 'c qhexmetadata option" where
  "metadata_line line start n fg bg comment m =
     (let b = line * ucast (md_lineWidth m) + scast start; e = b + scast n
      in metadata_range b e fg bg comment m)"

definition metadata_color ::
    "u64 \<Rightarrow> cint \<Rightarrow> cint \<Rightarrow> 'c \<Rightarrow> 'c \<Rightarrow> 'c qhexmetadata \<Rightarrow> 'c qhexmetadata option" where
  "metadata_color line start n fg bg m = metadata_line line start n fg bg [] m"

definition metadata_foreground ::
    "'c \<Rightarrow> u64 \<Rightarrow> cint \<Rightarrow> cint \<Rightarrow> 'c \<Rightarrow> 'c qhexmetadata \<Rightarrow> 'c qhexmetadata option" where
  "metadata_foreground nocolor line start n fg m = metadata_color line start n fg nocolor m"

definition metadata_background ::
    "'c \<Rightarrow> u64 \<Rightarrow> cint \<Rightarrow> cint \<Rightarrow> 'c \<Rightarrow> 'c qhexmetadata \<Rightarrow> 'c qhexmetadata option" where
  "metadata_background nocolor line start n bg m = metadata_color line start n nocolor bg m"

definition metadata_comment ::
    "'c \<Rightarrow> u64 \<Rightarrow> cint \<Rightarrow> cint \<Rightarrow> string \<Rightarrow> 'c qhexmetadata \<Rightarrow> 'c qhexmetadata option" where
  "metadata_comment nocolor line start n comment m = metadata_line line start n nocolor nocolor comment m"


section \<open>Rows and columns\<close>

lemma row_of_nat:
  assumes "0 \<le> sint off" "w \<noteq> 0"
  shows "unat (row_of w off) = unat off div unat w"
proof -
  have "sint off sdiv int (unat w) = int (unat off div unat w)"
    unfolding sint_nonneg [OF assms(1)] by (simp add: signed_divide_int_def sgn_if zdiv_int del: of_nat_unat)
  moreover have "unat off div unat w \<le> unat off" by simp
  then have "unat off div unat w < 2 ^ 64" by (rule le_less_trans) (use qint64_nonneg [OF assms(1)] in simp)
  ultimately show ?thesis by (simp add: row_of_def unat_of_nat_u64 del: of_nat_unat)
qed

lemma column_of_nat:
  assumes "0 \<le> sint off" "w \<noteq> 0"
  shows "sint (column_of w off) = int (unat off mod unat w)"
proof -
  have "0 < unat w" using assms(2) by (simp add: unat_gt_0)
  then have lt: "unat off mod unat w < 256" using unat_u8 [of w] mod_less_divisor less_trans by blast
  have "sint off smod int (unat w) = int (unat off mod unat w)"
    unfolding sint_nonneg [OF assms(1)]
    by (simp add: signed_modulo_int_def signed_divide_int_def sgn_if zmod_int minus_div_mult_eq_mod del: of_nat_unat)
  moreover have "unat (of_nat (unat off mod unat w) :: cint) = unat off mod unat w"
    by (rule unat_of_nat_cint) (use lt in simp)
  moreover have "sint (of_nat (unat off mod unat w) :: cint) = int (unat (of_nat (unat off mod unat w) :: cint))"
    by (rule sint_small) (use lt calculation(2) in simp)
  ultimately show ?thesis by (simp add: column_of_def del: of_nat_unat)
qed


section \<open>One item per line\<close>

definition covers :: "cint \<Rightarrow> 'c metadata_item \<Rightarrow> bool" where
  "covers col mi \<longleftrightarrow> sint (mi_start mi) \<le> sint col \<and> sint col < sint (mi_start mi + mi_length mi)"

definition line_items :: "'c qhexmetadata \<Rightarrow> u64 \<Rightarrow> 'c metadata_item list" where
  "line_items m line = (case md_metadata m line of None \<Rightarrow> [] | Some mis \<Rightarrow> mis)"

definition row_items :: "u8 \<Rightarrow> 'c absolute_item \<Rightarrow> u64 \<Rightarrow> 'c metadata_item list" where
  "row_items w mai row =
     (if sint (row_length w mai row) > 0
      then [\<lparr>mi_line = row, mi_start = row_start w mai row, mi_length = row_length w mai row,
             mi_foreground = ai_foreground mai, mi_background = ai_background mai, mi_comment = ai_comment mai\<rparr>]
      else [])"

lemma nat_le_row:
  assumes "c < (w :: nat)"
  shows "b \<le> r * w + c \<longleftrightarrow> b div w < r \<or> (b div w = r \<and> b mod w \<le> c)"
proof -
  have b: "b = b div w * w + b mod w" by simp
  have m: "b mod w < w" using assms by simp
  consider "b div w < r" | "b div w = r" | "r < b div w" by linarith
  then show ?thesis
  proof cases
    case 1
    then have "(b div w + 1) * w \<le> r * w" by (intro mult_le_mono1) simp
    then have "b div w * w + w \<le> r * w" by (simp add: add.commute)
    then have "b < r * w + c" using b m by linarith
    then show ?thesis using 1 by simp
  next
    case 2
    then have "b = r * w + b mod w" using b by simp
    then show ?thesis using 2 by (metis nat_add_left_cancel_le nat_less_le)
  next
    case 3
    then have "(r + 1) * w \<le> b div w * w" by (intro mult_le_mono1) simp
    then have "r * w + w \<le> b div w * w" by (simp add: add.commute)
    then have "r * w + c < b" using b assms by linarith
    then show ?thesis using 3 by simp
  qed
qed

lemma sint_add_small: "\<bar>sint a\<bar> < 1024 \<Longrightarrow> \<bar>sint b\<bar> < 1024 \<Longrightarrow> sint (a + b) = sint a + sint b" for a b :: cint
  by (simp add: sint_word_ariths signed_take_bit_int_eq_self)

lemma sint_diff_small: "\<bar>sint a\<bar> < 1024 \<Longrightarrow> \<bar>sint b\<bar> < 1024 \<Longrightarrow> sint (a - b) = sint a - sint b" for a b :: cint
  by (simp add: sint_word_ariths signed_take_bit_int_eq_self)

lemma sint_width: "sint (ucast w :: cint) = int (unat w)" for w :: u8
proof -
  have "unat (ucast w :: cint) = unat w"
    using unat_u8 [of w] by (simp add: unsigned_ucast_eq take_bit_nat_eq_self)
  then show ?thesis using sint_small [of "ucast w :: cint"] unat_u8 [of w] by simp
qed

text \<open>The item that a range leaves on a row covers a column exactly when the range covers its offset.\<close>

lemma row_covers:
  assumes "w \<noteq> 0" "0 \<le> sint (ai_begin mai)" "0 \<le> sint (ai_end mai)" "unat col < unat w"
  shows "(row_of w (ai_begin mai) \<le> row \<and> row \<le> row_of w (ai_end mai) \<and>
           (\<exists>mi. row_items w mai row = [mi] \<and> covers col mi)) \<longleftrightarrow>
         unat (ai_begin mai) \<le> unat row * unat w + unat col \<and> unat row * unat w + unat col < unat (ai_end mai)"
proof -
  let ?b = "unat (ai_begin mai)" and ?e = "unat (ai_end mai)" and ?w = "unat w" and ?r = "unat row" and ?c = "unat col"
  have rb: "unat (row_of w (ai_begin mai)) = ?b div ?w" and re: "unat (row_of w (ai_end mai)) = ?e div ?w"
    using row_of_nat assms(1-3) by blast+
  have w: "0 < ?w" "?w < 256" using assms(1) unat_u8 [of w] by (simp_all add: unat_gt_0)
  have mb: "?b mod ?w < ?w" "?e mod ?w < ?w" using w(1) by simp_all
  have c: "sint col = int ?c" by (rule sint_small) (use assms(4) w(2) in simp)
  let ?s = "if ?r = ?b div ?w then int (?b mod ?w) else 0"
  have eqb: "row = row_of w (ai_begin mai) \<longleftrightarrow> ?r = ?b div ?w" and eqe: "row = row_of w (ai_end mai) \<longleftrightarrow> ?r = ?e div ?w"
    unfolding rb [symmetric] re [symmetric] by (simp_all add: word_unat_eq_iff)
  have s: "sint (row_start w mai row) = ?s"
    using column_of_nat [OF assms(2,1)] by (simp add: row_start_def eqb del: of_nat_unat)
  have sb: "0 \<le> ?s" "?s < 256" using mb(1) w(2) by (auto simp: less_trans)
  let ?n = "if ?r = ?e div ?w then int (?e mod ?w) - ?s else int ?w"
  have n: "sint (row_length w mai row) = ?n"
  proof (cases "?r = ?e div ?w")
    case True
    have "sint (column_of w (ai_end mai) - row_start w mai row) = int (?e mod ?w) - ?s"
      using sint_diff_small [of "column_of w (ai_end mai)" "row_start w mai row"] s sb mb(2) w(2)
        column_of_nat [OF assms(3,1)] by linarith
    then show ?thesis using True by (simp add: row_length_def eqe del: of_nat_unat)
  next
    case False
    then show ?thesis by (simp add: row_length_def eqe sint_width del: of_nat_unat)
  qed
  have "\<bar>?n\<bar> < 1024" using sb mb(2) w(2) by (auto simp del: of_nat_unat)
  then have sn: "sint (row_start w mai row + row_length w mai row) = ?s + ?n"
    using sint_add_small [of "row_start w mai row" "row_length w mai row"] s n sb by linarith
  have le: "row_of w (ai_begin mai) \<le> row \<longleftrightarrow> ?b div ?w \<le> ?r" "row \<le> row_of w (ai_end mai) \<longleftrightarrow> ?r \<le> ?e div ?w"
    unfolding word_le_nat_alt rb re by simp_all
  have ex: "(\<exists>mi. row_items w mai row = [mi] \<and> covers col mi) \<longleftrightarrow> 0 < ?n \<and> ?s \<le> int ?c \<and> int ?c < ?s + ?n"
    by (simp add: row_items_def covers_def s n sn c del: of_nat_unat)
  have lo: "?b \<le> ?r * ?w + ?c \<longleftrightarrow> ?b div ?w < ?r \<or> (?b div ?w = ?r \<and> ?b mod ?w \<le> ?c)"
    by (rule nat_le_row [OF assms(4)])
  have hi: "?e \<le> ?r * ?w + ?c \<longleftrightarrow> ?e div ?w < ?r \<or> (?e div ?w = ?r \<and> ?e mod ?w \<le> ?c)"
    by (rule nat_le_row [OF assms(4)])
  show ?thesis unfolding le ex lo not_le [symmetric] hi
    using assms(4) w(1) by (auto simp del: of_nat_unat split: if_splits)
qed


section \<open>The effect of the operations\<close>

lemma set_row_effect:
  "line_items (set_row mai row m) line = line_items m line @ (if line = row then row_items (md_lineWidth m) mai row else [])"
  "md_lineWidth (set_row mai row m) = md_lineWidth m"
  "md_absoluteMetadata (set_row mai row m) = md_absoluteMetadata m"
  by (auto simp: set_row_def setMetadata_def row_items_def line_items_def Let_def split: option.split)

lemma unat_all_ones: "unat (- 1 :: u64) = 2 ^ 64 - 1"
  by (simp add: unsigned_minus_1_eq_mask mask_eq_exp_minus_1)

lemma set_rows_effect:
  assumes "lastRow \<noteq> - 1"
  shows "\<exists>m'. set_rows mai lastRow row m = Some m' \<and> md_lineWidth m' = md_lineWidth m \<and>
    md_absoluteMetadata m' = md_absoluteMetadata m \<and>
    (\<forall>line. line_items m' line = line_items m line @
      (if row \<le> line \<and> line \<le> lastRow then row_items (md_lineWidth m) mai line else []))"
proof (induction "unat lastRow + 1 - unat row" arbitrary: row m rule: less_induct)
  case less
  show ?case
  proof (cases "row \<le> lastRow")
    case False
    then have "\<not> (row \<le> line \<and> line \<le> lastRow)" for line by (meson order_trans)
    then show ?thesis using False by (subst set_rows.simps) auto
  next
    case True
    have "unat lastRow \<noteq> 2 ^ 64 - 1" using assms unat_all_ones by (metis word_unat_eq_iff)
    then have "unat lastRow + 1 < 2 ^ 64" using unsigned_less [of lastRow, where ?'a = nat] by simp
    then have s: "unat (row + 1) = unat row + 1" using True by (simp add: unat_word_ariths word_le_nat_alt)
    have "unat lastRow + 1 - unat (row + 1) < unat lastRow + 1 - unat row"
      using True s by (simp add: word_le_nat_alt)
    from less [OF this, of "set_row mai row m"] obtain m' where m':
      "set_rows mai lastRow (row + 1) (set_row mai row m) = Some m'"
      "md_lineWidth m' = md_lineWidth m" "md_absoluteMetadata m' = md_absoluteMetadata m"
      "\<And>line. line_items m' line = line_items (set_row mai row m) line @
        (if row + 1 \<le> line \<and> line \<le> lastRow then row_items (md_lineWidth m) mai line else [])"
      by (auto simp: set_row_effect)
    have "row \<le> line \<longleftrightarrow> line = row \<or> row + 1 \<le> line" for line
      using s by (auto simp: word_le_nat_alt word_unat_eq_iff)
    moreover have "\<not> row + 1 \<le> row" using s by (simp add: word_le_nat_alt)
    ultimately have "line_items m' line = line_items m line @
        (if row \<le> line \<and> line \<le> lastRow then row_items (md_lineWidth m) mai line else [])" for line
      using m'(4) [of line] True by (auto simp: set_row_effect)
    then show ?thesis using True m'(1-3) by (subst set_rows.simps) simp
  qed
qed


text \<open>The ranges that an entry list holds, as offsets with what is shown there.\<close>

type_synonym 'c shown = "'c \<times> 'c \<times> string"
type_synonym 'c range = "nat \<times> nat \<times> 'c shown"

definition item_shown :: "'c metadata_item \<Rightarrow> 'c shown" where
  "item_shown mi = (mi_foreground mi, mi_background mi, mi_comment mi)"

definition range_of :: "'c absolute_item \<Rightarrow> 'c range" where
  "range_of a = (unat (ai_begin a), unat (ai_end a), ai_foreground a, ai_background a, ai_comment a)"

definition shown_at :: "nat \<Rightarrow> 'c range list \<Rightarrow> 'c shown list" where
  "shown_at off rs = map (snd \<circ> snd) (filter (\<lambda>(b, e, _). b \<le> off \<and> off < e) rs)"

definition signs_ok :: "'c absolute_item \<Rightarrow> bool" where
  "signs_ok a \<longleftrightarrow> 0 \<le> sint (ai_begin a) \<and> 0 \<le> sint (ai_end a)"

definition projects :: "'c range list \<Rightarrow> 'c qhexmetadata \<Rightarrow> bool" where
  "projects rs m \<longleftrightarrow> (\<forall>line col. unat col < unat (md_lineWidth m) \<longrightarrow>
     map item_shown (filter (covers col) (line_items m line)) =
     shown_at (unat line * unat (md_lineWidth m) + unat col) rs)"

lemma shown_at_append: "shown_at off (rs @ ss) = shown_at off rs @ shown_at off ss"
  by (simp add: shown_at_def)

lemma set_absolute_effect:
  assumes "md_lineWidth m \<noteq> 0" "signs_ok mai" "projects rs m"
  shows "\<exists>m'. setAbsoluteMetadata mai m = Some m' \<and> md_lineWidth m' = md_lineWidth m \<and>
    md_absoluteMetadata m' = md_absoluteMetadata m \<and> projects (rs @ [range_of mai]) m'"
proof -
  let ?w = "md_lineWidth m"
  have e: "0 \<le> sint (ai_begin mai)" "0 \<le> sint (ai_end mai)" using assms(2) by (simp_all add: signs_ok_def)
  have "unat (row_of ?w (ai_end mai)) \<le> unat (ai_end mai)" using row_of_nat [OF e(2) assms(1)] by simp
  then have "unat (row_of ?w (ai_end mai)) < 2 ^ 63" using qint64_nonneg [OF e(2)] by (rule le_less_trans)
  then have "row_of ?w (ai_end mai) \<noteq> - 1" using unat_all_ones by auto
  then obtain m' where m': "setAbsoluteMetadata mai m = Some m'" "md_lineWidth m' = ?w"
    "md_absoluteMetadata m' = md_absoluteMetadata m"
    "\<And>line. line_items m' line = line_items m line @
      (if row_of ?w (ai_begin mai) \<le> line \<and> line \<le> row_of ?w (ai_end mai) then row_items ?w mai line else [])"
    using set_rows_effect [of "row_of ?w (ai_end mai)" mai "row_of ?w (ai_begin mai)" m] assms(1)
    by (auto simp: setAbsoluteMetadata_def)
  have "map item_shown (filter (covers col) (line_items m' line)) =
      shown_at (unat line * unat ?w + unat col) (rs @ [range_of mai])" if c: "unat col < unat ?w" for line col
  proof -
    let ?in = "row_of ?w (ai_begin mai) \<le> line \<and> line \<le> row_of ?w (ai_end mai)"
    have "map item_shown (filter (covers col) (if ?in then row_items ?w mai line else [])) =
        shown_at (unat line * unat ?w + unat col) [range_of mai]"
      using row_covers [OF assms(1) e c, of line]
      by (auto simp: row_items_def shown_at_def range_of_def item_shown_def split: if_splits)
    then show ?thesis using assms(3) c by (simp add: m'(4) shown_at_append projects_def)
  qed
  then show ?thesis using m'(1-3) by (auto simp: projects_def)
qed

lemma regenerate_effect:
  assumes "md_lineWidth m \<noteq> 0" "\<forall>a \<in> set as. signs_ok a" "projects rs m"
  shows "\<exists>m'. regenerate as m = Some m' \<and> md_lineWidth m' = md_lineWidth m \<and>
    md_absoluteMetadata m' = md_absoluteMetadata m \<and> projects (rs @ map range_of as) m'"
  using assms
proof (induction as arbitrary: m rs)
  case (Cons a as)
  obtain m1 where m1: "setAbsoluteMetadata a m = Some m1" "md_lineWidth m1 = md_lineWidth m"
    "md_absoluteMetadata m1 = md_absoluteMetadata m" "projects (rs @ [range_of a]) m1"
    using set_absolute_effect [of m a rs] Cons.prems by auto
  then show ?case using Cons.IH [of m1 "rs @ [range_of a]"] Cons.prems by auto
qed simp

text \<open>The invariant: the entries are the ranges in order, and the items of the lines project them.\<close>

definition metadata_ok :: "u8 \<Rightarrow> 'c range list \<Rightarrow> 'c qhexmetadata \<Rightarrow> bool" where
  "metadata_ok w rs m \<longleftrightarrow> w \<noteq> 0 \<and> md_lineWidth m = w \<and> map range_of (md_absoluteMetadata m) = rs \<and>
     (\<forall>a \<in> set (md_absoluteMetadata m). signs_ok a) \<and> projects rs m"

lemma range_effect:
  assumes "metadata_ok w rs m" "0 \<le> sint b" "0 \<le> sint e"
  shows "\<exists>m'. metadata_range b e fg bg c m = Some m' \<and> metadata_ok w (rs @ [(unat b, unat e, fg, bg, c)]) m'"
proof -
  let ?a = "\<lparr>ai_begin = b, ai_end = e, ai_foreground = fg, ai_background = bg, ai_comment = c\<rparr>"
  let ?m = "m\<lparr>md_absoluteMetadata := md_absoluteMetadata m @ [?a]\<rparr>"
  have "projects rs ?m" using assms(1) by (simp add: metadata_ok_def projects_def line_items_def)
  then obtain m' where "setAbsoluteMetadata ?a ?m = Some m'" "md_lineWidth m' = md_lineWidth ?m"
    "md_absoluteMetadata m' = md_absoluteMetadata ?m" "projects (rs @ [range_of ?a]) m'"
    using set_absolute_effect [of ?m ?a rs] assms by (auto simp: metadata_ok_def signs_ok_def)
  then show ?thesis using assms by (auto simp: metadata_range_def metadata_ok_def range_of_def signs_ok_def Let_def)
qed

lemma width_effect:
  assumes "metadata_ok w rs m" "width \<noteq> 0"
  shows "\<exists>m'. metadata_setLineWidth width m = Some m' \<and> metadata_ok width rs m'"
proof (cases "width = w")
  case False
  let ?m = "m\<lparr>md_lineWidth := width, md_metadata := Map.empty\<rparr>"
  have "projects [] ?m" by (simp add: projects_def line_items_def shown_at_def)
  then obtain m' where "regenerate (md_absoluteMetadata m) ?m = Some m'" "md_lineWidth m' = width"
    "md_absoluteMetadata m' = md_absoluteMetadata m" "projects (map range_of (md_absoluteMetadata m)) m'"
    using regenerate_effect [of ?m "md_absoluteMetadata m" "[]"] assms by (auto simp: metadata_ok_def)
  then show ?thesis using False assms by (auto simp: metadata_setLineWidth_def metadata_ok_def)
qed (use assms in \<open>simp add: metadata_setLineWidth_def metadata_ok_def\<close>)

lemma clear_effect: "metadata_ok w rs m \<Longrightarrow> metadata_ok w [] (metadata_clear m)"
  by (simp add: metadata_ok_def metadata_clear_def projects_def line_items_def shown_at_def)

lemma new_effect:
  "\<exists>m. metadata_setLineWidth 0x10 (metadata_new g) = Some m \<and> metadata_ok 0x10 [] m"
  by (auto simp: metadata_setLineWidth_def metadata_new_def metadata_ok_def projects_def line_items_def shown_at_def)


section \<open>Comments\<close>

fun join_lines :: "string list \<Rightarrow> string" where
  "join_lines [] = []"
| "join_lines [x] = x"
| "join_lines (x # y # xs) = x @ newline # join_lines (y # xs)"

lemma join_lines_merge: "join_lines ((x @ newline # y) # xs) = join_lines (x # y # xs)"
  by (cases xs) simp_all

lemma comments_loop_join:
  "comments_loop col mis s =
     join_lines ((if s = [] then [] else [s]) @ filter (\<lambda>c. c \<noteq> []) (map mi_comment (filter (covers col) mis)))"
proof (induction mis arbitrary: s)
  case (Cons mi mis)
  then show ?case by (auto simp: covers_def join_lines_merge)
qed simp

definition range_comment :: "'c shown \<Rightarrow> string" where "range_comment x = snd (snd x)"

lemma comments_join:
  assumes "projects rs m" "unat col < unat (md_lineWidth m)"
  shows "comments m line col = Some (join_lines (filter (\<lambda>c. c \<noteq> [])
    (map range_comment (shown_at (unat line * unat (md_lineWidth m) + unat col) rs))))"
proof -
  have "map range_comment (shown_at (unat line * unat (md_lineWidth m) + unat col) rs) =
      map range_comment (map item_shown (filter (covers col) (line_items m line)))"
    using assms by (simp add: projects_def)
  also have "\<dots> = map mi_comment (filter (covers col) (line_items m line))"
    by (simp add: range_comment_def item_shown_def)
  finally show ?thesis
    by (cases "md_metadata m line")
       (simp_all add: comments_def hasMetadata_def metadata_get_def line_items_def comments_loop_join)
qed

section \<open>Runs\<close>

datatype 'c md_op =
    Md_range qint64 qint64 'c 'c string
  | Md_line u64 cint cint 'c 'c string
  | Md_width u8
  | Md_clear

fun md_exec :: "'c md_op \<Rightarrow> 'c qhexmetadata \<Rightarrow> 'c qhexmetadata option" where
  "md_exec (Md_range b e fg bg c) m = metadata_range b e fg bg c m"
| "md_exec (Md_line line start n fg bg c) m = metadata_line line start n fg bg c m"
| "md_exec (Md_width w) m = metadata_setLineWidth w m"
| "md_exec Md_clear m = Some (metadata_clear m)"

fun md_run :: "'c md_op list \<Rightarrow> 'c qhexmetadata \<Rightarrow> 'c qhexmetadata option" where
  "md_run [] m = Some m"
| "md_run (op # ops) m = do { m \<leftarrow> md_exec op m; md_run ops m }"

text \<open>What the operations mean: a line width and the list of ranges.\<close>

fun md_spec :: "'c md_op \<Rightarrow> u8 \<times> 'c range list \<Rightarrow> u8 \<times> 'c range list" where
  "md_spec (Md_range b e fg bg c) (w, rs) = (w, rs @ [(unat b, unat e, fg, bg, c)])"
| "md_spec (Md_line line start n fg bg c) (w, rs) =
     (let b = unat line * unat w + unat start in (w, rs @ [(b, b + unat n, fg, bg, c)]))"
| "md_spec (Md_width w') (w, rs) = (w', rs)"
| "md_spec Md_clear (w, rs) = (w, [])"

fun md_op_ok :: "'c md_op \<Rightarrow> u8 \<Rightarrow> bool" where
  "md_op_ok (Md_range b e fg bg c) w \<longleftrightarrow> 0 \<le> sint b \<and> 0 \<le> sint e"
| "md_op_ok (Md_line line start n fg bg c) w \<longleftrightarrow> 0 \<le> sint start \<and> 0 \<le> sint n \<and>
     unat line * unat w + unat start + unat n < 2 ^ 63"
| "md_op_ok (Md_width w') w \<longleftrightarrow> w' \<noteq> 0"
| "md_op_ok Md_clear w \<longleftrightarrow> True"

fun md_ops_ok :: "'c md_op list \<Rightarrow> u8 \<times> 'c range list \<Rightarrow> bool" where
  "md_ops_ok [] st \<longleftrightarrow> True"
| "md_ops_ok (op # ops) st \<longleftrightarrow> md_op_ok op (fst st) \<and> md_ops_ok ops (md_spec op st)"

lemma line_offsets:
  fixes line :: u64 and start n :: cint and w :: u8
  assumes "0 \<le> sint start" "0 \<le> sint n" "unat line * unat w + unat start + unat n < 2 ^ 63"
  shows "unat (line * ucast w + scast start) = unat line * unat w + unat start"
    "unat (line * ucast w + scast start + scast n) = unat line * unat w + unat start + unat n"
proof -
  have "scast x = (of_nat (unat x) :: u64)" if "0 \<le> sint x" for x :: cint
    using sint_nonneg [OF that] by (simp add: scast_eq)
  then have b: "line * ucast w + scast start = (of_nat (unat line * unat w + unat start) :: u64)"
    "line * ucast w + scast start + scast n = (of_nat (unat line * unat w + unat start + unat n) :: u64)"
    using assms(1,2) by simp_all
  show "unat (line * ucast w + scast start) = unat line * unat w + unat start"
    unfolding b(1) by (rule unat_of_nat_u64) (use assms(3) in simp)
  show "unat (line * ucast w + scast start + scast n) = unat line * unat w + unat start + unat n"
    unfolding b(2) by (rule unat_of_nat_u64) (use assms(3) in simp)
qed

lemma md_exec_effect:
  assumes "metadata_ok w rs m" "md_op_ok op w"
  shows "\<exists>m'. md_exec op m = Some m' \<and> metadata_ok (fst (md_spec op (w, rs))) (snd (md_spec op (w, rs))) m'"
proof (cases op)
  case (Md_range b e fg bg c)
  then show ?thesis using range_effect [OF assms(1), of b e] assms(2) by simp
next
  case (Md_line line start n fg bg c)
  then have s: "0 \<le> sint start" "0 \<le> sint n" "unat line * unat w + unat start + unat n < 2 ^ 63"
    using assms(2) by simp_all
  let ?b = "line * ucast w + scast start :: qint64"
  have off: "unat ?b = unat line * unat w + unat start" "unat (?b + scast n) = unat line * unat w + unat start + unat n"
    using line_offsets [OF s] by blast+
  have "0 \<le> sint ?b" "0 \<le> sint (?b + scast n)"
    using sint_small [of ?b] sint_small [of "?b + scast n"] off s(3) by simp_all
  moreover have "md_lineWidth m = w" using assms(1) by (simp add: metadata_ok_def)
  ultimately show ?thesis using range_effect [OF assms(1), of ?b "?b + scast n"] off Md_line
    by (simp add: metadata_line_def Let_def del: of_nat_unat)
next
  case (Md_width width)
  then show ?thesis using width_effect [OF assms(1)] assms(2) by simp
next
  case Md_clear
  then show ?thesis using clear_effect [OF assms(1)] by simp
qed

lemma md_run_effect:
  assumes "metadata_ok w rs m" "md_ops_ok ops (w, rs)"
  shows "\<exists>m'. md_run ops m = Some m' \<and>
    metadata_ok (fst (fold md_spec ops (w, rs))) (snd (fold md_spec ops (w, rs))) m'"
  using assms
proof (induction ops arbitrary: m w rs)
  case (Cons op ops)
  obtain m1 where m1: "md_exec op m = Some m1" "metadata_ok (fst (md_spec op (w, rs))) (snd (md_spec op (w, rs))) m1"
    using md_exec_effect [OF Cons.prems(1)] Cons.prems(2) by auto
  then show ?case using Cons.IH [OF m1(2)] Cons.prems(2) by simp
qed simp

lemma set_rows_all_ones: "set_rows mai (- 1) row m = None"
proof -
  have "last = - 1 \<longrightarrow> False" if "set_rows mai last row m = Some m'" for last :: u64 and m'
  proof (rule set_rows.raw_induct [OF _ that, where P = "\<lambda>mai last row m m'. last = - 1 \<longrightarrow> False"])
    fix f :: "'a absolute_item \<Rightarrow> u64 \<Rightarrow> u64 \<Rightarrow> 'a qhexmetadata \<Rightarrow> 'a qhexmetadata option"
      and mai :: "'a absolute_item" and last row :: u64 and m m' :: "'a qhexmetadata"
    assume "\<And>mai last row m m'. f mai last row m = Some m' \<Longrightarrow> last = - 1 \<longrightarrow> False"
      and "(if row \<le> last then f mai last (row + 1) (set_row mai row m) else Some m) = Some m'"
    then show "last = - 1 \<longrightarrow> False" by (auto split: if_splits)
  qed
  then show ?thesis by (cases "set_rows mai (- 1) row m") auto
qed

section \<open>Properties\<close>



text \<open>A negative end can hang the view. An end between \<open>- w\<close> and \<open>- 2 * w\<close> (a negative
length on the first line gives one) has the last row \<open>2 ^ 64 - 1\<close>, which the row counter never exceeds:
the operation does not return.\<close>

theorem negative_end_hangs:
  assumes "md_lineWidth m = w" "sint e \<le> - int (unat w)" "- 2 * int (unat w) < sint e"
  shows "metadata_range b e fg bg c m = None"
proof (cases "w = 0")
  case False
  have "- sint e div int (unat w) = 1"
    by (rule int_div_pos_eq [of _ _ _ "- sint e - int (unat w)"]) (use assms(2,3) in simp_all)
  then have "row_of w e = - 1" using assms(2,3) False
    by (simp add: row_of_def signed_divide_int_def sgn_if abs_if)
  then show ?thesis using False assms(1)
    by (simp add: metadata_range_def setAbsoluteMetadata_def set_rows_all_ones Let_def)
qed (use assms(1) in \<open>simp add: metadata_range_def setAbsoluteMetadata_def Let_def\<close>)

section \<open>Concrete entries\<close>

definition two_comments :: "nat md_op list" where
  "two_comments = [Md_range 5 40 0 0 ''a'', Md_width 8, Md_line 1 2 3 0 0 ''b'']"

definition two_ranges :: "nat range list" where
  "two_ranges = [(5, 40, 0, 0, ''a''), (10, 13, 0, 0, ''b'')]"


theorem negative_end_hangs_witness:
  "metadata_range 0 (- 16) 0 0 ''x'' (metadata_new 0x10 :: nat qhexmetadata) = None"
  by (rule negative_end_hangs [where w = "0x10"]) (simp_all add: metadata_new_def)

end
