(* ===== verification/Hex_Document.thy ===== *)
theory Hex_Document
  imports Hex_Buffer Hex_Cursor Hex_Metadata
begin

text \<open>
  The document of the client's hex view: its undoable commands
  (\<open>client/QHexView/document/commands/\<close>) and \<open>client/QHexView/document/qhexdocument.h\<close> and \<open>.cpp\<close>, over the
  buffers of \<open>Hex_Buffer\<close>, the cursor and the metadata.

  \<open>QUndoStack\<close> is third-party code: \<open>undo_ops\<close> holds what the source uses of it, and the locale
  \<open>undo_stack\<close> its documented behaviour over a view, the commands done (latest first) and those undone
  (next first). The clipboard's text is an argument of \<open>paste\<close> and a result of \<open>copy\<close>.

  The lemmas: undo and redo walk through the history of the contents, edits of the selection, and
  what searching does to the cursor.
\<close>

section \<open>Commands\<close>

text \<open>The fields \<open>m_offset\<close>, \<open>m_length\<close>, \<open>m_data\<close> and \<open>m_olddata\<close> that a command uses; the buffer is the document's.\<close>

datatype hex_command =
    Insert_command qint64 "byte list"
  | Remove_command qint64 cint "byte list"
  | Replace_command qint64 "byte list" "byte list"

definition insert_command :: "qint64 \<Rightarrow> byte list \<Rightarrow> hex_command" where
  "insert_command off data = Insert_command off data"

definition remove_command :: "qint64 \<Rightarrow> cint \<Rightarrow> hex_command" where
  "remove_command off n = Remove_command off n []"

definition replace_command :: "qint64 \<Rightarrow> byte list \<Rightarrow> hex_command" where
  "replace_command off data = Replace_command off data []"

definition insert_redo :: "'b hex_ops \<Rightarrow> qint64 \<Rightarrow> byte list \<Rightarrow> 'b \<Rightarrow> 'b" where
  "insert_redo ops off data b = ho_insert ops off data b"

definition insert_undo :: "'b hex_ops \<Rightarrow> qint64 \<Rightarrow> byte list \<Rightarrow> 'b \<Rightarrow> 'b" where
  "insert_undo ops off data b = ho_remove ops off (of_nat (length data)) b"

text \<open>\<open>redo\<close> of the other two keeps the bytes it overwrites in the command: it returns them.\<close>

definition remove_redo :: "'b hex_ops \<Rightarrow> qint64 \<Rightarrow> cint \<Rightarrow> 'b \<Rightarrow> byte list \<times> 'b" where
  "remove_redo ops off n b = (case ho_read ops off n b of (data, b) \<Rightarrow> (data, ho_remove ops off n b))"

definition remove_undo :: "'b hex_ops \<Rightarrow> qint64 \<Rightarrow> byte list \<Rightarrow> 'b \<Rightarrow> 'b" where
  "remove_undo ops off data b = ho_insert ops off data b"

definition replace_redo :: "'b hex_ops \<Rightarrow> qint64 \<Rightarrow> byte list \<Rightarrow> 'b \<Rightarrow> byte list \<times> 'b" where
  "replace_redo ops off data b =
     (case ho_read ops off (of_nat (length data)) b of (olddata, b) \<Rightarrow> (olddata, hexbuffer_replace ops off data b))"

definition replace_undo :: "'b hex_ops \<Rightarrow> qint64 \<Rightarrow> byte list \<Rightarrow> 'b \<Rightarrow> 'b" where
  "replace_undo ops off olddata b = hexbuffer_replace ops off olddata b"

lemmas command_defs = insert_redo_def insert_undo_def remove_redo_def remove_undo_def replace_redo_def replace_undo_def

declare command_defs [simp]

text \<open>The virtual calls: the command as \<open>redo\<close> leaves it, and the buffer.\<close>

fun command_redo :: "'b hex_ops \<Rightarrow> hex_command \<Rightarrow> 'b \<Rightarrow> hex_command \<times> 'b" where
  "command_redo ops (Insert_command off data) b = (Insert_command off data, insert_redo ops off data b)"
| "command_redo ops (Remove_command off n data) b = apfst (Remove_command off n) (remove_redo ops off n b)"
| "command_redo ops (Replace_command off data olddata) b =
     apfst (Replace_command off data) (replace_redo ops off data b)"

fun command_undo :: "'b hex_ops \<Rightarrow> hex_command \<Rightarrow> 'b \<Rightarrow> 'b" where
  "command_undo ops (Insert_command off data) b = insert_undo ops off data b"
| "command_undo ops (Remove_command off n data) b = remove_undo ops off data b"
| "command_undo ops (Replace_command off data olddata) b = replace_undo ops off olddata b"

section \<open>The undo stack\<close>

text \<open>
  \<open>us_push\<close> puts a command that has been executed on the stack. \<open>us_undo\<close> and \<open>us_redo\<close> select the
  command to undo or redo, with the stack after it, given the command object as that call leaves it.
\<close>

record 's undo_ops =
  us_push :: "hex_command \<Rightarrow> 's \<Rightarrow> 's"
  us_undo :: "'s \<Rightarrow> (hex_command \<times> (hex_command \<Rightarrow> 's)) option"
  us_redo :: "'s \<Rightarrow> (hex_command \<times> (hex_command \<Rightarrow> 's)) option"

locale undo_stack =
  fixes us :: "'s undo_ops" and view :: "'s \<Rightarrow> hex_command list \<times> hex_command list"
  assumes push_view: "view (us_push us c s) = (c # fst (view s), [])"
    and undo_empty: "fst (view s) = [] \<Longrightarrow> us_undo us s = None"
    and undo_view: "view s = (c # cs, ds) \<Longrightarrow> \<exists>k. us_undo us s = Some (c, k) \<and> (\<forall>c'. view (k c') = (cs, c' # ds))"
    and redo_empty: "snd (view s) = [] \<Longrightarrow> us_redo us s = None"
    and redo_view: "view s = (cs, d # ds) \<Longrightarrow> \<exists>k. us_redo us s = Some (d, k) \<and> (\<forall>d'. view (k d') = (d' # cs, ds))"

section \<open>The document\<close>

record ('b, 's, 'c) qhexdocument =
  doc_buffer :: 'b
  doc_metadata :: "'c qhexmetadata"
  doc_undostack :: 's
  doc_cursor :: qhexcursor
  doc_baseaddress :: u64
  doc_areaindent :: u8
  doc_hexlinewidth :: u8
  doc_documentChanged :: nat

text \<open>\<open>w\<close> is the metadata's uninitialised line width, \<open>s\<close> the empty stack.\<close>

definition document_new :: "u8 \<Rightarrow> 's \<Rightarrow> 'b \<Rightarrow> ('b, 's, 'c) qhexdocument option" where
  "document_new w s b = do {
     m \<leftarrow> metadata_setLineWidth 0x10 (metadata_new w);
     Some \<lparr>doc_buffer = b, doc_metadata = m, doc_undostack = s, doc_cursor = setLineWidth 0x10 cursor_new,
       doc_baseaddress = 0, doc_areaindent = 0x01, doc_hexlinewidth = 0x10, doc_documentChanged = 0\<rparr>
   }"

definition documentChanged :: "('b, 's, 'c) qhexdocument \<Rightarrow> ('b, 's, 'c) qhexdocument" where
  "documentChanged doc = doc\<lparr>doc_documentChanged := doc_documentChanged doc + 1\<rparr>"

definition doc_isEmpty :: "'b hex_ops \<Rightarrow> ('b, 's, 'c) qhexdocument \<Rightarrow> bool" where
  "doc_isEmpty ops doc = hexbuffer_isEmpty ops (doc_buffer doc)"

definition doc_atEnd :: "'b hex_ops \<Rightarrow> ('b, 's, 'c) qhexdocument \<Rightarrow> bool" where
  "doc_atEnd ops doc \<longleftrightarrow> sint (pos_offset (cu_position (doc_cursor doc))) \<ge> sint (ho_length ops (doc_buffer doc))"

definition setAreaIndent :: "u8 \<Rightarrow> ('b, 's, 'c) qhexdocument \<Rightarrow> ('b, 's, 'c) qhexdocument" where
  "setAreaIndent v doc = doc\<lparr>doc_areaindent := v\<rparr>"

definition setHexLineWidth :: "u8 \<Rightarrow> ('b, 's, 'c) qhexdocument \<Rightarrow> ('b, 's, 'c) qhexdocument option" where
  "setHexLineWidth v doc = do {
     m \<leftarrow> metadata_setLineWidth v (doc_metadata doc);
     Some (doc\<lparr>doc_hexlinewidth := v, doc_cursor := setLineWidth v (doc_cursor doc), doc_metadata := m\<rparr>)
   }"

definition setBaseAddress :: "u64 \<Rightarrow> ('b, 's, 'c) qhexdocument \<Rightarrow> ('b, 's, 'c) qhexdocument" where
  "setBaseAddress a doc =
     (if doc_baseaddress doc = a then doc else documentChanged (doc\<lparr>doc_baseaddress := a\<rparr>))"

text \<open>\<open>push\<close> executes the command by its \<open>redo\<close>.\<close>

definition push_command ::
    "'b hex_ops \<Rightarrow> 's undo_ops \<Rightarrow> hex_command \<Rightarrow> ('b, 's, 'c) qhexdocument \<Rightarrow> ('b, 's, 'c) qhexdocument" where
  "push_command ops us c doc =
     (case command_redo ops c (doc_buffer doc) of (c, b) \<Rightarrow>
        documentChanged (doc\<lparr>doc_buffer := b, doc_undostack := us_push us c (doc_undostack doc)\<rparr>))"

definition doc_insert ::
    "'b hex_ops \<Rightarrow> 's undo_ops \<Rightarrow> qint64 \<Rightarrow> byte list \<Rightarrow> ('b, 's, 'c) qhexdocument \<Rightarrow> ('b, 's, 'c) qhexdocument" where
  "doc_insert ops us off data doc = push_command ops us (insert_command off data) doc"

definition doc_replace ::
    "'b hex_ops \<Rightarrow> 's undo_ops \<Rightarrow> qint64 \<Rightarrow> byte list \<Rightarrow> ('b, 's, 'c) qhexdocument \<Rightarrow> ('b, 's, 'c) qhexdocument" where
  "doc_replace ops us off data doc = push_command ops us (replace_command off data) doc"

definition doc_remove ::
    "'b hex_ops \<Rightarrow> 's undo_ops \<Rightarrow> qint64 \<Rightarrow> cint \<Rightarrow> ('b, 's, 'c) qhexdocument \<Rightarrow> ('b, 's, 'c) qhexdocument" where
  "doc_remove ops us off n doc = push_command ops us (remove_command off n) doc"

definition doc_undo :: "'b hex_ops \<Rightarrow> 's undo_ops \<Rightarrow> ('b, 's, 'c) qhexdocument \<Rightarrow> ('b, 's, 'c) qhexdocument" where
  "doc_undo ops us doc =
     documentChanged (case us_undo us (doc_undostack doc) of
        None \<Rightarrow> doc
      | Some (c, k) \<Rightarrow> doc\<lparr>doc_buffer := command_undo ops c (doc_buffer doc), doc_undostack := k c\<rparr>)"

definition doc_redo :: "'b hex_ops \<Rightarrow> 's undo_ops \<Rightarrow> ('b, 's, 'c) qhexdocument \<Rightarrow> ('b, 's, 'c) qhexdocument" where
  "doc_redo ops us doc =
     documentChanged (case us_redo us (doc_undostack doc) of
        None \<Rightarrow> doc
      | Some (c, k) \<Rightarrow>
          (case command_redo ops c (doc_buffer doc) of (c, b) \<Rightarrow> doc\<lparr>doc_buffer := b, doc_undostack := k c\<rparr>))"

definition removeSelection ::
    "'b hex_ops \<Rightarrow> 's undo_ops \<Rightarrow> ('b, 's, 'c) qhexdocument \<Rightarrow> ('b, 's, 'c) qhexdocument" where
  "removeSelection ops us doc =
     (if \<not> hasSelection (doc_cursor doc) then doc
      else let doc = doc_remove ops us (pos_offset (selectionStart (doc_cursor doc))) (selectionLength (doc_cursor doc)) doc
        in doc\<lparr>doc_cursor := clearSelection (doc_cursor doc)\<rparr>)"

definition selectedBytes :: "'b hex_ops \<Rightarrow> ('b, 's, 'c) qhexdocument \<Rightarrow> byte list \<times> ('b, 's, 'c) qhexdocument" where
  "selectedBytes ops doc =
     (if \<not> hasSelection (doc_cursor doc) then ([], doc)
      else case ho_read ops (pos_offset (selectionStart (doc_cursor doc))) (selectionLength (doc_cursor doc)) (doc_buffer doc) of
        (bs, b) \<Rightarrow> (bs, doc\<lparr>doc_buffer := b\<rparr>))"

section \<open>The clipboard\<close>

text \<open>The loop of \<open>copy\<close>: the digits of each byte and a space.\<close>

fun copy_loop :: "qt_env \<Rightarrow> byte list \<Rightarrow> nat \<Rightarrow> nat \<Rightarrow> byte list \<Rightarrow> byte list" where
  "copy_loop qt bs i 0 result = result"
| "copy_loop qt bs i (Suc n) result =
     copy_loop qt bs (i + 1) n (result @ qb_toHex qt (qb_mid qt bs (int i) 1) @ [0x20])"

definition doc_copy ::
    "qt_env \<Rightarrow> 'b hex_ops \<Rightarrow> bool \<Rightarrow> ('b, 's, 'c) qhexdocument \<Rightarrow> byte list option \<times> ('b, 's, 'c) qhexdocument" where
  "doc_copy qt ops hex doc =
     (if \<not> hasSelection (doc_cursor doc) then (None, doc)
      else case selectedBytes ops doc of (bs, doc) \<Rightarrow>
        (Some (if hex then qb_toUpper qt (copy_loop qt bs 0 (length bs) []) else bs), doc))"

definition doc_cut ::
    "qt_env \<Rightarrow> 'b hex_ops \<Rightarrow> 's undo_ops \<Rightarrow> bool \<Rightarrow> ('b, 's, 'c) qhexdocument \<Rightarrow>
     byte list option \<times> ('b, 's, 'c) qhexdocument" where
  "doc_cut qt ops us hex doc =
     (if \<not> hasSelection (doc_cursor doc) then (None, doc)
      else case doc_copy qt ops hex doc of (text, doc) \<Rightarrow> (text, removeSelection ops us doc))"

definition doc_paste ::
    "qt_env \<Rightarrow> 'b hex_ops \<Rightarrow> 's undo_ops \<Rightarrow> byte list \<Rightarrow> bool \<Rightarrow> ('b, 's, 'c) qhexdocument \<Rightarrow> ('b, 's, 'c) qhexdocument" where
  "doc_paste qt ops us text hex doc =
     (if text = [] then doc
      else let doc = removeSelection ops us doc;
               data = (if hex then qb_fromHex qt text else text);
               off = pos_offset (cu_position (doc_cursor doc))
           in if cu_insertionmode (doc_cursor doc) = InsertMode then doc_insert ops us off data doc
              else doc_replace ops us off data doc)"

section \<open>Searching\<close>

text \<open>What both searches do with a result; the search itself or \<open>moveTo\<close> may have none.\<close>

definition show_match :: "byte list \<Rightarrow> qint64 \<Rightarrow> ('b, 's, 'c) qhexdocument \<Rightarrow> ('b, 's, 'c) qhexdocument option" where
  "show_match ba findPos doc =
     (if sint findPos > - 1 then do {
        c \<leftarrow> moveTo_offset findPos (clearSelection (doc_cursor doc));
        Some (doc\<lparr>doc_cursor := select_length (of_nat (length ba)) c\<rparr>)
      } else Some doc)"

definition searchForward ::
    "'b hex_ops \<Rightarrow> byte list \<Rightarrow> ('b, 's, 'c) qhexdocument \<Rightarrow> (qint64 \<times> ('b, 's, 'c) qhexdocument) option" where
  "searchForward ops ba doc = do {
     let startPos = pos_offset (cu_position (doc_cursor doc));
     (findPos, b) \<leftarrow> ho_indexOf ops ba startPos (doc_buffer doc);
     doc \<leftarrow> show_match ba findPos (doc\<lparr>doc_buffer := b\<rparr>);
     Some (findPos, doc)
   }"

definition searchBackward ::
    "'b hex_ops \<Rightarrow> byte list \<Rightarrow> ('b, 's, 'c) qhexdocument \<Rightarrow> (qint64 \<times> ('b, 's, 'c) qhexdocument) option" where
  "searchBackward ops ba doc = do {
     let startPos = (if hasSelection (doc_cursor doc) then pos_offset (selectionStart (doc_cursor doc)) - 1
                     else pos_offset (cu_position (doc_cursor doc)) - 1);
     (findPos, b) \<leftarrow> ho_lastIndexOf ops ba startPos (doc_buffer doc);
     doc \<leftarrow> show_match ba findPos (doc\<lparr>doc_buffer := b\<rparr>);
     Some (findPos, doc)
   }"


section \<open>Commands are invertible\<close>

text \<open>\<open>between c a b\<close>: the executed command \<open>c\<close> led from the bytes \<open>a\<close> to \<open>b\<close>.\<close>

fun between :: "hex_command \<Rightarrow> byte list \<Rightarrow> byte list \<Rightarrow> bool" where
  "between (Insert_command off d) a b \<longleftrightarrow> unat off \<le> length a \<and> length a + length d < 2 ^ 31 \<and>
     b = take (unat off) a @ d @ drop (unat off) a"
| "between (Remove_command off n d) a b \<longleftrightarrow> unat off \<le> length a \<and> length a < 2 ^ 31 \<and> 0 \<le> sint n \<and>
     d = take (unat n) (drop (unat off) a) \<and> b = take (unat off) a @ drop (unat off + unat n) a"
| "between (Replace_command off d old) a b \<longleftrightarrow> unat off + length d \<le> length a \<and> length a < 2 ^ 31 \<and>
     old = take (length d) (drop (unat off) a) \<and> b = take (unat off) a @ d @ drop (unat off + length d) a"

lemma between_small: "between c a b \<Longrightarrow> length a < 2 ^ 31 \<and> length b < 2 ^ 31"
  by (cases c) auto

lemma take_drop_split: "take n (drop k a) @ drop (k + n) a = drop k a"
  by (metis add.commute append_take_drop_id drop_drop)

context editable_buffer
begin

lemma undo_bytes:
  assumes "between c a (bytes b)"
  shows "bytes (command_undo ops c b) = a"
proof (cases c)
  case (Insert_command off d)
  then have o: "unat off \<le> length a" "bytes b = take (unat off) a @ d @ drop (unat off) a" "length (bytes b) < 2 ^ 31"
    "length d < 2 ^ 31" using assms by auto
  then have "bytes (ho_remove ops off (of_nat (length d)) b) =
      take (unat off) (bytes b) @ drop (unat off + length d) (bytes b)"
    using remove_bytes [of off b "of_nat (length d)"] sint_length [of "length d"] by simp
  then show ?thesis using o(1,2) Insert_command by simp
next
  case (Remove_command off n d)
  then have o: "unat off \<le> length a" "bytes b = take (unat off) a @ drop (unat off + unat n) a" "length (bytes b) < 2 ^ 31"
    "d = take (unat n) (drop (unat off) a)" using assms by auto
  then have "bytes (ho_insert ops off d b) = take (unat off) (bytes b) @ d @ drop (unat off) (bytes b)"
    using insert_bytes [of off b d] by simp
  also have "\<dots> = take (unat off) a @ take (unat n) (drop (unat off) a) @ drop (unat off + unat n) a"
    using o(1,2,4) by simp
  also have "\<dots> = a" by (simp only: take_drop_split append_take_drop_id)
  finally show ?thesis using Remove_command by simp
next
  case (Replace_command off d old)
  then have o: "unat off + length d \<le> length a" "bytes b = take (unat off) a @ d @ drop (unat off + length d) a"
    "length (bytes b) < 2 ^ 31" "old = take (length d) (drop (unat off) a)" "length a < 2 ^ 31" using assms by auto
  then have n: "length old = length d" "length old < 2 ^ 31" by auto
  have "bytes (hexbuffer_replace ops off old b) = take (unat off) (bytes b) @ old @ drop (unat off + length old) (bytes b)"
    by (rule replace_bytes) (use o n in simp_all)
  also have "\<dots> = take (unat off) a @ take (length d) (drop (unat off) a) @ drop (unat off + length d) a"
    using o(1,2,4) n by simp
  also have "\<dots> = a" by (simp only: take_drop_split append_take_drop_id)
  finally show ?thesis using Replace_command by simp
qed

lemma redo_bytes:
  assumes "between c (bytes b) b'"
  shows "fst (command_redo ops c b) = c" "bytes (snd (command_redo ops c b)) = b'"
proof -
  have "fst (command_redo ops c b) = c \<and> bytes (snd (command_redo ops c b)) = b'"
  proof (cases c)
    case (Insert_command off d)
    then show ?thesis using assms insert_bytes [of off b d] by simp
  next
    case (Remove_command off n d)
    obtain d1 b1 where r: "ho_read ops off n b = (d1, b1)" by (cases "ho_read ops off n b")
    have "bytes b1 = bytes b" using read_keeps [of off n b] r by simp
    then show ?thesis using assms Remove_command read_bytes [of off n b] remove_bytes [of off b1 n] r by simp
  next
    case (Replace_command off d old)
    obtain d1 b1 where r: "ho_read ops off (of_nat (length d)) b = (d1, b1)"
      by (cases "ho_read ops off (of_nat (length d)) b")
    have d: "unat off + length d \<le> length (bytes b)" "length d < 2 ^ 31" "length (bytes b) < 2 ^ 31"
      using assms Replace_command by auto
    have "bytes b1 = bytes b" using read_keeps [of off "of_nat (length d)" b] r by simp
    moreover have "d1 = take (length d) (drop (unat off) (bytes b))"
      using read_bytes [of off "of_nat (length d)" b] sint_length [OF d(2)] r d by simp
    moreover have "bytes (hexbuffer_replace ops off d b1) = take (unat off) (bytes b) @ d @ drop (unat off + length d) (bytes b)"
      using replace_bytes [of off b1 d] calculation(1) d by simp
    ultimately show ?thesis using assms Replace_command r by simp
  qed
  then show "fst (command_redo ops c b) = c" "bytes (snd (command_redo ops c b)) = b'" by simp_all
qed

end

section \<open>History\<close>

datatype doc_event = Do_insert qint64 "byte list" | Do_remove qint64 cint | Do_replace qint64 "byte list" | Do_undo | Do_redo

fun doc_exec ::
    "'b hex_ops \<Rightarrow> 's undo_ops \<Rightarrow> doc_event \<Rightarrow> ('b, 's, 'c) qhexdocument \<Rightarrow> ('b, 's, 'c) qhexdocument" where
  "doc_exec ops us (Do_insert off d) doc = doc_insert ops us off d doc"
| "doc_exec ops us (Do_remove off n) doc = doc_remove ops us off n doc"
| "doc_exec ops us (Do_replace off d) doc = doc_replace ops us off d doc"
| "doc_exec ops us Do_undo doc = doc_undo ops us doc"
| "doc_exec ops us Do_redo doc = doc_redo ops us doc"

text \<open>The abstract history: earlier contents, latest first; the present; what was undone.\<close>

type_synonym history = "byte list list \<times> byte list \<times> byte list list"

fun hist_step :: "doc_event \<Rightarrow> history \<Rightarrow> history" where
  "hist_step (Do_insert off d) (ps, a, fs) = (a # ps, take (unat off) a @ d @ drop (unat off) a, [])"
| "hist_step (Do_remove off n) (ps, a, fs) = (a # ps, take (unat off) a @ drop (unat off + unat n) a, [])"
| "hist_step (Do_replace off d) (ps, a, fs) = (a # ps, take (unat off) a @ d @ drop (unat off + length d) a, [])"
| "hist_step Do_undo ([], a, fs) = ([], a, fs)"
| "hist_step Do_undo (p # ps, a, fs) = (ps, p, a # fs)"
| "hist_step Do_redo (ps, a, []) = (ps, a, [])"
| "hist_step Do_redo (ps, a, f # fs) = (a # ps, f, fs)"

fun event_in :: "doc_event \<Rightarrow> byte list \<Rightarrow> bool" where
  "event_in (Do_insert off d) a \<longleftrightarrow> unat off \<le> length a \<and> length a + length d < 2 ^ 31"
| "event_in (Do_remove off n) a \<longleftrightarrow> unat off \<le> length a \<and> 0 \<le> sint n"
| "event_in (Do_replace off d) a \<longleftrightarrow> unat off + length d \<le> length a"
| "event_in Do_undo a \<longleftrightarrow> True"
| "event_in Do_redo a \<longleftrightarrow> True"

fun events_in :: "doc_event list \<Rightarrow> history \<Rightarrow> bool" where
  "events_in [] h \<longleftrightarrow> True"
| "events_in (e # es) h \<longleftrightarrow> event_in e (fst (snd h)) \<and> events_in es (hist_step e h)"

fun chain_back :: "hex_command list \<Rightarrow> byte list list \<Rightarrow> byte list \<Rightarrow> bool" where
  "chain_back [] [] a \<longleftrightarrow> True"
| "chain_back (c # cs) (p # ps) a \<longleftrightarrow> between c p a \<and> chain_back cs ps p"
| "chain_back cs ps a \<longleftrightarrow> False"

fun chain_forth :: "hex_command list \<Rightarrow> byte list list \<Rightarrow> byte list \<Rightarrow> bool" where
  "chain_forth [] [] a \<longleftrightarrow> True"
| "chain_forth (c # cs) (f # fs) a \<longleftrightarrow> between c a f \<and> chain_forth cs fs f"
| "chain_forth cs fs a \<longleftrightarrow> False"

locale undoable = editable_buffer ops bytes + undo_stack us view
  for ops :: "'b hex_ops" and bytes and us :: "'s undo_ops" and view
begin

definition linked :: "history \<Rightarrow> 'b \<Rightarrow> 's \<Rightarrow> bool" where
  "linked h b s \<longleftrightarrow> (case h of (ps, a, fs) \<Rightarrow> bytes b = a \<and> length a < 2 ^ 31 \<and>
     chain_back (fst (view s)) ps a \<and> chain_forth (snd (view s)) fs a)"

lemma push_linked:
  assumes "linked (ps, a, fs) (doc_buffer doc) (doc_undostack doc)"
    and "between (fst (command_redo ops c (doc_buffer doc))) a a'" "bytes (snd (command_redo ops c (doc_buffer doc))) = a'"
  shows "linked (a # ps, a', []) (doc_buffer (push_command ops us c doc)) (doc_undostack (push_command ops us c doc))"
  using assms between_small [OF assms(2)]
  by (auto simp: linked_def push_command_def documentChanged_def push_view split: prod.splits)

lemma undo_linked:
  assumes "linked h (doc_buffer doc) (doc_undostack doc)"
  shows "linked (hist_step Do_undo h) (doc_buffer (doc_exec ops us Do_undo doc)) (doc_undostack (doc_exec ops us Do_undo doc))"
proof -
  obtain ps a fs where h: "h = (ps, a, fs)" by (cases h)
  let ?b = "doc_buffer doc" and ?s = "doc_undostack doc"
  have l: "bytes ?b = a" "length a < 2 ^ 31" "chain_back (fst (view ?s)) ps a" "chain_forth (snd (view ?s)) fs a"
    using assms by (simp_all add: linked_def h)
  show ?thesis
  proof (cases ps)
    case Nil
    then have "fst (view ?s) = []" using l(3) by (cases "fst (view ?s)") simp_all
    then show ?thesis using undo_empty [of ?s] assms Nil
      by (simp add: h doc_undo_def documentChanged_def)
  next
    case (Cons p ps')
    then obtain c cs where c: "fst (view ?s) = c # cs" "between c p a" "chain_back cs ps' p"
      using l(3) by (cases "fst (view ?s)") auto
    then obtain k where k: "us_undo us ?s = Some (c, k)" "\<And>c'. view (k c') = (cs, c' # snd (view ?s))"
      using undo_view [of ?s c cs "snd (view ?s)"] by (metis prod.collapse)
    have "bytes (command_undo ops c ?b) = p" using undo_bytes [of c p ?b] c(2) l(1) by simp
    then show ?thesis using k c l(4) between_small [OF c(2)]
      by (simp add: h Cons doc_undo_def documentChanged_def linked_def)
  qed
qed

lemma redo_linked:
  assumes "linked h (doc_buffer doc) (doc_undostack doc)"
  shows "linked (hist_step Do_redo h) (doc_buffer (doc_exec ops us Do_redo doc)) (doc_undostack (doc_exec ops us Do_redo doc))"
proof -
  obtain ps a fs where h: "h = (ps, a, fs)" by (cases h)
  let ?b = "doc_buffer doc" and ?s = "doc_undostack doc"
  have l: "bytes ?b = a" "length a < 2 ^ 31" "chain_back (fst (view ?s)) ps a" "chain_forth (snd (view ?s)) fs a"
    using assms by (simp_all add: linked_def h)
  show ?thesis
  proof (cases fs)
    case Nil
    then have "snd (view ?s) = []" using l(4) by (cases "snd (view ?s)") simp_all
    then show ?thesis using redo_empty [of ?s] assms Nil
      by (simp add: h doc_redo_def documentChanged_def)
  next
    case (Cons f fs')
    then obtain c cs where c: "snd (view ?s) = c # cs" "between c a f" "chain_forth cs fs' f"
      using l(4) by (cases "snd (view ?s)") auto
    then obtain k where k: "us_redo us ?s = Some (c, k)" "\<And>c'. view (k c') = (c' # fst (view ?s), cs)"
      using redo_view [of ?s "fst (view ?s)" c cs] by (metis prod.collapse)
    obtain b1 where "command_redo ops c ?b = (c, b1)" "bytes b1 = f"
      using redo_bytes [of c ?b f] c(2) l(1) by (metis prod.collapse)
    then show ?thesis using k c l(3) between_small [OF c(2)]
      by (simp add: h Cons doc_redo_def documentChanged_def linked_def)
  qed
qed

lemma exec_linked:
  assumes "linked h (doc_buffer doc) (doc_undostack doc)" "event_in e (fst (snd h))"
  shows "linked (hist_step e h) (doc_buffer (doc_exec ops us e doc)) (doc_undostack (doc_exec ops us e doc))"
proof -
  obtain ps a fs where h: "h = (ps, a, fs)" by (cases h)
  let ?b = "doc_buffer doc" and ?s = "doc_undostack doc"
  have l: "bytes ?b = a" "length a < 2 ^ 31" "chain_back (fst (view ?s)) ps a" "chain_forth (snd (view ?s)) fs a"
    using assms(1) by (simp_all add: linked_def h)
  show ?thesis
  proof (cases e)
    case (Do_insert off d)
    then show ?thesis using push_linked [of ps a fs doc "Insert_command off d"] assms l insert_bytes [of off ?b d]
      by (simp add: h doc_insert_def insert_command_def)
  next
    case (Do_remove off n)
    have o: "unat off \<le> length a" "0 \<le> sint n" using assms(2) by (simp_all add: h Do_remove)
    obtain d1 b1 where r: "ho_read ops off n ?b = (d1, b1)" by (cases "ho_read ops off n ?b")
    have "bytes b1 = a" using read_keeps [of off n ?b] r l by simp
    moreover have "d1 = take (unat n) (drop (unat off) a)" using read_bytes [of off n ?b] r l o by simp
    ultimately show ?thesis
      using push_linked [of ps a fs doc "Remove_command off n []" "take (unat off) a @ drop (unat off + unat n) a"]
        assms(1) l o r remove_bytes [of off b1 n] by (simp add: h Do_remove doc_remove_def remove_command_def)
  next
    case (Do_replace off d)
    have o: "unat off + length d \<le> length a" using assms(2) by (simp add: h Do_replace)
    then have d: "length d < 2 ^ 31" "unat off < 2 ^ 31 \<or> d = []" using l(2) by auto
    obtain d1 b1 where r: "ho_read ops off (of_nat (length d)) ?b = (d1, b1)"
      by (cases "ho_read ops off (of_nat (length d)) ?b")
    have "bytes b1 = a" using read_keeps [of off "of_nat (length d)" ?b] r l by simp
    moreover have "d1 = take (length d) (drop (unat off) a)"
      using read_bytes [of off "of_nat (length d)" ?b] sint_length [OF d(1)] r l o by simp
    ultimately show ?thesis
      using push_linked [of ps a fs doc "Replace_command off d []" "take (unat off) a @ d @ drop (unat off + length d) a"]
        assms(1) l o r d replace_bytes [of off b1 d] by (simp add: h Do_replace doc_replace_def replace_command_def)
  next
    case Do_undo
    show ?thesis unfolding Do_undo by (rule undo_linked [OF assms(1)])
  next
    case Do_redo
    show ?thesis unfolding Do_redo by (rule redo_linked [OF assms(1)])
  qed
qed

lemma run_linked:
  assumes "linked h (doc_buffer doc) (doc_undostack doc)" "events_in es h"
  shows "linked (fold hist_step es h) (doc_buffer (fold (doc_exec ops us) es doc)) (doc_undostack (fold (doc_exec ops us) es doc))"
  using assms
proof (induction es arbitrary: h doc)
  case (Cons e es)
  then show ?case using exec_linked [of h doc e] by simp
qed simp

end


lemma fold_replicate: "fold f (replicate n x) = f x ^^ n"
  by (induction n) (simp_all add: funpow_swap1 fun_eq_iff)

text \<open>Undoing everything: the oldest content of a history never changes.\<close>

lemma hist_oldest: "hist_step e (ps, a, fs) = (ps', a', fs') \<Longrightarrow> last (a' # ps') = last (a # ps)"
  by (cases e; cases ps; cases fs) auto

lemma run_oldest: "fold hist_step es (ps, a, fs) = (ps', a', fs') \<Longrightarrow> last (a' # ps') = last (a # ps)"
proof (induction es arbitrary: ps a fs)
  case (Cons e es)
  obtain ps1 a1 fs1 where 1: "hist_step e (ps, a, fs) = (ps1, a1, fs1)" by (cases "hist_step e (ps, a, fs)")
  then show ?case using Cons.IH [of ps1 a1 fs1] Cons.prems hist_oldest [OF 1] by simp
qed simp

lemma undo_all: "\<exists>fs'. fold hist_step (replicate (length ps) Do_undo) (ps, a, fs) = ([], last (a # ps), fs')"
  by (induction ps arbitrary: a fs) auto

lemma exec_undo: "doc_exec ops us Do_undo = doc_undo ops us"
  by (simp add: fun_eq_iff)

lemma undos_in: "events_in (replicate n Do_undo) h"
  by (induction n arbitrary: h) simp_all

context undoable
begin

lemma history:
  assumes "view s = ([], [])" "bytes b = a" "length a < 2 ^ 31" "events_in es ([], a, [])"
    and "doc_buffer doc = b" "doc_undostack doc = s" "fold hist_step es ([], a, []) = (ps, a', fs)"
  shows "bytes (doc_buffer (fold (doc_exec ops us) es doc)) = a'"
    "bytes (doc_buffer ((doc_undo ops us ^^ length ps) (fold (doc_exec ops us) es doc))) = a"
proof -
  let ?d = "fold (doc_exec ops us) es doc"
  have "linked ([], a, []) (doc_buffer doc) (doc_undostack doc)" using assms by (simp add: linked_def)
  then have l: "linked (ps, a', fs) (doc_buffer ?d) (doc_undostack ?d)"
    using run_linked [of "([], a, [])" doc es] assms(4,7) by simp
  then show "bytes (doc_buffer ?d) = a'" by (simp add: linked_def)
  obtain fs' where u: "fold hist_step (replicate (length ps) Do_undo) (ps, a', fs) = ([], last (a' # ps), fs')"
    using undo_all by blast
  let ?u = "fold (doc_exec ops us) (replicate (length ps) Do_undo) ?d"
  have "linked ([], last (a' # ps), fs') (doc_buffer ?u) (doc_undostack ?u)"
    using run_linked [OF l undos_in, of "length ps"] u by simp
  moreover have "last (a' # ps) = a" using run_oldest [OF assms(7)] by simp
  ultimately show "bytes (doc_buffer ((doc_undo ops us ^^ length ps) ?d)) = a"
    by (simp only: fold_replicate linked_def prod.case exec_undo)
qed

end

section \<open>The selection\<close>

context editable_buffer
begin

lemma push_remove_bytes:
  assumes "unat off \<le> length (bytes (doc_buffer doc))" "length (bytes (doc_buffer doc)) < 2 ^ 31" "0 \<le> sint n"
  shows "bytes (doc_buffer (doc_remove ops us off n doc)) =
      take (unat off) (bytes (doc_buffer doc)) @ drop (unat off + unat n) (bytes (doc_buffer doc))"
    "doc_cursor (doc_remove ops us off n doc) = doc_cursor doc"
proof -
  obtain d b where r: "ho_read ops off n (doc_buffer doc) = (d, b)" by (cases "ho_read ops off n (doc_buffer doc)")
  then have "bytes b = bytes (doc_buffer doc)" using read_keeps [of off n "doc_buffer doc"] by simp
  then show "bytes (doc_buffer (doc_remove ops us off n doc)) =
      take (unat off) (bytes (doc_buffer doc)) @ drop (unat off + unat n) (bytes (doc_buffer doc))"
    "doc_cursor (doc_remove ops us off n doc) = doc_cursor doc"
    using r remove_bytes [of off b n] assms
    by (simp_all add: doc_remove_def remove_command_def push_command_def documentChanged_def)
qed

lemma push_insert_bytes:
  assumes "unat off \<le> length (bytes (doc_buffer doc))" "length (bytes (doc_buffer doc)) < 2 ^ 31"
  shows "bytes (doc_buffer (doc_insert ops us off d doc)) =
      take (unat off) (bytes (doc_buffer doc)) @ d @ drop (unat off) (bytes (doc_buffer doc))"
  using insert_bytes [of off "doc_buffer doc" d] assms
  by (simp add: doc_insert_def insert_command_def push_command_def documentChanged_def)

lemma remove_selection_bytes:
  assumes "cursor_ok (doc_cursor doc)" "hasSelection (doc_cursor doc)"
    and "at_offset (selectionEnd (doc_cursor doc)) - at_offset (selectionStart (doc_cursor doc)) < 2 ^ 31 - 1"
    and "at_offset (selectionStart (doc_cursor doc)) \<le> length (bytes (doc_buffer doc))" "length (bytes (doc_buffer doc)) < 2 ^ 31"
  shows "bytes (doc_buffer (removeSelection ops us doc)) =
      take (at_offset (selectionStart (doc_cursor doc))) (bytes (doc_buffer doc)) @
      drop (Suc (at_offset (selectionEnd (doc_cursor doc)))) (bytes (doc_buffer doc))"
    "doc_cursor (removeSelection ops us doc) = clearSelection (doc_cursor doc)"
proof -
  let ?c = "doc_cursor doc"
  note S = selection_order [OF assms(1)]
  have o: "unat (pos_offset (selectionStart ?c)) = at_offset (selectionStart ?c)" by (rule pos_offset_nat(2) [OF S(3)])
  note n = selection_length [OF assms(1,3)]
  have le: "at_offset (selectionStart ?c) \<le> at_offset (selectionEnd ?c)" using S(1,2) by simp
  note r = push_remove_bytes [of "pos_offset (selectionStart ?c)" doc "selectionLength ?c" us]
  show "bytes (doc_buffer (removeSelection ops us doc)) =
      take (at_offset (selectionStart ?c)) (bytes (doc_buffer doc)) @ drop (Suc (at_offset (selectionEnd ?c))) (bytes (doc_buffer doc))"
    "doc_cursor (removeSelection ops us doc) = clearSelection ?c"
    using r assms(2,4,5) o n le by (simp_all add: removeSelection_def Let_def)
qed

end


section \<open>Searching\<close>

lemma show_match_lands:
  assumes "cursor_ok (doc_cursor doc)" "0 < cu_lineWidth (doc_cursor doc)" "0 \<le> sint r" "unat r + 256 < 2 ^ 63"
    and "0 < length pat" "length pat < 2 ^ 31 - 256"
  obtains doc' where "show_match pat r doc = Some doc'" "doc_buffer doc' = doc_buffer doc" "cursor_ok (doc_cursor doc')"
    "at_offset (cu_selection (doc_cursor doc')) = unat r" "cu_lineWidth (doc_cursor doc') = cu_lineWidth (doc_cursor doc)"
    "at_offset (cu_position (doc_cursor doc')) + 1 =
       unat r + min (length pat) (unat (cu_lineWidth (doc_cursor doc)) - unat r mod unat (cu_lineWidth (doc_cursor doc)))"
proof -
  let ?c = "clearSelection (doc_cursor doc)" and ?w = "unat (cu_lineWidth (doc_cursor doc))"
  have lw: "cu_lineWidth ?c = cu_lineWidth (doc_cursor doc)" "ps_lineWidth (cu_position ?c) = cu_lineWidth ?c"
    "ps_lineWidth (cu_selection ?c) = cu_lineWidth ?c"
    using assms(1) by (simp_all add: clearSelection_def cursor_ok_def pos_ok_def)
  have r: "unat r < 2 ^ 63" "0 < cu_lineWidth ?c" using assms(2,4) lw(1) by simp_all
  obtain m where m: "moveTo_offset (of_nat (unat r)) ?c = Some m" "cursor_ok m" "at_offset (cu_position m) = unat r"
    "at_offset (cu_selection m) = unat r" "cu_lineWidth m = cu_lineWidth ?c"
    "cu_position m = set_pos (of_nat (unat r div unat (cu_lineWidth ?c))) (of_nat (unat r mod unat (cu_lineWidth ?c))) 1 (cu_position ?c)"
    using moveTo_lands [OF r(2,1) lw(2,3)] by metis
  have "unat r mod ?w < 256" using width_ok [OF assms(2)] mod_less_divisor less_trans by blast
  then have col: "unat (ps_column (cu_position m)) = unat r mod ?w"
    unfolding m(6) lw(1) by (simp add: set_pos_def unat_of_nat_cint)
  note s = select_length_lands [OF m(2) assms(5,6)]
  show ?thesis
    by (rule that [of "doc\<lparr>doc_cursor := select_length (of_nat (length pat)) m\<rparr>"])
       (use m(1,3-5) s col assms(2-4) lw(1) in \<open>simp_all add: show_match_def\<close>)
qed

lemma min_single: "a < w \<Longrightarrow> min (length [x]) (w - a) = 1"
  by auto

lemma first_from_same: "occurs_at pat a k \<Longrightarrow> first_from pat a k r \<Longrightarrow> r = int k"
  by (auto simp: first_from_def split: if_splits)

context qt_documented
begin

lemma searchForward_lands:
  assumes "cursor_ok (doc_cursor doc)" "0 < cu_lineWidth (doc_cursor doc)"
    and "at_offset (cu_position (doc_cursor doc)) \<le> length (doc_buffer doc)" "length (doc_buffer doc) < 2 ^ 31 - 256"
    and "pat \<noteq> []" "length pat < 2 ^ 31 - 256"
  obtains r doc' where "searchForward (memory_ops qt) pat doc = Some (r, doc')" "doc_buffer doc' = doc_buffer doc"
    "first_from pat (doc_buffer doc) (at_offset (cu_position (doc_cursor doc))) (sint r)"
    "sint r = - 1 \<Longrightarrow> doc' = doc"
    "sint r \<noteq> - 1 \<Longrightarrow> cursor_ok (doc_cursor doc') \<and> cu_lineWidth (doc_cursor doc') = cu_lineWidth (doc_cursor doc) \<and>
       at_offset (cu_selection (doc_cursor doc')) = unat r \<and> at_offset (cu_position (doc_cursor doc')) + 1 =
       unat r + min (length pat) (unat (cu_lineWidth (doc_cursor doc)) - unat r mod unat (cu_lineWidth (doc_cursor doc)))"
proof -
  let ?b = "doc_buffer doc" and ?p = "pos_offset (cu_position (doc_cursor doc))"
  have p: "unat ?p = at_offset (cu_position (doc_cursor doc))"
    using pos_offset_nat(2) assms(1) by (auto simp: cursor_ok_def)
  let ?r = "mem_indexOf qt pat ?p ?b"
  have f: "first_from pat ?b (at_offset (cu_position (doc_cursor doc))) (sint ?r)"
    using mem_indexOf_first [of ?p pat ?b] assms(3-5) p by simp
  have i: "ho_indexOf (memory_ops qt) pat ?p ?b = Some (?r, ?b)" by (simp add: memory_ops_def)
  show ?thesis
  proof (cases "sint ?r = - 1")
    case True
    show ?thesis
      by (rule that [of ?r doc]) (use True f i in \<open>simp_all add: searchForward_def show_match_def\<close>)
  next
    case False
    then have r: "0 \<le> sint ?r" "sint ?r \<le> int (length ?b)" using first_from_range [OF f] by linarith+
    have "unat ?r + 256 < 2 ^ 63" using r(2) sint_nonneg [OF r(1)] assms(4) by (simp del: of_nat_unat)
    moreover have "0 < length pat" using assms(5) by simp
    ultimately obtain doc' where d: "show_match pat ?r doc = Some doc'" "doc_buffer doc' = ?b" "cursor_ok (doc_cursor doc')"
      "at_offset (cu_selection (doc_cursor doc')) = unat ?r" "cu_lineWidth (doc_cursor doc') = cu_lineWidth (doc_cursor doc)"
      "at_offset (cu_position (doc_cursor doc')) + 1 =
         unat ?r + min (length pat) (unat (cu_lineWidth (doc_cursor doc)) - unat ?r mod unat (cu_lineWidth (doc_cursor doc)))"
      using show_match_lands [OF assms(1,2) r(1)] assms(6) by metis
    show ?thesis
      by (rule that [of ?r doc']) (use False f i d in \<open>simp_all add: searchForward_def\<close>)
  qed
qed

end


section \<open>The clipboard\<close>

lemma digit_round:
  assumes "n < 16"
  shows "digit_value (upper_byte (hex_digit n)) = Some n" "unat (upper_byte (hex_digit n)) < 128"
proof -
  have "list_all (\<lambda>n. digit_value (upper_byte (hex_digit n)) = Some n \<and> unat (upper_byte (hex_digit n)) < 128) [0..<16]"
    by code_simp
  moreover have "n \<in> set [0..<16]" using assms by simp
  ultimately show "digit_value (upper_byte (hex_digit n)) = Some n" "unat (upper_byte (hex_digit n)) < 128"
    by (simp_all only: list_all_iff)
qed

lemma space_round: "digit_value (upper_byte 0x20) = None" "unat (upper_byte 0x20) < 128"
  by (simp_all add: digit_value_def upper_byte_def)

lemma map_filter_append: "List.map_filter f (xs @ ys) = List.map_filter f xs @ List.map_filter f ys"
  by (induction xs) (simp_all add: List.map_filter_simps split: option.split)

definition hex_text :: "byte list \<Rightarrow> byte list" where
  "hex_text bs = concat (map (\<lambda>b. map upper_byte [hex_digit (unat b div 16), hex_digit (unat b mod 16), 0x20]) bs)"

lemma hex_text_digits:
  "even (length (List.map_filter digit_value (hex_text bs))) \<and> pair_digits (List.map_filter digit_value (hex_text bs)) = bs"
proof (induction bs)
  case (Cons b bs)
  have "unat b < 256" using unsigned_less [of b, where ?'a = nat] by simp
  then have d: "unat b div 16 < 16" "unat b mod 16 < 16" by auto
  have "List.map_filter digit_value (hex_text (b # bs)) =
      unat b div 16 # unat b mod 16 # List.map_filter digit_value (hex_text bs)"
    using digit_round [OF d(1)] digit_round [OF d(2)]
    by (simp add: hex_text_def map_filter_append List.map_filter_simps space_round)
  moreover have "of_nat (16 * (unat b div 16) + unat b mod 16) = b" by simp
  ultimately show ?case using Cons by (simp del: of_nat_add of_nat_mult)
qed (simp add: hex_text_def List.map_filter_simps)

lemma hex_text_ascii: "\<forall>c \<in> set (hex_text bs). unat c < 128"
proof -
  have "unat (upper_byte (hex_digit (unat b div 16))) < 128" "unat (upper_byte (hex_digit (unat b mod 16))) < 128" for b :: byte
  proof -
    have "unat b < 256" using unsigned_less [of b, where ?'a = nat] by simp
    then have "unat b div 16 < 16" "unat b mod 16 < 16" by auto
    then show "unat (upper_byte (hex_digit (unat b div 16))) < 128" "unat (upper_byte (hex_digit (unat b mod 16))) < 128"
      using digit_round by blast+
  qed
  then show ?thesis using space_round(2) by (auto simp: hex_text_def)
qed

locale clipboard = qbytearray + qbytearray_hex
begin

lemma copy_loop_eq:
  "i + n \<le> length bs \<Longrightarrow> copy_loop qt bs i n res =
     res @ concat (map (\<lambda>b. qb_toHex qt [b] @ [0x20]) (take n (drop i bs)))"
proof (induction n arbitrary: i res)
  case (Suc n)
  then have i: "i < length bs" by simp
  then have m: "qb_mid qt bs (int i) 1 = [bs ! i]"
    using mid_in [of "int i" 1 bs] by (simp add: take_Suc_conv_app_nth Cons_nth_drop_Suc [symmetric])
  have "take (Suc n) (drop i bs) = bs ! i # take n (drop (i + 1) bs)"
    using i by (simp add: Cons_nth_drop_Suc [symmetric])
  then show ?case using Suc m by simp
qed simp

lemma copy_hex: "qb_toUpper qt (copy_loop qt bs 0 (length bs) []) = hex_text bs"
  using copy_loop_eq [of 0 "length bs" bs "[]"]
  by (simp add: toUpper_eq toHex_eq hex_text_def map_concat comp_def)

lemma paste_hex: "qb_fromHex qt (hex_text bs) = bs"
  using hex_text_digits [of bs] by (simp add: fromHex_even)

end

interpretation std_clip: clipboard std_qt by unfold_locales

section \<open>A stack of two lists\<close>

definition std_undo :: "(hex_command list \<times> hex_command list) undo_ops" where
  "std_undo = \<lparr>us_push = (\<lambda>c s. (c # fst s, [])),
     us_undo = (\<lambda>s. case fst s of [] \<Rightarrow> None | c # cs \<Rightarrow> Some (c, \<lambda>c'. (cs, c' # snd s))),
     us_redo = (\<lambda>s. case snd s of [] \<Rightarrow> None | d # ds \<Rightarrow> Some (d, \<lambda>d'. (d' # fst s, ds)))\<rparr>"

interpretation std_stack: undo_stack std_undo "\<lambda>s. s"
  by unfold_locales (auto simp: std_undo_def)

interpretation std_doc: undoable "memory_ops std_qt" "\<lambda>b. b" std_undo "\<lambda>s. s"
  by unfold_locales

section \<open>Properties\<close>

text \<open>C38: undo and redo. On a memory buffer, with \<open>QByteArray\<close> and \<open>QUndoStack\<close> as documented, any
edits in range with undos and redos between them leave the content that the abstract history has; and
undoing as often as there are earlier contents restores the original bytes.\<close>

theorem document_history:
  assumes "qbytearray qt" "undo_stack us view" "view s = ([], [])" "length b < 2 ^ 31"
    and "document_new w s b = Some doc" "events_in es ([], b, [])" "fold hist_step es ([], b, []) = (ps, b', fs)"
  shows "doc_buffer (fold (doc_exec (memory_ops qt) us) es doc) = b' \<and>
    doc_buffer ((doc_undo (memory_ops qt) us ^^ length ps) (fold (doc_exec (memory_ops qt) us) es doc)) = b"
proof -
  have u: "undoable (memory_ops qt) (\<lambda>b. b) us view"
    by (rule undoable.intro [OF qbytearray_editable [OF assms(1)] assms(2)])
  have "doc_buffer doc = b" "doc_undostack doc = s" using assms(5) by (auto simp: document_new_def split: bind_splits)
  then show ?thesis using undoable.history [OF u assms(3) refl assms(4,6) _ _ assms(7), of doc] by simp
qed

text \<open>A replacement past the end is not undone. Replacing from an offset in the buffer, which
overwriting at the end does with every byte typed, and undoing it leaves behind the bytes that did not
fit the old content.\<close>

theorem replace_past_end_kept:
  assumes "qbytearray qt" "unat off \<le> length b" "length b + length d < 2 ^ 31"
  shows "command_undo (memory_ops qt) (fst (command_redo (memory_ops qt) (replace_command off d) b))
      (snd (command_redo (memory_ops qt) (replace_command off d) b)) = b @ drop (length b - unat off) d"
proof -
  note E = qbytearray_editable [OF assms(1)]
  let ?n = "min (length d) (length b - unat off)" let ?old = "take (length d) (drop (unat off) b)"
  let ?new = "take (unat off) b @ d @ drop (unat off + length d) b"
  have "sint (of_nat (length d) :: cint) = int (length d)" "unat (of_nat (length d) :: cint) = length d"
    using editable_buffer.sint_length [OF E, of "length d"] assms(3) by simp_all
  then have r: "mem_read qt off (of_nat (length d)) b = ?old"
    using qbytearray.mem_read_eq [OF assms(1), of off "of_nat (length d)" b] assms(2,3) by simp
  have redo: "hexbuffer_replace (memory_ops qt) off d b = ?new"
    using editable_buffer.replace_bytes [OF E, of off b d] assms(2,3) by simp
  have new: "unat off \<le> length ?new" "length ?new < 2 ^ 31" using assms(2,3) by auto
  have "hexbuffer_replace (memory_ops qt) off ?old ?new = take (unat off) ?new @ ?old @ drop (unat off + length ?old) ?new"
    using editable_buffer.replace_bytes [OF E new, of ?old] assms(2,3) by simp
  also have "\<dots> = take (unat off) b @ ?old @ drop ?n d @ drop (unat off + length d) b"
    using assms(2) by (simp add: min_def)
  also have "\<dots> = b @ drop (length b - unat off) d"
  proof (cases "length d \<le> length b - unat off")
    case True
    then have "take (unat off) b @ ?old @ drop (unat off + length d) b = b" by (simp only: take_drop_split append_take_drop_id)
    then show ?thesis using True by (simp add: min_def)
  next
    case False
    then show ?thesis by (simp add: min_def)
  qed
  moreover have "ho_read (memory_ops qt) off n b = (mem_read qt off n b, b)" for n by (simp add: memory_ops_def)
  ultimately show ?thesis using r redo by (simp add: replace_command_def)
qed

text \<open>Pasting over a selection. With the cursor at the selection's end, as after extending a selection
forward, the selected bytes go, but the text is inserted at the cursor's old offset in what is left, not
where the selection stood.\<close>

theorem paste_over_selection:
  assumes "qbytearray qt" "cursor_ok (doc_cursor doc)" "cu_insertionmode (doc_cursor doc) = InsertMode" "clip \<noteq> []"
    and "s = at_offset (cu_selection (doc_cursor doc))" "e = at_offset (cu_position (doc_cursor doc))" "s < e"
    and "e + (e + 1 - s) \<le> length (doc_buffer doc)" "length (doc_buffer doc) < 2 ^ 31 - 1"
  shows "doc_buffer (doc_paste qt (memory_ops qt) us clip False doc) =
      (let rest = take s (doc_buffer doc) @ drop (Suc e) (doc_buffer doc) in take e rest @ clip @ drop e rest)"
proof -
  note E = qbytearray_editable [OF assms(1)]
  let ?d = "removeSelection (memory_ops qt) us doc"
  have se: "at_offset (selectionStart (doc_cursor doc)) = s" "at_offset (selectionEnd (doc_cursor doc)) = e"
    using selection_order(1,2) [OF assms(2)] assms(5-7) by simp_all
  have h: "hasSelection (doc_cursor doc)"
    using assms(2,5-7) by (auto simp: hasSelection_def pos_eq_def cursor_ok_def pos_ok_def at_offset_def)
  have r: "doc_buffer ?d = take s (doc_buffer doc) @ drop (Suc e) (doc_buffer doc)"
    "doc_cursor ?d = clearSelection (doc_cursor doc)"
    using editable_buffer.remove_selection_bytes [OF E assms(2) h, of us] se assms(7-9) by simp_all
  have p: "unat (pos_offset (cu_position (doc_cursor doc))) = e"
    using pos_offset_nat(2) assms(2,6) by (auto simp: cursor_ok_def)
  have "e \<le> length (doc_buffer ?d)" "length (doc_buffer ?d) < 2 ^ 31" using r(1) assms(7-9) by auto
  then show ?thesis
    using editable_buffer.push_insert_bytes [OF E, of "pos_offset (cu_position (doc_cursor doc))" ?d us clip] r p assms(3,4)
    by (simp add: doc_paste_def Let_def clearSelection_def)
qed

text \<open>C40: the hexadecimal clipboard. Copying a selection as hexadecimal gives ASCII text, and pasting that
text as hexadecimal at a cursor without a selection inserts exactly the selected bytes there.\<close>

theorem hex_copy_paste:
  assumes "clipboard qt" "cursor_ok (doc_cursor doc)" "hasSelection (doc_cursor doc)"
    and "s = at_offset (selectionStart (doc_cursor doc))" "e = at_offset (selectionEnd (doc_cursor doc))"
    and "e < length (doc_buffer doc)" "length (doc_buffer doc) < 2 ^ 31 - 1"
    and "cursor_ok (doc_cursor doc2)" "\<not> hasSelection (doc_cursor doc2)" "cu_insertionmode (doc_cursor doc2) = InsertMode"
    and "p = at_offset (cu_position (doc_cursor doc2))" "p \<le> length (doc_buffer doc2)" "length (doc_buffer doc2) < 2 ^ 31"
  shows "\<exists>clip. fst (doc_copy qt (memory_ops qt) True doc) = Some clip \<and> (\<forall>c \<in> set clip. unat c < 128) \<and>
    doc_buffer (doc_paste qt (memory_ops qt) us clip True doc2) =
      take p (doc_buffer doc2) @ take (Suc e - s) (drop s (doc_buffer doc)) @ drop p (doc_buffer doc2)"
proof -
  have qb: "qbytearray qt" using assms(1) by (simp add: clipboard_def)
  note E = qbytearray_editable [OF qb]
  note S = selection_order [OF assms(2)]
  have se: "s \<le> e" using S(1,2) assms(4,5) by simp
  let ?bs = "take (Suc e - s) (drop s (doc_buffer doc))"
  have o: "unat (pos_offset (selectionStart (doc_cursor doc))) = s" using pos_offset_nat(2) [OF S(3)] assms(4) by simp
  have "e - s < 2 ^ 31 - 1" using assms(6,7) by linarith
  with selection_length [OF assms(2)] assms(4,5)
  have n: "0 \<le> sint (selectionLength (doc_cursor doc))" "unat (selectionLength (doc_cursor doc)) = e - s + 1" by simp_all
  have "ho_read (memory_ops qt) off k b = (mem_read qt off k b, b)" for off k b by (simp add: memory_ops_def)
  moreover have "mem_read qt (pos_offset (selectionStart (doc_cursor doc))) (selectionLength (doc_cursor doc)) (doc_buffer doc) = ?bs"
    using qbytearray.mem_read_eq [OF qb] o n se assms(6,7) by (simp add: Suc_diff_le)
  ultimately have "selectedBytes (memory_ops qt) doc = (?bs, doc)" using assms(3) by (simp add: selectedBytes_def)
  then have c: "fst (doc_copy qt (memory_ops qt) True doc) = Some (hex_text ?bs)"
    using assms(3) clipboard.copy_hex [OF assms(1), of ?bs] by (simp add: doc_copy_def)
  have ne: "hex_text ?bs \<noteq> []" using se assms(6) by (cases ?bs) (auto simp: hex_text_def)
  have "unat (pos_offset (cu_position (doc_cursor doc2))) = p"
    using pos_offset_nat(2) assms(8,11) by (auto simp: cursor_ok_def)
  then have "doc_buffer (doc_paste qt (memory_ops qt) us (hex_text ?bs) True doc2) =
      take p (doc_buffer doc2) @ ?bs @ drop p (doc_buffer doc2)"
    using editable_buffer.push_insert_bytes [OF E, of "pos_offset (cu_position (doc_cursor doc2))" doc2 us ?bs]
      ne clipboard.paste_hex [OF assms(1), of ?bs] assms(9,10,12,13)
    by (simp add: doc_paste_def removeSelection_def Let_def)
  then show ?thesis using c hex_text_ascii [of ?bs] by blast
qed

text \<open>Searching forward. The first occurrence at or after the cursor is returned and selected as far as
its line goes; without one the document stays as it is. So searching a single byte again finds it at the
same place, whatever follows.\<close>

theorem searchForward_repeats:
  assumes "qt_documented qt" "cursor_ok (doc_cursor doc)" "0 < cu_lineWidth (doc_cursor doc)"
    and "at_offset (cu_position (doc_cursor doc)) \<le> length (doc_buffer doc)" "length (doc_buffer doc) < 2 ^ 31 - 256"
  shows "\<exists>r doc'. searchForward (memory_ops qt) [x] doc = Some (r, doc') \<and>
    first_from [x] (doc_buffer doc) (at_offset (cu_position (doc_cursor doc))) (sint r) \<and>
    (sint r = - 1 \<longrightarrow> doc' = doc) \<and>
    (\<exists>doc''. searchForward (memory_ops qt) [x] doc' = Some (r, doc''))"
proof -
  let ?w = "unat (cu_lineWidth (doc_cursor doc))"
  have x: "[x] \<noteq> []" "length [x] < 2 ^ 31 - 256" by simp_all
  note F = qt_documented.searchForward_lands [OF assms(1) _ _ _ _ x]
  obtain r doc' where 1: "searchForward (memory_ops qt) [x] doc = Some (r, doc')" "doc_buffer doc' = doc_buffer doc"
    "first_from [x] (doc_buffer doc) (at_offset (cu_position (doc_cursor doc))) (sint r)"
    "sint r = - 1 \<Longrightarrow> doc' = doc"
    "sint r \<noteq> - 1 \<Longrightarrow> cursor_ok (doc_cursor doc') \<and> cu_lineWidth (doc_cursor doc') = cu_lineWidth (doc_cursor doc) \<and>
       at_offset (cu_selection (doc_cursor doc')) = unat r \<and>
       at_offset (cu_position (doc_cursor doc')) + 1 = unat r + min (length [x]) (?w - unat r mod ?w)"
    using F [OF assms(2-5)] by metis
  show ?thesis
  proof (cases "sint r = - 1")
    case True
    then show ?thesis using 1 by auto
  next
    case False
    note 2 = 1(5) [OF False]
    have "0 < ?w" using assms(3) by (simp add: word_less_nat_alt)
    then have "unat r mod ?w < ?w" by (rule mod_less_divisor)
    then have "min (length [x]) (?w - unat r mod ?w) = 1" by (rule min_single)
    then have at: "at_offset (cu_position (doc_cursor doc')) = unat r" using 2 by simp
    have "0 \<le> sint r" using first_from_range [OF 1(3)] False by linarith
    then have r: "sint r = int (unat r)" by (rule sint_nonneg)
    then have occ: "occurs_at [x] (doc_buffer doc') (unat r)" using 1(2,3) False by (simp add: first_from_def del: of_nat_unat)
    then have le: "unat r \<le> length (doc_buffer doc')" by (simp add: occurs_at_def)
    have 4: "cursor_ok (doc_cursor doc')" "0 < cu_lineWidth (doc_cursor doc')"
      "at_offset (cu_position (doc_cursor doc')) \<le> length (doc_buffer doc')" "length (doc_buffer doc') < 2 ^ 31 - 256"
      using 2 at le assms(3,5) 1(2) by simp_all
    obtain r2 doc'' where 3: "searchForward (memory_ops qt) [x] doc' = Some (r2, doc'')"
      "first_from [x] (doc_buffer doc') (unat r) (sint r2)"
      using F [OF 4] at by metis
    then have "sint r2 = sint r" using first_from_same [OF occ 3(2)] r by simp
    moreover have "sint r2 = int (unat r2)" by (rule sint_nonneg) (use calculation r in simp)
    ultimately have "unat r2 = unat r" using r by linarith
    then have "r2 = r" by (simp add: word_unat_eq_iff)
    then show ?thesis using 1 3 False by auto
  qed
qed

definition cut_doc :: "(byte list, hex_command list \<times> hex_command list, nat) qhexdocument" where
  "cut_doc = \<lparr>doc_buffer = [0x41, 0x42, 0x43, 0x44, 0x45, 0x46, 0x47, 0x48], doc_metadata = metadata_new 0x10,
     doc_undostack = ([], []), doc_cursor = cursor_select 0 2 1 (moveTo 0 1 1 (switchInsertionMode cursor_new)),
     doc_baseaddress = 0, doc_areaindent = 1, doc_hexlinewidth = 0x10, doc_documentChanged = 0\<rparr>"

lemma cut_doc_cursor:
  "cu_lineWidth (doc_cursor cut_doc) = 0x10" "cu_insertionmode (doc_cursor cut_doc) = InsertMode"
  "cu_position (doc_cursor cut_doc) = \<lparr>ps_line = 0, ps_column = 2, ps_lineWidth = 0x10, ps_nibbleindex = 1\<rparr>"
  "cu_selection (doc_cursor cut_doc) = \<lparr>ps_line = 0, ps_column = 1, ps_lineWidth = 0x10, ps_nibbleindex = 1\<rparr>"
  by (simp_all add: cut_doc_def cursor_select_def moveTo_def switchInsertionMode_def cursor_new_def setLineWidth_def set_pos_def)

lemma cut_doc_ok:
  "cursor_ok (doc_cursor cut_doc)" "hasSelection (doc_cursor cut_doc)"
  "at_offset (cu_position (doc_cursor cut_doc)) = 2" "at_offset (cu_selection (doc_cursor cut_doc)) = 1"
  "doc_buffer cut_doc = [0x41, 0x42, 0x43, 0x44, 0x45, 0x46, 0x47, 0x48]"
  by (simp_all add: cursor_ok_def pos_ok_def hasSelection_def pos_eq_def at_offset_def cut_doc_cursor)
     (simp add: cut_doc_def)

theorem paste_over_selection_witness:
  "doc_buffer (doc_paste std_qt (memory_ops std_qt) std_undo [0x78] False cut_doc) = [0x41, 0x44, 0x78, 0x45, 0x46, 0x47, 0x48]"
  using paste_over_selection [of std_qt cut_doc "[0x78]" 1 2 std_undo] std.qbytearray_axioms cut_doc_ok
  by (simp add: cut_doc_cursor Let_def)

theorem searchForward_repeats_witness:
  "\<exists>r doc. searchForward (memory_ops std_qt) [0x44] cut_doc = Some (r, doc) \<and>
    first_from [0x44] [0x41, 0x42, 0x43, 0x44, 0x45, 0x46, 0x47, 0x48] 2 (sint r)"
  using searchForward_repeats [of std_qt cut_doc "0x44"] std.qt_documented_axioms cut_doc_ok
  by (auto simp: cut_doc_cursor)

definition paste_doc :: "(byte list, hex_command list \<times> hex_command list, nat) qhexdocument" where
  "paste_doc = cut_doc\<lparr>doc_cursor := clearSelection (doc_cursor cut_doc)\<rparr>"

lemma paste_doc_ok:
  "cursor_ok (doc_cursor paste_doc)" "\<not> hasSelection (doc_cursor paste_doc)"
  "cu_insertionmode (doc_cursor paste_doc) = InsertMode" "2 = at_offset (cu_position (doc_cursor paste_doc))"
  "doc_buffer paste_doc = [0x41, 0x42, 0x43, 0x44, 0x45, 0x46, 0x47, 0x48]"
  using cut_doc_ok cut_doc_cursor by (simp_all add: paste_doc_def clearSelection_def cursor_ok_def hasSelection_def pos_eq_def)

lemma cut_doc_span:
  "1 = at_offset (selectionStart (doc_cursor cut_doc))" "2 = at_offset (selectionEnd (doc_cursor cut_doc))"
  using selection_order [OF cut_doc_ok(1)] cut_doc_ok by simp_all

theorem hex_copy_paste_witness:
  "\<exists>clip. fst (doc_copy std_qt (memory_ops std_qt) True cut_doc) = Some clip \<and> (\<forall>c \<in> set clip. unat c < 128) \<and>
    doc_buffer (doc_paste std_qt (memory_ops std_qt) std_undo clip True paste_doc) =
    [0x41, 0x42, 0x42, 0x43, 0x43, 0x44, 0x45, 0x46, 0x47, 0x48]"
  using hex_copy_paste [OF std_clip.clipboard_axioms cut_doc_ok(1,2) cut_doc_span _ _ paste_doc_ok(1-4), of std_undo]
  by (simp add: cut_doc_ok(5) paste_doc_ok(5))

theorem replace_past_end_kept_witness:
  "command_undo (memory_ops std_qt) (fst (command_redo (memory_ops std_qt) (replace_command 1 [7, 8, 9]) [1, 2]))
    (snd (command_redo (memory_ops std_qt) (replace_command 1 [7, 8, 9]) [1, 2])) = [1, 2, 8, 9]"
  using replace_past_end_kept [of std_qt 1 "[1, 2]" "[7, 8, 9]"] std.qbytearray_axioms by simp

theorem document_history_witness:
  "\<exists>doc :: (byte list, hex_command list \<times> hex_command list, nat) qhexdocument.
    document_new 0x10 ([], []) [1, 2, 3] = Some doc \<and>
    doc_buffer (fold (doc_exec (memory_ops std_qt) std_undo)
      [Do_insert 1 [9], Do_remove 0 2, Do_undo, Do_replace 2 [7, 8], Do_undo, Do_redo] doc) = [1, 9, 7, 8] \<and>
    doc_buffer ((doc_undo (memory_ops std_qt) std_undo ^^ 2) (fold (doc_exec (memory_ops std_qt) std_undo)
      [Do_insert 1 [9], Do_remove 0 2, Do_undo, Do_replace 2 [7, 8], Do_undo, Do_redo] doc)) = [1, 2, 3]"
proof -
  let ?es = "[Do_insert 1 [9], Do_remove 0 2, Do_undo, Do_replace 2 [7, 8], Do_undo, Do_redo]"
  obtain doc :: "(byte list, hex_command list \<times> hex_command list, nat) qhexdocument"
    where d: "document_new 0x10 ([], []) [1, 2, 3] = Some doc"
    by (simp add: document_new_def metadata_setLineWidth_def metadata_new_def)
  have "fold hist_step ?es ([], [1, 2, 3], []) = ([[1, 9, 2, 3], [1, 2, 3]], [1, 9, 7, 8], [])"
    by simp
  note h = this
  have e: "events_in ?es ([], [1, 2, 3], [])" by simp
  have l: "length [1, 2, 3 :: byte] < 2 ^ 31" by simp
  show ?thesis
    using d document_history [OF std.qbytearray_axioms std_stack.undo_stack_axioms refl l d e h] by (auto simp: numeral_2_eq_2)
qed

end
