(* ===== verification/Hex_Renderer.thy ===== *)
theory Hex_Renderer
  imports Hex_Document "HOL-Library.Signed_Division"
begin

text \<open>
  The layout of the client's hex view (\<open>client/QHexView/document/qhexrenderer.h\<close> and \<open>.cpp\<close>): how many
  lines a document has, what a line holds, where the three columns stand, and which cell a point hits.
  Painting itself is output and not modelled.

  Fonts are third-party code: \<open>font\<close> holds the line height, the width of \<open>n\<close> cells and the cell of a
  distance; the locale \<open>cell_font\<close> describes a font whose cells are \<open>c\<close> pixels wide. The number of lines
  is computed in \<open>float\<close>: \<open>to_float\<close> and \<open>float_quotient\<close> round to 24 bits as IEEE 754 says. \<open>None\<close> is a
  division by zero.

  The lemmas: the number of lines, exact for documents below 16 MiB; the layout and \<open>hitTest\<close> agree.
\<close>

section \<open>Single precision\<close>

text \<open>\<open>p / q\<close> rounded to the nearest integer, ties to even.\<close>

definition half_even :: "nat \<Rightarrow> nat \<Rightarrow> nat" where
  "half_even p q =
     (let d = p div q; r = p mod q in if 2 * r < q \<or> 2 * r = q \<and> even d then d else d + 1)"

fun bits :: "nat \<Rightarrow> nat" where
  "bits n = (if n = 0 then 0 else Suc (bits (n div 2)))"

declare bits.simps [simp del]

text \<open>An integer as a \<open>float\<close>, which is an integer again.\<close>

definition to_float :: "nat \<Rightarrow> nat" where
  "to_float n = (let k = bits n - 24 in half_even n (2 ^ k) * 2 ^ k)"

text \<open>The \<open>float\<close> nearest to \<open>n / w\<close>, for \<open>w\<close> below 256, as a multiple of \<open>1 / 2 ^ 32\<close>; and \<open>ceil\<close> of such a number.\<close>

definition float_quotient :: "nat \<Rightarrow> nat \<Rightarrow> nat" where
  "float_quotient n w =
     (let k = bits (n * 2 ^ 32 div w) - 24 in half_even (n * 2 ^ 32) (w * 2 ^ k) * 2 ^ k)"

definition ceil32 :: "nat \<Rightarrow> nat" where "ceil32 x = (x + 2 ^ 32 - 1) div 2 ^ 32"

section \<open>Fonts and areas\<close>

text \<open>\<open>ft_cells n\<close> is \<open>qRound( n * getCellWidth() )\<close>, \<open>ft_column x\<close> is \<open>x / getCellWidth()\<close> as an \<open>int\<close>.\<close>

record font =
  ft_lineHeight :: cint
  ft_cells :: "cint \<Rightarrow> cint"
  ft_column :: "cint \<Rightarrow> cint"

locale cell_font =
  fixes ft :: font and c :: nat and h :: nat
  assumes cell_pos: "0 < c"
    and cells_eq: "n * c < 2 ^ 31 \<Longrightarrow> ft_cells ft (of_nat n) = of_nat (n * c)"
    and column_eq: "x < 2 ^ 31 \<Longrightarrow> ft_column ft (of_nat x) = of_nat (x div c)"
    and height_pos: "0 < h" "h < 2 ^ 31"
    and height_eq: "ft_lineHeight ft = of_nat h"

datatype area = HeaderArea | AddressArea | HexArea | AsciiArea | ExtraArea

definition editableArea :: "area \<Rightarrow> bool" where
  "editableArea a \<longleftrightarrow> a = HexArea \<or> a = AsciiArea"

section \<open>Lines\<close>

definition headerLineCount :: cint where "headerLineCount = 0"

definition hexLineWidth :: "('b, 's, 'c) qhexdocument \<Rightarrow> cint" where
  "hexLineWidth doc = ucast (doc_hexlinewidth doc)"

definition rendererLength :: "'b hex_ops \<Rightarrow> ('b, 's, 'c) qhexdocument \<Rightarrow> qint64" where
  "rendererLength ops doc = ho_length ops (doc_buffer doc) + 1"

text \<open>The length of a buffer is not negative.\<close>

definition documentLines :: "'b hex_ops \<Rightarrow> ('b, 's, 'c) qhexdocument \<Rightarrow> u64 option" where
  "documentLines ops doc =
     (if doc_hexlinewidth doc = 0 then None
      else Some (of_nat (ceil32 (float_quotient (to_float (unat (rendererLength ops doc))) (unat (doc_hexlinewidth doc))))))"

definition documentLastLine :: "'b hex_ops \<Rightarrow> ('b, 's, 'c) qhexdocument \<Rightarrow> u64 option" where
  "documentLastLine ops doc = map_option (\<lambda>n. n - 1) (documentLines ops doc)"

definition getLine :: "'b hex_ops \<Rightarrow> u64 \<Rightarrow> ('b, 's, 'c) qhexdocument \<Rightarrow> byte list \<times> ('b, 's, 'c) qhexdocument" where
  "getLine ops line doc =
     (case ho_read ops (line * scast (hexLineWidth doc)) (hexLineWidth doc) (doc_buffer doc) of
        (ba, b) \<Rightarrow> (ba, doc\<lparr>doc_buffer := b\<rparr>))"

definition documentLastColumn :: "'b hex_ops \<Rightarrow> ('b, 's, 'c) qhexdocument \<Rightarrow> (cint \<times> ('b, 's, 'c) qhexdocument) option" where
  "documentLastColumn ops doc = do {
     line \<leftarrow> documentLastLine ops doc;
     Some (apfst (\<lambda>ba. of_nat (length ba)) (getLine ops line doc))
   }"

text \<open>The texts of a line.\<close>

fun hex_loop :: "qt_env \<Rightarrow> byte list \<Rightarrow> nat \<Rightarrow> nat \<Rightarrow> byte list \<Rightarrow> byte list" where
  "hex_loop qt rawline i 0 result = result"
| "hex_loop qt rawline i (Suc n) result =
     hex_loop qt rawline (i + 1) n (result @ qb_toHex qt (qb_mid qt rawline (int i) 1) @ [0x20])"

definition hexString :: "qt_env \<Rightarrow> 'b hex_ops \<Rightarrow> u64 \<Rightarrow> ('b, 's, 'c) qhexdocument \<Rightarrow>
    (byte list \<times> byte list) \<times> ('b, 's, 'c) qhexdocument" where
  "hexString qt ops line doc =
     (case getLine ops line doc of (rawline, doc) \<Rightarrow> ((hex_loop qt rawline 0 (length rawline) [], rawline), doc))"

definition unprintableChars :: "byte list \<Rightarrow> byte list" where
  "unprintableChars ascii = map (\<lambda>ch. if 0x20 \<le> unat ch \<and> unat ch \<le> 0x7E then ch else 0x2E) ascii"

definition asciiString :: "'b hex_ops \<Rightarrow> u64 \<Rightarrow> ('b, 's, 'c) qhexdocument \<Rightarrow>
    (byte list \<times> byte list) \<times> ('b, 's, 'c) qhexdocument" where
  "asciiString ops line doc =
     (case getLine ops line doc of (rawline, doc) \<Rightarrow> ((unprintableChars rawline, rawline), doc))"

section \<open>Columns\<close>

definition getAddressWidth :: "'b hex_ops \<Rightarrow> ('b, 's, 'c) qhexdocument \<Rightarrow> cint" where
  "getAddressWidth ops doc =
     (let maxAddr = doc_baseaddress doc + rendererLength ops doc
      in if maxAddr \<le> 0xFFFF then 4 else if maxAddr \<le> 0xFFFFFFFF then 8 else 16)"

definition borderSize :: "font \<Rightarrow> ('b, 's, 'c) qhexdocument \<Rightarrow> cint" where
  "borderSize ft doc = ft_cells ft (ucast (doc_areaindent doc))"

definition getHexColumnX :: "font \<Rightarrow> 'b hex_ops \<Rightarrow> ('b, 's, 'c) qhexdocument \<Rightarrow> cint" where
  "getHexColumnX ft ops doc = ft_cells ft (getAddressWidth ops doc) + 2 * borderSize ft doc"

definition getAsciiColumnX :: "font \<Rightarrow> 'b hex_ops \<Rightarrow> ('b, 's, 'c) qhexdocument \<Rightarrow> cint" where
  "getAsciiColumnX ft ops doc =
     getHexColumnX ft ops doc + ft_cells ft (hexLineWidth doc * 3) + 2 * borderSize ft doc"

definition getEndColumnX :: "font \<Rightarrow> 'b hex_ops \<Rightarrow> ('b, 's, 'c) qhexdocument \<Rightarrow> cint" where
  "getEndColumnX ft ops doc =
     getAsciiColumnX ft ops doc + ft_cells ft (hexLineWidth doc) + 2 * borderSize ft doc"

definition getLineRect :: "font \<Rightarrow> 'b hex_ops \<Rightarrow> u64 \<Rightarrow> u64 \<Rightarrow> ('b, 's, 'c) qhexdocument \<Rightarrow> cint \<times> cint \<times> cint \<times> cint" where
  "getLineRect ft ops line firstline doc =
     (0, ucast ((line - firstline + scast headerLineCount) * scast (ft_lineHeight ft)), getEndColumnX ft ops doc, ft_lineHeight ft)"

section \<open>Hit testing\<close>

definition hitTestArea :: "font \<Rightarrow> 'b hex_ops \<Rightarrow> cint \<times> cint \<Rightarrow> ('b, 's, 'c) qhexdocument \<Rightarrow> area" where
  "hitTestArea ft ops pt doc =
     (let x = sint (fst pt); border = borderSize ft doc in
      if sint (snd pt) < sint (headerLineCount * ft_lineHeight ft) then HeaderArea
      else if x \<ge> sint border \<and> x \<le> sint (getHexColumnX ft ops doc - border) then AddressArea
      else if x > sint (getHexColumnX ft ops doc + border) \<and> x < sint (getAsciiColumnX ft ops doc - border) then HexArea
      else if x > sint (getAsciiColumnX ft ops doc + border) \<and> x < sint (getEndColumnX ft ops doc - border) then AsciiArea
      else ExtraArea)"

text \<open>The column and the nibble of a point in an editable area.\<close>

definition hit_column :: "font \<Rightarrow> 'b hex_ops \<Rightarrow> area \<Rightarrow> cint \<Rightarrow> ('b, 's, 'c) qhexdocument \<Rightarrow> cint \<times> cint" where
  "hit_column ft ops area x doc =
     (if area = HexArea
      then let relx = x - getHexColumnX ft ops doc - borderSize ft doc; column = ft_column ft relx
        in (word_of_int (sint column sdiv 3), if sint column smod 3 = 0 then 1 else 0)
      else let relx = x - getAsciiColumnX ft ops doc - borderSize ft doc in (ft_column ft relx, 1))"

definition smin :: "cint \<Rightarrow> cint \<Rightarrow> cint" where "smin a b = (if sint b < sint a then b else a)"

text \<open>\<open>Some None\<close> is the result \<open>false\<close>.\<close>

definition hitTest :: "font \<Rightarrow> 'b hex_ops \<Rightarrow> cint \<times> cint \<Rightarrow> u64 \<Rightarrow> ('b, 's, 'c) qhexdocument \<Rightarrow>
    (qhexposition option \<times> ('b, 's, 'c) qhexdocument) option" where
  "hitTest ft ops pt firstline doc =
     (let area = hitTestArea ft ops pt doc in
      if \<not> editableArea area then Some (None, doc)
      else if ft_lineHeight ft = 0 then None
      else do {
        lastLine \<leftarrow> documentLastLine ops doc;
        let line = min (firstline + word_of_int (sint (snd pt) sdiv sint (ft_lineHeight ft)) - scast headerLineCount) lastLine;
        let (column, nibble) = hit_column ft ops area (fst pt) doc;
        let (column, doc) = (if line = lastLine
          then case getLine ops line doc of (ba, doc) \<Rightarrow> (smin column (of_nat (length ba)), doc)
          else (smin column (hexLineWidth doc - 1), doc));
        Some (Some \<lparr>ps_line = line, ps_column = column, ps_lineWidth = ucast (hexLineWidth doc), ps_nibbleindex = nibble\<rparr>, doc)
      })"


section \<open>The number of lines\<close>

lemma bits_bounds: "0 < n \<Longrightarrow> 2 ^ (bits n - 1) \<le> n \<and> n < 2 ^ bits n \<and> 0 < bits n"
proof (induction n rule: bits.induct)
  case (1 n)
  show ?case
  proof (cases "n = 1")
    case True
    then show ?thesis by (simp add: bits.simps)
  next
    case False
    then have "0 < n div 2" using 1(2) by linarith
    from 1(1) [OF _ this] 1(2) have b: "2 ^ (bits (n div 2) - 1) \<le> n div 2" "n div 2 < 2 ^ bits (n div 2)" "0 < bits (n div 2)"
      by simp_all
    obtain k where k: "bits (n div 2) = Suc k" using b(3) gr0_implies_Suc by blast
    have "bits n = Suc (Suc k)" using 1(2) k by (subst bits.simps) simp
    then show ?thesis using b(1,2) k by simp linarith
  qed
qed

lemma bits_le: "n < 2 ^ k \<Longrightarrow> bits n \<le> k"
proof (cases "n = 0")
  case False
  assume "n < 2 ^ k"
  with bits_bounds [of n] False have "(2 :: nat) ^ (bits n - 1) < 2 ^ k" by (meson le_less_trans neq0_conv)
  then show ?thesis by (simp add: power_less_imp_less_exp)
qed (simp add: bits.simps)

lemma half_even_upper: "0 < q \<Longrightarrow> p \<le> c * q \<Longrightarrow> half_even p q \<le> c"
proof -
  assume q: "0 < q" "p \<le> c * q"
  then have le: "p div q \<le> c" by (metis div_le_mono div_mult_self_is_m)
  show ?thesis
  proof (cases "p div q = c")
    case True
    have "p div q * q + p mod q \<le> c * q" using q(2) by simp
    then have "p mod q = 0" using True by simp
    then show ?thesis using True q(1) by (simp add: half_even_def Let_def)
  next
    case False
    then show ?thesis using le by (simp add: half_even_def Let_def)
  qed
qed

lemma half_even_lower: "0 < q \<Longrightarrow> c * q + t \<le> p \<Longrightarrow> q < 2 * t \<Longrightarrow> c + 1 \<le> half_even p q"
proof -
  assume q: "0 < q" "c * q + t \<le> p" "q < 2 * t"
  have le: "c \<le> p div q" using q(1,2) by (metis add_leD1 div_le_mono div_mult_self_is_m)
  show ?thesis
  proof (cases "p div q = c")
    case True
    then have "c * q + p mod q = p" by (metis div_mult_mod_eq)
    then have "t \<le> p mod q" using q(2) by linarith
    then show ?thesis using True q(3) by (simp add: half_even_def Let_def)
  next
    case False
    then show ?thesis using le by (simp add: half_even_def Let_def)
  qed
qed

lemma to_float_exact: "n < 2 ^ 24 \<Longrightarrow> to_float n = n"
  using bits_le [of n 24] by (simp add: to_float_def half_even_def)

lemma quotient_shift:
  assumes "n < 2 ^ 24" "0 < w" "w < 256"
  shows "bits (n * 2 ^ 32 div w) - 24 \<le> 32" "w * 2 ^ (bits (n * 2 ^ 32 div w) - 24) < 2 * 2 ^ 32"
proof -
  let ?q = "n * 2 ^ 32 div w"
  have "?q \<le> n * 2 ^ 32" by simp
  also have "\<dots> < 2 ^ 56" using assms(1) by simp
  finally have "bits ?q \<le> 56" by (rule bits_le)
  then show "bits ?q - 24 \<le> 32" by simp
  show "w * 2 ^ (bits ?q - 24) < 2 * 2 ^ 32"
  proof (cases "bits ?q \<le> 24")
    case True
    then show ?thesis using assms(3) by simp
  next
    case False
    then obtain k where k: "bits ?q = Suc (24 + k)" by (metis add_Suc_right less_imp_Suc_add not_le_imp_less)
    have "0 < ?q" using k by (cases "?q = 0") (simp_all add: bits.simps)
    then have "2 ^ (24 + k) \<le> ?q" using bits_bounds [of ?q] k by simp
    then have "w * 2 ^ (24 + k) \<le> w * ?q" by simp
    also have "\<dots> \<le> n * 2 ^ 32" by simp
    also have "\<dots> < 2 ^ 24 * 2 ^ 32" using assms(1) by simp
    finally have "w * 2 ^ k < 2 ^ 32" by (simp add: power_add)
    then show ?thesis using k by simp
  qed
qed

lemma pow_split: "k \<le> 32 \<Longrightarrow> 2 ^ (32 - k) * 2 ^ k = (2 :: nat) ^ 32"
  by (simp only: power_add [symmetric] le_add_diff_inverse2)

lemma ceil_div:
  fixes m x p :: nat
  assumes "m * p < x" "x \<le> (m + 1) * p"
  shows "(x + p - 1) div p = m + 1"
proof -
  obtain r where r: "x = m * p + Suc r" using assms(1) less_imp_Suc_add by fastforce
  then have "r < p" using assms(2) by simp
  then have "x + p - 1 = r + (m + 1) * p" "0 < p" using r by simp_all
  then show ?thesis using \<open>r < p\<close> by (simp only: div_mult_self1 div_less)
qed

lemma ceil32_eq: "m * 2 ^ 32 < x \<Longrightarrow> x \<le> (m + 1) * 2 ^ 32 \<Longrightarrow> ceil32 x = m + 1"
  unfolding ceil32_def by (rule ceil_div)

lemma scaled_quotient:
  fixes n w a K P :: nat
  assumes "0 < n" "0 < w" "0 < K" "a * K = P" "w * K < 2 * P"
  shows "(n - 1) div w * P < half_even (n * P) (w * K) * K"
    "half_even (n * P) (w * K) * K \<le> ((n - 1) div w + 1) * P"
proof -
  let ?m = "(n - 1) div w"
  have s: "0 < w * K" using assms(2,3) by simp
  have d: "?m * w + (n - 1) mod w = n - 1" "(n - 1) mod w < w" using assms(2) by simp_all
  have lo: "?m * w + 1 \<le> n" using d(1) assms(1) by linarith
  have "n \<le> ?m * w + w" using d by linarith
  then have "n \<le> (?m + 1) * w" by simp
  then have "n * P \<le> (?m + 1) * w * P" by (rule mult_le_mono1)
  also have "\<dots> = (?m + 1) * a * (w * K)" by (simp only: assms(4) [symmetric] ac_simps)
  finally have "half_even (n * P) (w * K) * K \<le> (?m + 1) * a * K" by (intro mult_le_mono1 half_even_upper [OF s])
  then show "half_even (n * P) (w * K) * K \<le> (?m + 1) * P" by (simp only: assms(4) mult.assoc)
  have "(?m * w + 1) * P \<le> n * P" using lo by (rule mult_le_mono1)
  moreover have "(?m * w + 1) * P = ?m * a * (w * K) + P" by (simp add: assms(4) [symmetric] distrib_right ac_simps)
  ultimately have "?m * a * (w * K) + P \<le> n * P" by (simp only:)
  then have "?m * a + 1 \<le> half_even (n * P) (w * K)" using assms(5) by (rule half_even_lower [OF s])
  then have "(?m * a + 1) * K \<le> half_even (n * P) (w * K) * K" by (rule mult_le_mono1)
  moreover have "(?m * a + 1) * K = ?m * P + K" by (simp only: distrib_right mult.assoc assms(4) mult_1)
  ultimately show "?m * P < half_even (n * P) (w * K) * K" using assms(3) by linarith
qed

lemma ceil_quotient:
  assumes "0 < n" "n < 2 ^ 24" "0 < w" "w < 256"
  shows "ceil32 (float_quotient n w) = (n - 1) div w + 1"
proof -
  note K = quotient_shift [OF assms(2-4)]
  note scaled_quotient [OF assms(1,3) _ pow_split [OF K(1)] K(2)]
  then show ?thesis unfolding float_quotient_def Let_def by (intro ceil32_eq) simp_all
qed

text \<open>The last line of a document of \<open>n\<close> bytes is \<open>n div w\<close>; it has room for the next byte.\<close>

lemma memory_lines:
  assumes "length (doc_buffer doc) + 1 < 2 ^ 24" "0 < doc_hexlinewidth doc"
  shows "documentLines (memory_ops qt) doc = Some (of_nat (length (doc_buffer doc) div unat (doc_hexlinewidth doc) + 1))"
    "documentLastLine (memory_ops qt) doc = Some (of_nat (length (doc_buffer doc) div unat (doc_hexlinewidth doc)))"
proof -
  let ?n = "length (doc_buffer doc) + 1" and ?w = "unat (doc_hexlinewidth doc)"
  have w: "0 < ?w" "?w < 256" "doc_hexlinewidth doc \<noteq> 0" using assms(2) unat_u8 by (auto simp: word_less_nat_alt)
  have "rendererLength (memory_ops qt) doc = of_nat ?n" by (simp add: rendererLength_def memory_ops_def mem_length_def)
  then have "unat (rendererLength (memory_ops qt) doc) = ?n" using assms(1) unat_of_nat_u64 [of ?n] by simp
  moreover have "ceil32 (float_quotient ?n ?w) = (?n - 1) div ?w + 1" using ceil_quotient [of ?n ?w] assms(1) w by simp
  ultimately show 1: "documentLines (memory_ops qt) doc = Some (of_nat (length (doc_buffer doc) div ?w + 1))"
    using to_float_exact [OF assms(1)] w(3) by (simp add: documentLines_def)
  show "documentLastLine (memory_ops qt) doc = Some (of_nat (length (doc_buffer doc) div ?w))"
    by (simp add: documentLastLine_def 1)
qed

lemma width_cint: "hexLineWidth doc = of_nat (unat (doc_hexlinewidth doc))"
  by (simp add: hexLineWidth_def)

lemma ucast_width: "ucast (ucast w :: cint) = w" for w :: u8
  by transfer simp

lemma sint_of_nat_cint: "n < 2 ^ 31 \<Longrightarrow> sint (of_nat n :: cint) = int n"
  using sint_small [of "of_nat n :: cint"] unat_of_nat_cint [of n] by simp

lemma scast_of_nat: "n < 2 ^ 31 \<Longrightarrow> scast (of_nat n :: cint) = (of_nat n :: u64)"
  using scast_small [of "of_nat n"] unat_of_nat_cint [of n] by simp

lemma get_line:
  assumes "qbytearray qt" "line * unat (doc_hexlinewidth doc) < 2 ^ 31"
  shows "getLine (memory_ops qt) (of_nat line) doc =
    (take (unat (doc_hexlinewidth doc)) (drop (line * unat (doc_hexlinewidth doc)) (doc_buffer doc)), doc)"
proof -
  let ?w = "unat (doc_hexlinewidth doc)"
  have w: "?w < 2 ^ 31" using unat_u8 [of "doc_hexlinewidth doc"] by simp
  have o: "of_nat line * scast (hexLineWidth doc) = (of_nat (line * ?w) :: u64)"
    unfolding width_cint scast_of_nat [OF w] by simp
  have u: "unat (of_nat (line * ?w) :: u64) = line * ?w" using assms(2) unat_of_nat_u64 [of "line * ?w"] by simp
  have s: "0 \<le> sint (hexLineWidth doc)" "unat (hexLineWidth doc) = ?w"
    using w sint_of_nat_cint [OF w] unat_of_nat_cint [of ?w] by (simp_all add: width_cint)
  have "mem_read qt (of_nat (line * ?w)) (hexLineWidth doc) (doc_buffer doc) = take ?w (drop (line * ?w) (doc_buffer doc))"
    using qbytearray.mem_read_eq [OF assms(1), of "of_nat (line * ?w)" "hexLineWidth doc" "doc_buffer doc"] assms(2) u s by simp
  then show ?thesis unfolding getLine_def o by (simp add: memory_ops_def)
qed

lemma last_column:
  assumes "qbytearray qt" "length (doc_buffer doc) + 1 < 2 ^ 24" "0 < doc_hexlinewidth doc"
  shows "getLine (memory_ops qt) (of_nat (length (doc_buffer doc) div unat (doc_hexlinewidth doc))) doc =
      (drop (length (doc_buffer doc) div unat (doc_hexlinewidth doc) * unat (doc_hexlinewidth doc)) (doc_buffer doc), doc)"
    "documentLastColumn (memory_ops qt) doc = Some (of_nat (length (doc_buffer doc) mod unat (doc_hexlinewidth doc)), doc)"
proof -
  let ?n = "length (doc_buffer doc)" and ?w = "unat (doc_hexlinewidth doc)"
  have w: "0 < ?w" using assms(3) by (simp add: word_less_nat_alt)
  have le: "?n div ?w * ?w \<le> ?n" by simp
  have l: "?n - ?n div ?w * ?w = ?n mod ?w" by (simp add: minus_div_mult_eq_mod)
  have m: "?n mod ?w \<le> ?w" using w by (simp add: less_imp_le)
  have "?n div ?w * ?w < 2 ^ 31" by (rule le_less_trans [OF le]) (use assms(2) in simp)
  then show 1: "getLine (memory_ops qt) (of_nat (?n div ?w)) doc = (drop (?n div ?w * ?w) (doc_buffer doc), doc)"
    using get_line [OF assms(1), of "?n div ?w" doc] l m by simp
  show "documentLastColumn (memory_ops qt) doc = Some (of_nat (?n mod ?w), doc)"
    using memory_lines(2) [OF assms(2,3)] 1 l by (simp add: documentLastColumn_def)
qed

lemma div_below: "a < n \<Longrightarrow> a div b < n" for a b n :: nat
  by (rule le_less_trans [OF div_le_dividend])

lemma sdiv_nat: "int a sdiv int b = int (a div b)"
  by (cases "a = 0") (simp_all add: signed_divide_int_def sgn_if zdiv_int)

lemma smod_nat: "int a smod int b = int (a mod b)"
  by (cases "a = 0") (simp_all add: signed_modulo_int_def sgn_if zmod_int)

section \<open>The layout\<close>

text \<open>The columns in pixels, for cells \<open>c\<close> pixels wide.\<close>

definition border_px :: "nat \<Rightarrow> ('b, 's, 'c) qhexdocument \<Rightarrow> nat" where
  "border_px c doc = unat (doc_areaindent doc) * c"

definition hex_px :: "nat \<Rightarrow> 'b hex_ops \<Rightarrow> ('b, 's, 'c) qhexdocument \<Rightarrow> nat" where
  "hex_px c ops doc = unat (getAddressWidth ops doc) * c + 2 * border_px c doc"

definition ascii_px :: "nat \<Rightarrow> 'b hex_ops \<Rightarrow> ('b, 's, 'c) qhexdocument \<Rightarrow> nat" where
  "ascii_px c ops doc = hex_px c ops doc + 3 * unat (doc_hexlinewidth doc) * c + 2 * border_px c doc"

definition end_px :: "nat \<Rightarrow> 'b hex_ops \<Rightarrow> ('b, 's, 'c) qhexdocument \<Rightarrow> nat" where
  "end_px c ops doc = ascii_px c ops doc + unat (doc_hexlinewidth doc) * c + 2 * border_px c doc"

lemma address_width: "unat (getAddressWidth ops doc) \<in> {4, 8, 16}"
  by (simp add: getAddressWidth_def Let_def)

lemma end_px_small: "c < 2 ^ 16 \<Longrightarrow> end_px c ops doc < 2 ^ 31"
proof -
  assume c: "c < 2 ^ 16"
  have "unat (getAddressWidth ops doc) \<le> 16" using address_width [of ops doc] by auto
  moreover note unat_u8 [of "doc_areaindent doc"] unat_u8 [of "doc_hexlinewidth doc"]
  ultimately have "unat (getAddressWidth ops doc) + 6 * unat (doc_areaindent doc) + 4 * unat (doc_hexlinewidth doc) \<le> 2566"
    by linarith
  then have "(unat (getAddressWidth ops doc) + 6 * unat (doc_areaindent doc) + 4 * unat (doc_hexlinewidth doc)) * c \<le> 2566 * 2 ^ 16"
    using c by (intro mult_le_mono) simp_all
  moreover have "end_px c ops doc =
      (unat (getAddressWidth ops doc) + 6 * unat (doc_areaindent doc) + 4 * unat (doc_hexlinewidth doc)) * c"
    by (simp add: end_px_def ascii_px_def hex_px_def border_px_def algebra_simps)
  ultimately show ?thesis by simp
qed

lemma line_word_min:
  assumes "l < 2 ^ 64" "lst < 2 ^ 31"
  shows "min (of_nat l) (of_nat lst :: u64) = of_nat (min l lst)" "of_nat (min l lst) = (of_nat lst :: u64) \<longleftrightarrow> lst \<le> l"
proof -
  have u: "unat (of_nat l :: u64) = l" "unat (of_nat lst :: u64) = lst"
    using unat_of_nat_u64 [OF assms(1)] unat_of_nat_u64 [of lst] assms(2) by simp_all
  show "min (of_nat l) (of_nat lst :: u64) = of_nat (min l lst)"
    unfolding min_def word_le_nat_alt u by simp
  have "unat (of_nat (min l lst) :: u64) = min l lst" using assms(2) by (intro unat_of_nat_u64) simp
  then show "of_nat (min l lst) = (of_nat lst :: u64) \<longleftrightarrow> lst \<le> l" using u(2) by (metis min.absorb2 min.cobounded1)
qed

lemma smin_nat: "a < 2 ^ 31 \<Longrightarrow> b < 2 ^ 31 \<Longrightarrow> smin (of_nat a) (of_nat b) = of_nat (min a b)"
  using sint_of_nat_cint [of a] sint_of_nat_cint [of b] by (simp add: smin_def min_def not_less)

context cell_font
begin

lemma columns_px:
  assumes "c < 2 ^ 16"
  shows "borderSize ft doc = of_nat (border_px c doc)" "getHexColumnX ft ops doc = of_nat (hex_px c ops doc)"
    "getAsciiColumnX ft ops doc = of_nat (ascii_px c ops doc)" "getEndColumnX ft ops doc = of_nat (end_px c ops doc)"
proof -
  have small: "k \<le> 1020 \<Longrightarrow> k * c < 2 ^ 31" for k
    using assms mult_le_mono [of k 1020 c "2 ^ 16"] by simp
  have i: "unat (doc_areaindent doc) \<le> 1020" "unat (doc_hexlinewidth doc) \<le> 1020" "3 * unat (doc_hexlinewidth doc) \<le> 1020"
    using unat_u8 [of "doc_areaindent doc"] unat_u8 [of "doc_hexlinewidth doc"] by simp_all
  have w: "(ucast (doc_areaindent doc) :: cint) = of_nat (unat (doc_areaindent doc))" by simp
  show b: "borderSize ft doc = of_nat (border_px c doc)"
    unfolding borderSize_def border_px_def w by (rule cells_eq [OF small [OF i(1)]])
  have "unat (getAddressWidth ops doc) \<le> 1020" using address_width [of ops doc] by auto
  from cells_eq [OF small [OF this]]
  show x: "getHexColumnX ft ops doc = of_nat (hex_px c ops doc)"
    unfolding getHexColumnX_def b by (simp add: hex_px_def)
  have "hexLineWidth doc * 3 = of_nat (3 * unat (doc_hexlinewidth doc))" by (simp add: width_cint)
  then have "ft_cells ft (hexLineWidth doc * 3) = of_nat (3 * unat (doc_hexlinewidth doc) * c)"
    by (simp only: cells_eq [OF small [OF i(3)]])
  then show a: "getAsciiColumnX ft ops doc = of_nat (ascii_px c ops doc)"
    unfolding getAsciiColumnX_def b x by (simp add: ascii_px_def)
  show "getEndColumnX ft ops doc = of_nat (end_px c ops doc)"
    unfolding getEndColumnX_def b a width_cint cells_eq [OF small [OF i(2)]] by (simp add: end_px_def)
qed

text \<open>The areas of a point with coordinates \<open>x\<close> and \<open>y\<close>.\<close>

lemma hit_area:
  assumes "c < 2 ^ 16" "x < 2 ^ 31" "y < 2 ^ 31"
  shows "hex_px c ops doc + border_px c doc < x \<Longrightarrow> x + border_px c doc < ascii_px c ops doc \<Longrightarrow>
      hitTestArea ft ops (of_nat x, of_nat y) doc = HexArea"
    "ascii_px c ops doc + border_px c doc < x \<Longrightarrow> x + border_px c doc < end_px c ops doc \<Longrightarrow>
      hitTestArea ft ops (of_nat x, of_nat y) doc = AsciiArea"
proof -
  let ?b = "border_px c doc" and ?h = "hex_px c ops doc" and ?a = "ascii_px c ops doc" and ?e = "end_px c ops doc"
  have le: "?b \<le> ?h" "?h \<le> ?a" "?h + ?b \<le> ?a" "?a + ?b \<le> ?e" "?b \<le> ?e" "?b \<le> ?a"
    by (simp_all add: hex_px_def ascii_px_def end_px_def)
  note e = end_px_small [OF assms(1), of ops doc]
  have s: "sint (of_nat ?b :: cint) = int ?b" "sint (of_nat x :: cint) = int x" "sint (of_nat y :: cint) = int y"
    using le e assms(2,3) by (intro sint_of_nat_cint; linarith)+
  have plus: "sint (of_nat m + of_nat ?b :: cint) = int (m + ?b)" if "m + ?b < 2 ^ 31" for m
    using sint_of_nat_cint [OF that] by simp
  have minus: "sint (of_nat m - of_nat ?b :: cint) = int m - int ?b" if "?b \<le> m" "m < 2 ^ 31" for m
    using sint_of_nat_cint [of "m - ?b"] that by (simp add: of_nat_diff)
  note px = columns_px [OF assms(1)]
  note defs = hitTestArea_def Let_def px s headerLineCount_def
  { assume "?h + ?b < x" "x + ?b < ?a"
    then show "hitTestArea ft ops (of_nat x, of_nat y) doc = HexArea"
      using le e by (simp add: defs plus minus) }
  { assume "?a + ?b < x" "x + ?b < ?e"
    then show "hitTestArea ft ops (of_nat x, of_nat y) doc = AsciiArea"
      using le e by (simp add: defs plus minus) }
qed

lemma hit_column_hex:
  assumes "c < 2 ^ 16" "r < 2 ^ 31" "x = hex_px c ops doc + border_px c doc + r"
  shows "hit_column ft ops HexArea (of_nat x) doc =
      (of_nat (r div c div 3), if r div c mod 3 = 0 then 1 else 0)"
proof -
  have rel: "of_nat x - getHexColumnX ft ops doc - borderSize ft doc = of_nat r"
    unfolding columns_px [OF assms(1)] assms(3) by simp
  have "r div c < 2 ^ 31" using assms(2) div_le_dividend [of r c] by linarith
  then have s: "sint (of_nat (r div c) :: cint) = int (r div c)" by (rule sint_of_nat_cint)
  show ?thesis
    using sdiv_nat [of "r div c" 3] smod_nat [of "r div c" 3]
    by (simp add: hit_column_def Let_def rel column_eq [OF assms(2)] s del: of_nat_div)
qed

lemma hit_column_ascii:
  assumes "c < 2 ^ 16" "r < 2 ^ 31" "x = ascii_px c ops doc + border_px c doc + r"
  shows "hit_column ft ops AsciiArea (of_nat x) doc = (of_nat (r div c), 1)"
proof -
  have "of_nat x - getAsciiColumnX ft ops doc - borderSize ft doc = of_nat r"
    unfolding columns_px [OF assms(1)] assms(3) by simp
  then show ?thesis by (simp add: hit_column_def Let_def column_eq [OF assms(2)])
qed

text \<open>A point in line \<open>l\<close> of the document, its column found, with \<open>f\<close> the first visible line.\<close>

lemma hit_position:
  assumes "qbytearray qt" "length (doc_buffer doc) + 1 < 2 ^ 24" "0 < doc_hexlinewidth doc"
    and "hitTestArea ft (memory_ops qt) pt doc = area" "editableArea area"
    and "hit_column ft (memory_ops qt) area (fst pt) doc = (of_nat col, nib)" "col < 2 ^ 31"
    and "snd pt = of_nat y" "y < 2 ^ 31" "f < 2 ^ 63" "lst = length (doc_buffer doc) div unat (doc_hexlinewidth doc)"
  shows "hitTest ft (memory_ops qt) pt (of_nat f) doc = Some (Some
    \<lparr>ps_line = of_nat (min (f + y div h) lst),
     ps_column = of_nat (if lst \<le> f + y div h then min col (length (doc_buffer doc) mod unat (doc_hexlinewidth doc))
       else min col (unat (doc_hexlinewidth doc) - 1)),
     ps_lineWidth = doc_hexlinewidth doc, ps_nibbleindex = nib\<rparr>, doc)"
proof -
  let ?n = "length (doc_buffer doc)" and ?w = "unat (doc_hexlinewidth doc)"
  define l where "l = f + y div h"
  have w: "0 < ?w" "?w < 256" using assms(3) unat_u8 by (simp_all add: word_less_nat_alt)
  have lh: "ft_lineHeight ft \<noteq> 0" "sint (ft_lineHeight ft) = int h"
    using height_pos height_eq sint_of_nat_cint [OF height_pos(2)] by auto
  have "sint (of_nat y :: cint) = int y" by (rule sint_of_nat_cint [OF assms(9)])
  then have q: "sint (snd pt) sdiv sint (ft_lineHeight ft) = int (y div h)"
    by (simp only: assms(8) lh(2) sdiv_nat)
  have "y div h < 2 ^ 31" using assms(9) div_le_dividend [of y h] by linarith
  then have l: "l < 2 ^ 64" using assms(10) by (simp add: l_def)
  have "lst \<le> ?n" by (simp add: assms(11))
  then have n: "lst < 2 ^ 31" by (rule le_less_trans) (use assms(2) in simp)
  have line: "of_nat f + of_nat (y div h) - scast headerLineCount = (of_nat l :: u64)"
    by (simp add: headerLineCount_def l_def)
  note mn = line_word_min(1) [OF l n] and eq = line_word_min(2) [OF l n]
  have len: "?n - lst * ?w = ?n mod ?w"
    by (simp add: assms(11) minus_div_mult_eq_mod)
  have g: "getLine (memory_ops qt) (of_nat lst) doc = (drop (lst * ?w) (doc_buffer doc), doc)"
    unfolding assms(11) by (rule last_column(1) [OF assms(1-3)])
  note smin = smin_nat [OF assms(7)]
  have m: "?n mod ?w < 2 ^ 31" "?w - 1 < 2 ^ 31"
    using w less_trans [OF mod_less_divisor [OF w(1), of ?n]] by simp_all
  have w1: "hexLineWidth doc - 1 = of_nat (?w - 1)" using w(1) by (simp add: width_cint of_nat_diff)
  have lw: "ucast (hexLineWidth doc) = doc_hexlinewidth doc" by (simp only: hexLineWidth_def ucast_width)
  show ?thesis
  proof (cases "lst \<le> l")
    case True
    then show ?thesis
      by (simp add: hitTest_def assms(4-6) Let_def lh(1) memory_lines(2) [OF assms(2,3)] assms(11) [symmetric]
          q line mn eq lw l_def [symmetric] g len smin [OF m(1)] min_absorb2)
  next
    case False
    then have "(of_nat l :: u64) \<noteq> of_nat lst" "min l lst = l" using eq by (simp_all add: min_def)
    then show ?thesis using False
      by (simp add: hitTest_def assms(4-6) Let_def lh(1) memory_lines(2) [OF assms(2,3)] assms(11) [symmetric]
          q line mn lw l_def [symmetric] smin [OF m(2), unfolded One_nat_def] w1)
  qed
qed

text \<open>Whatever the point, a hit is a place in the document or at its end.\<close>

lemma cell_bound:
  fixes l lst n w col :: nat
  assumes "0 < w" "lst = n div w"
  shows "min l lst * w + (if lst \<le> l then min col (n mod w) else min col (w - 1)) \<le> n"
    "(if lst \<le> l then min col (n mod w) else min col (w - 1)) < w"
proof -
  have d: "lst * w + n mod w = n" "n mod w < w" using assms by simp_all
  show "(if lst \<le> l then min col (n mod w) else min col (w - 1)) < w" using d(2) assms(1) by (simp add: min_less_iff_disj)
  show "min l lst * w + (if lst \<le> l then min col (n mod w) else min col (w - 1)) \<le> n"
  proof (cases "lst \<le> l")
    case True
    then show ?thesis using d(1) min.cobounded2 [of col "n mod w"] by (simp add: min_absorb2)
  next
    case False
    then have "(l + 1) * w \<le> lst * w" by (intro mult_le_mono1) simp
    then have "l * w + w \<le> n" using d(1) by simp
    then show ?thesis using False assms(1) min.cobounded2 [of col "w - 1"] by (simp add: min_def)
  qed
qed

lemma area_point:
  assumes "c < 2 ^ 16" "hitTestArea ft ops pt doc = area" "editableArea area"
  shows "0 \<le> sint (snd pt)"
    "area = HexArea \<Longrightarrow> int (hex_px c ops doc + border_px c doc) < sint (fst pt)"
    "area = AsciiArea \<Longrightarrow> int (ascii_px c ops doc + border_px c doc) < sint (fst pt)"
proof -
  let ?b = "border_px c doc" and ?h = "hex_px c ops doc" and ?a = "ascii_px c ops doc" and ?e = "end_px c ops doc"
  have le: "?h + ?b \<le> ?a" "?a + ?b \<le> ?e" by (simp_all add: hex_px_def ascii_px_def end_px_def)
  note e = end_px_small [OF assms(1), of ops doc]
  have plus: "sint (of_nat m + of_nat ?b :: cint) = int (m + ?b)" if "m + ?b < 2 ^ 31" for m
    using sint_of_nat_cint [OF that] by simp
  note px = columns_px [OF assms(1)]
  have s: "sint (getHexColumnX ft ops doc + borderSize ft doc) = int (?h + ?b)"
    "sint (getAsciiColumnX ft ops doc + borderSize ft doc) = int (?a + ?b)"
    unfolding px by (rule plus, use le e in linarith)+
  show "0 \<le> sint (snd pt)"
    "area = HexArea \<Longrightarrow> int (?h + ?b) < sint (fst pt)" "area = AsciiArea \<Longrightarrow> int (?a + ?b) < sint (fst pt)"
    using assms(2,3) s by (auto simp: hitTestArea_def Let_def headerLineCount_def editableArea_def split: if_splits)
qed

lemma hit_in_document:
  assumes "c < 2 ^ 16" "qbytearray qt" "length (doc_buffer doc) + 1 < 2 ^ 24" "0 < doc_hexlinewidth doc" "unat f < 2 ^ 63"
  obtains "hitTest ft (memory_ops qt) pt f doc = Some (None, doc)"
  | p where "hitTest ft (memory_ops qt) pt f doc = Some (Some p, doc)" "pos_ok (doc_hexlinewidth doc) p"
    "at_offset p \<le> length (doc_buffer doc)" "ps_nibbleindex p \<in> {0, 1}"
proof (cases "editableArea (hitTestArea ft (memory_ops qt) pt doc)")
  case False
  then show thesis using that(1) by (simp add: hitTest_def Let_def)
next
  case True
  let ?ops = "memory_ops qt" and ?n = "length (doc_buffer doc)" and ?w = "unat (doc_hexlinewidth doc)"
  let ?area = "hitTestArea ft ?ops pt doc"
  note A = area_point [OF assms(1) refl True]
  have y: "snd pt = of_nat (unat (snd pt))" "unat (snd pt) < 2 ^ 31"
    using sint_nonneg [OF A(1)] sint_lt [of "snd pt"] by (simp_all del: of_nat_unat, simp)
  have "0 \<le> sint (fst pt)" using A(2,3) True by (auto simp: editableArea_def intro: order.strict_implies_order le_less_trans)
  then have x: "fst pt = of_nat (unat (fst pt))" "unat (fst pt) < 2 ^ 31" "sint (fst pt) = int (unat (fst pt))"
    using sint_nonneg [of "fst pt"] sint_lt [of "fst pt"] by (simp_all del: of_nat_unat, simp)
  obtain col nib where h: "hit_column ft ?ops ?area (fst pt) doc = (of_nat col, nib)" "col < 2 ^ 31" "nib \<in> {0, 1}"
  proof (cases "?area = HexArea")
    case hex: True
    define r where "r = unat (fst pt) - (hex_px c ?ops doc + border_px c doc)"
    have r: "r < 2 ^ 31" "unat (fst pt) = hex_px c ?ops doc + border_px c doc + r"
      using A(2) [OF hex] x(2,3) by (simp_all add: r_def del: of_nat_unat)
    have "r div c div 3 < 2 ^ 31" by (intro div_below r(1))
    then show thesis using that [of "r div c div 3"] hit_column_hex [OF assms(1) r] x(1) hex by simp
  next
    case False
    then have ascii: "?area = AsciiArea" using True by (simp add: editableArea_def)
    define r where "r = unat (fst pt) - (ascii_px c ?ops doc + border_px c doc)"
    have r: "r < 2 ^ 31" "unat (fst pt) = ascii_px c ?ops doc + border_px c doc + r"
      using A(3) [OF ascii] x(2,3) by (simp_all add: r_def del: of_nat_unat)
    have "r div c < 2 ^ 31" by (rule div_below [OF r(1)])
    then show thesis using that [of "r div c"] hit_column_ascii [OF assms(1) r] x(1) ascii by simp
  qed
  let ?l = "unat f + unat (snd pt) div h"
  let ?line = "min ?l (?n div ?w)" and ?col = "if ?n div ?w \<le> ?l then min col (?n mod ?w) else min col (?w - 1)"
  have w: "0 < ?w" "?w < 256" using assms(4) unat_u8 by (simp_all add: word_less_nat_alt)
  have hit: "hitTest ft ?ops pt f doc = Some (Some \<lparr>ps_line = of_nat ?line, ps_column = of_nat ?col,
      ps_lineWidth = doc_hexlinewidth doc, ps_nibbleindex = nib\<rparr>, doc)"
    using hit_position [OF assms(2-4) refl True h(1,2) y(1,2) assms(5) refl] by simp
  note b = cell_bound [OF w(1) refl, where l = ?l and n = ?n and col = col]
  have "?n div ?w < 2 ^ 64" by (rule div_below) (use assms(3) in simp)
  then have "?line < 2 ^ 64" by simp
  then have u: "unat (of_nat ?line :: u64) = ?line" by (rule unat_of_nat_u64)
  have v: "unat (of_nat ?col :: cint) = ?col"
    by (rule unat_of_nat_cint, rule less_trans [OF b(2)]) (use w(2) in simp)
  show thesis
    by (rule that(2) [OF hit])
       (use b u v h(3) assms(3) in \<open>simp_all add: pos_ok_def at_offset_def del: of_nat_min\<close>)
qed

end

section \<open>Properties\<close>

lemma concat_chunks:
  assumes "0 < w"
  shows "concat (map (\<lambda>l. take w (drop (l * w) a)) [0..<n]) = take (n * w) a"
proof (induction n)
  case (Suc n)
  then show ?case by (simp add: take_add add.commute [of w])
qed simp

text \<open>The lines show the document. A memory buffer below 16 MiB has one line per line width and one
for the rest, which leaves room for the next byte; the lines in order are exactly its bytes.\<close>

theorem lines_cover:
  assumes "qbytearray qt" "length (doc_buffer doc) + 1 < 2 ^ 24" "0 < doc_hexlinewidth doc"
  shows "\<exists>n. documentLines (memory_ops qt) doc = Some (of_nat n) \<and>
    concat (map (\<lambda>l. fst (getLine (memory_ops qt) (of_nat l) doc)) [0..<n]) = doc_buffer doc \<and>
    length (fst (getLine (memory_ops qt) (of_nat (n - 1)) doc)) < unat (doc_hexlinewidth doc)"
proof -
  let ?b = "doc_buffer doc" and ?w = "unat (doc_hexlinewidth doc)"
  let ?n = "length ?b div ?w + 1"
  have w: "0 < ?w" "?w < 256" using assms(3) unat_u8 by (simp_all add: word_less_nat_alt)
  have d: "length ?b div ?w * ?w + length ?b mod ?w = length ?b" "length ?b mod ?w < ?w" using w(1) by simp_all
  have get: "fst (getLine (memory_ops qt) (of_nat l) doc) = take ?w (drop (l * ?w) ?b)" if "l < ?n" for l
  proof -
    have "l * ?w \<le> length ?b div ?w * ?w" using that by (intro mult_le_mono1) simp
    then have "l * ?w \<le> length ?b" using d(1) by linarith
    then have "l * ?w < 2 ^ 31" by (rule le_less_trans) (use assms(2) in simp)
    then show ?thesis using get_line [OF assms(1), of l doc] by simp
  qed
  have "concat (map (\<lambda>l. fst (getLine (memory_ops qt) (of_nat l) doc)) [0..<?n]) =
      concat (map (\<lambda>l. take ?w (drop (l * ?w) ?b)) [0..<?n])"
    by (intro arg_cong [where f = concat] map_cong refl get) (simp del: upt_Suc)
  also have "\<dots> = take (?n * ?w) ?b" by (rule concat_chunks [OF w(1)])
  also have "\<dots> = ?b"
  proof (rule take_all)
    have "?n * ?w = length ?b div ?w * ?w + ?w" by simp
    then show "length ?b \<le> ?n * ?w" using d by linarith
  qed
  finally have c: "concat (map (\<lambda>l. fst (getLine (memory_ops qt) (of_nat l) doc)) [0..<?n]) = ?b" .
  have "length (drop (length ?b div ?w * ?w) ?b) < ?w" using d(2) by (simp add: minus_div_mult_eq_mod)
  then show ?thesis
    using c memory_lines(1) [OF assms(2,3), of qt] last_column(1) [OF assms] by (intro exI [of _ ?n]) simp
qed

text \<open>Single precision is not enough. At 16 MiB the number of lines, rounded to 24 bits before the
division, does not count the line on which the end of the document stands.\<close>

theorem float_line_lost:
  assumes "length (doc_buffer doc) = 2 ^ 24" "doc_hexlinewidth doc = 0x10"
  shows "documentLines (memory_ops qt) doc = Some (of_nat (length (doc_buffer doc) div 16))"
proof -
  have "rendererLength (memory_ops qt) doc = of_nat (2 ^ 24 + 1)"
    by (simp add: rendererLength_def memory_ops_def mem_length_def assms(1))
  then have "unat (rendererLength (memory_ops qt) doc) = 2 ^ 24 + 1" by simp
  moreover have "ceil32 (float_quotient (to_float (2 ^ 24 + 1)) 16) = 2 ^ 20"
    by (simp add: ceil32_def float_quotient_def to_float_def bits.simps half_even_def Let_def)
  ultimately show ?thesis by (simp add: documentLines_def assms)
qed

lemma in_columns:
  fixes r s m1 m3 hx b ax ex big :: nat
  assumes "r < m3" "s < m1" "hx + 2 * b + m3 \<le> ax" "ax + 2 * b + m1 \<le> ex" "ex < big"
  shows "hx + b + r < big" "ax + b + s < big" "r < big" "s < big" "hx + b + r + b < ax" "ax + b + s + b < ex"
  using assms by linarith+

text \<open>Where a pixel \<open>d\<close> of a drawn cell lies: within its column, at the place the layout gives.\<close>

lemma drawn_pixels:
  fixes ops :: "'b hex_ops" and doc :: "('b, 's, 'c) qhexdocument"
  assumes "cell_font ft c h" "c < 2 ^ 16" "w = unat (doc_hexlinewidth doc)" "col < w" "k < 3" "d < c"
  defines "r \<equiv> (3 * col + k) * c + d" and "s \<equiv> col * c + d"
  defines "x \<equiv> hex_px c ops doc + border_px c doc + r" and "x' \<equiv> ascii_px c ops doc + border_px c doc + s"
  shows "r div c div 3 = col" "r div c mod 3 = k" "s div c = col"
    and "x < 2 ^ 31" "x' < 2 ^ 31" "r < 2 ^ 31" "s < 2 ^ 31" "x + border_px c doc < ascii_px c ops doc" "x' + border_px c doc < end_px c ops doc"
    and "getHexColumnX ft ops doc + borderSize ft doc + of_nat r = of_nat x"
    "getAsciiColumnX ft ops doc + borderSize ft doc + of_nat s = of_nat x'"
proof -
  have "r div c = 3 * col + k" "s div c = col" using assms(6) by (simp_all add: r_def s_def)
  then show "r div c div 3 = col" "r div c mod 3 = k" "s div c = col" using assms(5) by simp_all
  have "(3 * col + k + 1) * c \<le> 3 * w * c" using assms(4,5) by (intro mult_le_mono1) linarith
  then have rw: "r < 3 * w * c" using assms(6) by (simp add: r_def)
  have "(col + 1) * c \<le> w * c" using assms(4) by (intro mult_le_mono1) linarith
  then have sw: "s < w * c" using assms(6) by (simp add: s_def)
  have le: "hex_px c ops doc + 2 * border_px c doc + 3 * w * c \<le> ascii_px c ops doc"
    "ascii_px c ops doc + 2 * border_px c doc + w * c \<le> end_px c ops doc"
    by (simp_all add: ascii_px_def end_px_def assms(3))
  show "x < 2 ^ 31" "x' < 2 ^ 31" "r < 2 ^ 31" "s < 2 ^ 31" "x + border_px c doc < ascii_px c ops doc" "x' + border_px c doc < end_px c ops doc"
    unfolding x_def x'_def by (rule in_columns [OF rw sw le end_px_small [OF assms(2), of ops doc]])+
  show "getHexColumnX ft ops doc + borderSize ft doc + of_nat r = of_nat x"
    "getAsciiColumnX ft ops doc + borderSize ft doc + of_nat s = of_nat x'"
    unfolding cell_font.columns_px [OF assms(1,2)] x_def x'_def by simp_all
qed


text \<open>A font of 8 by 16 pixels.\<close>

definition std_font :: font where
  "std_font = \<lparr>ft_lineHeight = 16, ft_cells = (\<lambda>n. n * 8), ft_column = (\<lambda>x. of_nat (unat x div 8))\<rparr>"

interpretation std_cells: cell_font std_font 8 16
  by unfold_locales (simp_all add: std_font_def unat_of_nat_cint)

lemma cut_doc_width: "doc_hexlinewidth cut_doc = 0x10" "doc_hexlinewidth (cut_doc\<lparr>doc_buffer := b\<rparr>) = 0x10"
  "length (doc_buffer (cut_doc\<lparr>doc_buffer := b\<rparr>)) = length b"
  by (simp_all add: cut_doc_def)

theorem lines_cover_witness:
  "\<exists>n. documentLines (memory_ops std_qt) cut_doc = Some (of_nat n) \<and>
    concat (map (\<lambda>l. fst (getLine (memory_ops std_qt) (of_nat l) cut_doc)) [0..<n]) =
      [0x41, 0x42, 0x43, 0x44, 0x45, 0x46, 0x47, 0x48]"
  using lines_cover [OF std.qbytearray_axioms, of cut_doc] cut_doc_ok(5) cut_doc_width by auto

theorem float_line_lost_witness:
  "documentLines (memory_ops std_qt) (cut_doc\<lparr>doc_buffer := replicate (2 ^ 24) 0\<rparr>) = Some (2 ^ 20)"
proof -
  let ?d = "cut_doc\<lparr>doc_buffer := replicate (2 ^ 24) 0\<rparr>"
  have "length (doc_buffer ?d) = 2 ^ 24" "doc_hexlinewidth ?d = 0x10"
    by (simp_all only: cut_doc_width length_replicate)
  moreover have "(of_nat (2 ^ 24 div 16) :: u64) = 2 ^ 20" by simp
  ultimately show ?thesis using float_line_lost [of ?d std_qt] by (simp only:)
qed


end
