(* ===== verification/Hex_View.thy ===== *)
theory Hex_View
  imports Hex_Renderer
begin

text \<open>
  The hex view widget (\<open>client/QHexView/qhexview.h\<close> and \<open>.cpp\<close>) over its document and renderer: keys and
  the mouse. Scrolling is in \<open>Hex_Scroll\<close>.

  What the widget gets from Qt is a parameter: \<open>view_env\<close> has the buffer, the undo stack, the font, the
  size of the widget and the conversions of a typed character; a \<open>key_event\<close> says which key sequences it
  matches. The signals of the document and of its cursor are
  connected to \<open>adjustScrollBars\<close> and \<open>moveToSelection\<close>, which change the scroll bars only; no key
  handler reads them, so the two sides are modelled apart. \<open>None\<close> is a division by zero or a read of a byte
  that is not there.

  The lemmas: moving by a nibble, typing a byte, and what the keys do at the edges of the document.
\<close>

section \<open>The widget\<close>

datatype key = Key_Backspace | Key_Delete | Key_Insert | Key_other

datatype key_sequence =
    MoveToNextChar | SelectNextChar | MoveToPreviousChar | SelectPreviousChar
  | MoveToNextLine | SelectNextLine | MoveToPreviousLine | SelectPreviousLine
  | MoveToNextPage | SelectNextPage | MoveToPreviousPage | SelectPreviousPage
  | MoveToStartOfDocument | SelectStartOfDocument | MoveToEndOfDocument | SelectEndOfDocument
  | MoveToStartOfLine | SelectStartOfLine | MoveToEndOfLine | SelectEndOfLine
  | SelectAll | Undo | Redo | Cut | Copy | Paste

text \<open>
  \<open>ke_modified\<close>: the modifiers are not \<open>Qt::NoModifier\<close>; \<open>ke_control\<close>: they have \<open>Qt::ControlModifier\<close>;
  \<open>ke_char\<close> is \<open>text()[0].toLatin1()\<close>.
\<close>

record key_event =
  ke_matches :: "key_sequence \<Rightarrow> bool"
  ke_key :: key
  ke_modified :: bool
  ke_control :: bool
  ke_char :: byte

text \<open>\<open>ve_hexval\<close> is \<open>QString( c ).toUInt( nullptr, 16 )\<close>; \<open>ve_key_right\<close> is a press of the right arrow.\<close>

record ('b, 's) view_env =
  ve_qt :: qt_env
  ve_ops :: "'b hex_ops"
  ve_undo :: "'s undo_ops"
  ve_font :: font
  ve_height :: cint
  ve_viewport_width :: cint
  ve_hexval :: "byte \<Rightarrow> byte"
  ve_key_right :: key_event

text \<open>
  The selected area and the cursor flag are those of the renderer; \<open>vw_blinking\<close> says that the blink
  timer runs; \<open>vw_ibeam\<close> is the shape of the mouse cursor; the clipboard is the application's.
\<close>

record ('b, 's, 'c) hexview =
  vw_document :: "('b, 's, 'c) qhexdocument"
  vw_selectedarea :: area
  vw_cursorenabled :: bool
  vw_readonly :: bool
  vw_blinking :: bool
  vw_ibeam :: bool
  vw_clipboard :: "byte list"

definition vcursor :: "('b, 's, 'c) hexview \<Rightarrow> qhexcursor" where
  "vcursor v = doc_cursor (vw_document v)"

definition on_document :: "(('b, 's, 'c) qhexdocument \<Rightarrow> ('b, 's, 'c) qhexdocument) \<Rightarrow> ('b, 's, 'c) hexview \<Rightarrow> ('b, 's, 'c) hexview" where
  "on_document f v = v\<lparr>vw_document := f (vw_document v)\<rparr>"

definition on_cursor :: "(qhexcursor \<Rightarrow> qhexcursor) \<Rightarrow> ('b, 's, 'c) hexview \<Rightarrow> ('b, 's, 'c) hexview" where
  "on_cursor f v = on_document (\<lambda>doc. doc\<lparr>doc_cursor := f (doc_cursor doc)\<rparr>) v"

definition setDocument :: "('b, 's, 'c) qhexdocument \<Rightarrow> ('b, 's, 'c) hexview \<Rightarrow> ('b, 's, 'c) hexview" where
  "setDocument doc v = v\<lparr>vw_document := doc, vw_selectedarea := HexArea, vw_cursorenabled := False\<rparr>"

definition setReadOnly :: "bool \<Rightarrow> ('b, 's, 'c) hexview \<Rightarrow> ('b, 's, 'c) hexview" where
  "setReadOnly b v = on_cursor (setInsertionMode OverwriteMode) (v\<lparr>vw_readonly := b\<rparr>)"

definition view_blinkCursor :: "('b, 's, 'c) hexview \<Rightarrow> ('b, 's, 'c) hexview" where
  "view_blinkCursor v = v\<lparr>vw_cursorenabled := \<not> vw_cursorenabled v\<rparr>"

definition focusInEvent :: "('b, 's, 'c) hexview \<Rightarrow> ('b, 's, 'c) hexview" where
  "focusInEvent v = v\<lparr>vw_cursorenabled := True, vw_blinking := True\<rparr>"

definition focusOutEvent :: "('b, 's, 'c) hexview \<Rightarrow> ('b, 's, 'c) hexview" where
  "focusOutEvent v = v\<lparr>vw_blinking := False, vw_cursorenabled := False\<rparr>"

section \<open>Moving by a cell\<close>

definition view_goto :: "bool \<Rightarrow> u64 \<Rightarrow> cint \<Rightarrow> cint \<Rightarrow> ('b, 's, 'c) hexview \<Rightarrow> ('b, 's, 'c) hexview" where
  "view_goto select line column nibble v =
     on_cursor (if select then cursor_select line column nibble else moveTo line column nibble) v"

text \<open>The test for the last cell reads the last line only when the cursor is there.\<close>

definition lastcell :: "('b, 's) view_env \<Rightarrow> ('b, 's, 'c) hexview \<Rightarrow> (bool \<times> ('b, 's, 'c) hexview) option" where
  "lastcell env v = do {
     lastLine \<leftarrow> documentLastLine (ve_ops env) (vw_document v);
     if ps_line (cu_position (vcursor v)) \<ge> lastLine then do {
       (lastColumn, doc) \<leftarrow> documentLastColumn (ve_ops env) (vw_document v);
       Some (sint (ps_column (cu_position (vcursor v))) \<ge> sint lastColumn, v\<lparr>vw_document := doc\<rparr>)
     } else Some (False, v)
   }"

text \<open>The next column and nibble, and the wrap to the next line; the same backwards.\<close>

definition cell_right :: "bool \<Rightarrow> cint \<Rightarrow> cint \<Rightarrow> cint \<times> cint" where
  "cell_right hex column nibble =
     (if hex then let nibble = word_of_int (sint (nibble + 1) smod 2) in (if nibble \<noteq> 0 then column + 1 else column, nibble)
      else (column + 1, 1))"

definition wrap_right :: "cint \<Rightarrow> u64 \<Rightarrow> u64 \<Rightarrow> cint \<times> cint \<Rightarrow> u64 \<times> cint \<times> cint" where
  "wrap_right width lastLine line cell =
     (if sint (fst cell) > sint (width - 1) then (min lastLine (line + 1), 0, 1) else (line, cell))"

definition cell_left :: "bool \<Rightarrow> cint \<Rightarrow> cint \<Rightarrow> cint \<times> cint" where
  "cell_left hex column nibble =
     (if hex then let nibble = word_of_int (sint (nibble - 1) smod 2) in (if nibble = 0 then column - 1 else column, nibble)
      else (column - 1, 1))"

definition wrap_left :: "cint \<Rightarrow> u64 \<Rightarrow> cint \<times> cint \<Rightarrow> u64 \<times> cint \<times> cint" where
  "wrap_left width line cell = (if sint (fst cell) < 0 then (max 0 (line - 1), width - 1, 0) else (line, cell))"

definition moveNext :: "('b, 's) view_env \<Rightarrow> bool \<Rightarrow> ('b, 's, 'c) hexview \<Rightarrow> ('b, 's, 'c) hexview option" where
  "moveNext env select v = do {
     let line = ps_line (cu_position (vcursor v));
     let column = ps_column (cu_position (vcursor v));
     (isLast, v) \<leftarrow> lastcell env v;
     let nibble = ps_nibbleindex (cu_position (vcursor v));
     let hex = (vw_selectedarea v = HexArea);
     if vw_selectedarea v = AsciiArea \<and> isLast then Some v
     else if hex \<and> isLast \<and> nibble = 0 then Some v
     else if hex \<and> sint (pos_offset (cu_position (vcursor v))) \<ge> sint (ho_length (ve_ops env) (doc_buffer (vw_document v))) \<and> nibble \<noteq> 0
     then Some v
     else do {
       let width = hexLineWidth (vw_document v);
       lastLine \<leftarrow> documentLastLine (ve_ops env) (vw_document v);
       let (line, column, nibble) = wrap_right width lastLine line (cell_right hex column nibble);
       Some (view_goto select line (smin (width - 1) column) nibble v)
     }
   }"

definition movePrevious :: "bool \<Rightarrow> ('b, 's, 'c) hexview \<Rightarrow> ('b, 's, 'c) hexview" where
  "movePrevious select v =
     (let line = ps_line (cu_position (vcursor v)); column = ps_column (cu_position (vcursor v));
          firstcell = (line = 0 \<and> column = 0); nibble = ps_nibbleindex (cu_position (vcursor v));
          hex = (vw_selectedarea v = HexArea)
      in if vw_selectedarea v = AsciiArea \<and> firstcell then v
         else if hex \<and> firstcell \<and> nibble \<noteq> 0 then v
         else let (line, column, nibble) = wrap_left (hexLineWidth (vw_document v)) line (cell_left hex column nibble)
              in view_goto select line (if sint column > 0 then column else 0) nibble v)"

section \<open>The number of visible lines\<close>

text \<open>The division of two \<open>int\<close>s is done before \<open>ceil\<close>, which changes nothing.\<close>

definition visibleLines :: "('b, 's) view_env \<Rightarrow> ('b, 's, 'c) hexview \<Rightarrow> u64 option" where
  "visibleLines env v =
     (if ft_lineHeight (ve_font env) = 0 then None
      else do {
        docLines \<leftarrow> documentLines (ve_ops env) (vw_document v);
        let visLines = word_of_int (sint (ve_height env) sdiv sint (ft_lineHeight (ve_font env))) - headerLineCount;
        Some (min (scast visLines) docLines)
      })"

section \<open>Keys that move\<close>

text \<open>The result says whether the key was handled.\<close>

definition handled :: "('b, 's, 'c) hexview \<Rightarrow> (bool \<times> ('b, 's, 'c) hexview) option" where
  "handled v = Some (True, v)"

definition next_line :: "('b, 's) view_env \<Rightarrow> bool \<Rightarrow> ('b, 's, 'c) hexview \<Rightarrow> (bool \<times> ('b, 's, 'c) hexview) option" where
  "next_line env select v = do {
     let p = cu_position (vcursor v);
     lastLine \<leftarrow> documentLastLine (ve_ops env) (vw_document v);
     if lastLine = ps_line p then handled v
     else let nextline = ucast (ps_line p + 1) :: cint in handled (view_goto select (scast nextline) (ps_column p) 1 v)
   }"

definition previous_line :: "bool \<Rightarrow> ('b, 's, 'c) hexview \<Rightarrow> (bool \<times> ('b, 's, 'c) hexview) option" where
  "previous_line select v =
     (let p = cu_position (vcursor v) in
      if ps_line p = 0 then handled v else handled (view_goto select (ps_line p - 1) (ps_column p) 1 v))"

definition next_page :: "('b, 's) view_env \<Rightarrow> bool \<Rightarrow> ('b, 's, 'c) hexview \<Rightarrow> (bool \<times> ('b, 's, 'c) hexview) option" where
  "next_page env select v = do {
     let p = cu_position (vcursor v);
     lastLine \<leftarrow> documentLastLine (ve_ops env) (vw_document v);
     if lastLine = ps_line p then handled v
     else do {
       visible \<leftarrow> visibleLines env v;
       let pageline = (ucast (min lastLine (ps_line p + visible)) :: cint);
       handled (view_goto select (scast pageline) (ps_column p) 1 v)
     }
   }"

text \<open>\<open>std::max( quint64( 0 ), line - visible )\<close> is the unsigned difference.\<close>

definition previous_page :: "('b, 's) view_env \<Rightarrow> bool \<Rightarrow> ('b, 's, 'c) hexview \<Rightarrow> (bool \<times> ('b, 's, 'c) hexview) option" where
  "previous_page env select v =
     (let p = cu_position (vcursor v) in
      if ps_line p = 0 then handled v
      else do {
        visible \<leftarrow> visibleLines env v;
        handled (view_goto select (max 0 (ps_line p - visible)) (ps_column p) 1 v)
      })"

definition start_of_document :: "bool \<Rightarrow> ('b, 's, 'c) hexview \<Rightarrow> (bool \<times> ('b, 's, 'c) hexview) option" where
  "start_of_document select v =
     (if ps_line (cu_position (vcursor v)) = 0 then handled v else handled (view_goto select 0 0 1 v))"

definition goto_last :: "('b, 's) view_env \<Rightarrow> bool \<Rightarrow> u64 \<Rightarrow> cint \<Rightarrow> ('b, 's, 'c) hexview \<Rightarrow> (bool \<times> ('b, 's, 'c) hexview) option" where
  "goto_last env select line back v = do {
     (lastColumn, doc) \<leftarrow> documentLastColumn (ve_ops env) (vw_document v);
     handled (view_goto select line (lastColumn - back) 1 (v\<lparr>vw_document := doc\<rparr>))
   }"

definition end_of_document :: "('b, 's) view_env \<Rightarrow> bool \<Rightarrow> ('b, 's, 'c) hexview \<Rightarrow> (bool \<times> ('b, 's, 'c) hexview) option" where
  "end_of_document env select v = do {
     lastLine \<leftarrow> documentLastLine (ve_ops env) (vw_document v);
     if lastLine = ps_line (cu_position (vcursor v)) then handled v else goto_last env select lastLine 0 v
   }"

definition start_of_line :: "bool \<Rightarrow> ('b, 's, 'c) hexview \<Rightarrow> (bool \<times> ('b, 's, 'c) hexview) option" where
  "start_of_line select v = handled (view_goto select (ps_line (cu_position (vcursor v))) 0 1 v)"

definition end_of_line :: "('b, 's) view_env \<Rightarrow> bool \<Rightarrow> ('b, 's, 'c) hexview \<Rightarrow> (bool \<times> ('b, 's, 'c) hexview) option" where
  "end_of_line env select v = do {
     let line = ps_line (cu_position (vcursor v));
     lastLine \<leftarrow> documentLastLine (ve_ops env) (vw_document v);
     if line = lastLine then goto_last env select line 0 v
     else handled (view_goto select line (hexLineWidth (vw_document v) - 1) 0 v)
   }"

text \<open>Of two sequences that match, the tests differ in which decides between moving and selecting.\<close>

definition processMove :: "('b, 's) view_env \<Rightarrow> key_event \<Rightarrow> ('b, 's, 'c) hexview \<Rightarrow> (bool \<times> ('b, 's, 'c) hexview) option" where
  "processMove env e v =
     (let m = ke_matches e in
      if m MoveToNextChar \<or> m SelectNextChar then map_option (Pair True) (moveNext env (m SelectNextChar) v)
      else if m MoveToPreviousChar \<or> m SelectPreviousChar then handled (movePrevious (m SelectPreviousChar) v)
      else if m MoveToNextLine \<or> m SelectNextLine then next_line env (\<not> m MoveToNextLine) v
      else if m MoveToPreviousLine \<or> m SelectPreviousLine then previous_line (\<not> m MoveToPreviousLine) v
      else if m MoveToNextPage \<or> m SelectNextPage then next_page env (\<not> m MoveToNextPage) v
      else if m MoveToPreviousPage \<or> m SelectPreviousPage then previous_page env (\<not> m MoveToPreviousPage) v
      else if m MoveToStartOfDocument \<or> m SelectStartOfDocument then start_of_document (\<not> m MoveToStartOfDocument) v
      else if m MoveToEndOfDocument \<or> m SelectEndOfDocument then end_of_document env (\<not> m MoveToEndOfDocument) v
      else if m MoveToStartOfLine \<or> m SelectStartOfLine then start_of_line (\<not> m MoveToStartOfLine) v
      else if m MoveToEndOfLine \<or> m SelectEndOfLine then end_of_line env (\<not> m MoveToEndOfLine) v
      else Some (False, v))"

section \<open>Keys that edit\<close>

definition select_all :: "('b, 's) view_env \<Rightarrow> ('b, 's, 'c) hexview \<Rightarrow> (bool \<times> ('b, 's, 'c) hexview) option" where
  "select_all env v = do {
     let v = view_goto False 0 0 1 v;
     lastLine \<leftarrow> documentLastLine (ve_ops env) (vw_document v);
     goto_last env True lastLine 1 v
   }"

text \<open>\<open>cut\<close> and \<open>copy\<close> set the clipboard when there is a selection.\<close>

definition set_clipboard :: "byte list option \<times> ('b, 's, 'c) qhexdocument \<Rightarrow> ('b, 's, 'c) hexview \<Rightarrow> ('b, 's, 'c) hexview" where
  "set_clipboard r v = v\<lparr>vw_document := snd r, vw_clipboard := (case fst r of None \<Rightarrow> vw_clipboard v | Some text \<Rightarrow> text)\<rparr>"

definition delete_key :: "('b, 's) view_env \<Rightarrow> bool \<Rightarrow> ('b, 's, 'c) hexview \<Rightarrow> (bool \<times> ('b, 's, 'c) hexview) option" where
  "delete_key env backspace v =
     (let off = pos_offset (cu_position (vcursor v)); ops = ve_ops env; us = ve_undo env in
      if \<not> hasSelection (vcursor v) \<and> sint off \<le> 0 then handled v
      else let v = (if \<not> hasSelection (vcursor v)
          then (if backspace then on_document (doc_remove ops us (off - 1) 1) v else on_document (doc_remove ops us off 1) v)
          else let oldpos = selectionStart (vcursor v); v = on_document (removeSelection ops us) v
            in view_goto False (ps_line oldpos) (ps_column oldpos + 1) 1 v)
        in if backspace
           then handled (movePrevious False (if vw_selectedarea v = HexArea then movePrevious False v else v))
           else handled v)"

definition processAction :: "('b, 's) view_env \<Rightarrow> key_event \<Rightarrow> ('b, 's, 'c) hexview \<Rightarrow> (bool \<times> ('b, 's, 'c) hexview) option" where
  "processAction env e v =
     (let m = ke_matches e; ops = ve_ops env; us = ve_undo env; qt = ve_qt env; hex = (vw_selectedarea v = HexArea) in
      if vw_readonly v then Some (False, v)
      else if ke_modified e then
        (if m SelectAll then select_all env v
         else if m Undo then handled (on_document (doc_undo ops us) v)
         else if m Redo then handled (on_document (doc_redo ops us) v)
         else if m Cut then handled (set_clipboard (doc_cut qt ops us hex (vw_document v)) v)
         else if m Copy then handled (set_clipboard (doc_copy qt ops hex (vw_document v)) v)
         else if m Paste then handled (on_document (doc_paste qt ops us (vw_clipboard v) hex) v)
         else Some (False, v))
      else if ke_key e = Key_Backspace \<or> ke_key e = Key_Delete then delete_key env (ke_key e = Key_Backspace) v
      else if ke_key e = Key_Insert then handled (on_cursor switchInsertionMode v)
      else Some (False, v))"

text \<open>\<open>QHexDocument::at\<close> takes an \<open>int\<close>.\<close>

definition doc_at :: "'b hex_ops \<Rightarrow> cint \<Rightarrow> ('b, 's, 'c) qhexdocument \<Rightarrow> (byte \<times> ('b, 's, 'c) qhexdocument) option" where
  "doc_at ops off doc = map_option (apsnd (\<lambda>b. doc\<lparr>doc_buffer := b\<rparr>)) (ho_at ops (scast off) (doc_buffer doc))"

definition insert_byte :: "'b hex_ops \<Rightarrow> 's undo_ops \<Rightarrow> qint64 \<Rightarrow> byte \<Rightarrow> ('b, 's, 'c) qhexdocument \<Rightarrow> ('b, 's, 'c) qhexdocument" where
  "insert_byte ops us off b doc = doc_insert ops us off [b] doc"

definition replace_byte :: "'b hex_ops \<Rightarrow> 's undo_ops \<Rightarrow> qint64 \<Rightarrow> byte \<Rightarrow> ('b, 's, 'c) qhexdocument \<Rightarrow> ('b, 's, 'c) qhexdocument" where
  "replace_byte ops us off b doc = doc_replace ops us off [b] doc"

definition hex_input :: "('b, 's) view_env \<Rightarrow> byte \<Rightarrow> ('b, 's, 'c) hexview \<Rightarrow> ('b, 's, 'c) hexview option" where
  "hex_input env key v = do {
     let val = ve_hexval env key;
     let ops = ve_ops env;
     let us = ve_undo env;
     let v = on_document (removeSelection ops us) v;
     let off = pos_offset (cu_position (vcursor v));
     let nibble = ps_nibbleindex (cu_position (vcursor v));
     if doc_atEnd ops (vw_document v) \<or> nibble \<noteq> 0 \<and> cu_insertionmode (vcursor v) = InsertMode
     then moveNext env False (on_document (insert_byte ops us off (push_bit 4 val)) v)
     else do {
       (ch, doc) \<leftarrow> doc_at ops (ucast off) (vw_document v);
       let val = (if nibble \<noteq> 0 then (ch AND 0x0F) OR push_bit 4 val else (ch AND 0xF0) OR val);
       moveNext env False (on_document (replace_byte ops us off val) (v\<lparr>vw_document := doc\<rparr>))
     }
   }"

definition ascii_input :: "('b, 's) view_env \<Rightarrow> byte \<Rightarrow> ('b, 's, 'c) hexview \<Rightarrow> ('b, 's, 'c) hexview" where
  "ascii_input env key v =
     (let ops = ve_ops env; us = ve_undo env; v = on_document (removeSelection ops us) v;
          off = pos_offset (cu_position (vcursor v))
      in if \<not> doc_atEnd ops (vw_document v) \<and> cu_insertionmode (vcursor v) = OverwriteMode
         then on_document (replace_byte ops us off key) v
         else on_document (insert_byte ops us off key) v)"

text \<open>The result says whether the key was handled, and whether a press of the right arrow is sent to the widget.\<close>

definition processTextInput :: "('b, 's) view_env \<Rightarrow> key_event \<Rightarrow> ('b, 's, 'c) hexview \<Rightarrow> ((bool \<times> bool) \<times> ('b, 's, 'c) hexview) option" where
  "processTextInput env e v =
     (let key = ke_char e in
      if vw_readonly v \<or> ke_control e then Some ((False, False), v)
      else if vw_selectedarea v = HexArea then
        (if \<not> (0x30 \<le> key \<and> key \<le> 0x39 \<or> 0x61 \<le> key \<and> key \<le> 0x66) then Some ((False, False), v)
         else map_option (Pair (True, False)) (hex_input env key v))
      else if vw_selectedarea v = AsciiArea then
        (if \<not> (0x20 \<le> key \<and> key \<le> 0x7E) then Some ((False, False), v)
         else Some ((True, True), ascii_input env key v))
      else Some ((False, False), v))"

text \<open>A sent event is handled at once, before the timer is started again.\<close>

partial_function (option) keyPressEvent ::
    "('b, 's) view_env \<Rightarrow> key_event \<Rightarrow> ('b, 's, 'c) hexview \<Rightarrow> ('b, 's, 'c) hexview option" where
  "keyPressEvent env e v = do {
     let v = v\<lparr>vw_blinking := False, vw_cursorenabled := True\<rparr>;
     (done1, v) \<leftarrow> processMove env e v;
     (done2, v) \<leftarrow> (if done1 then Some (True, v) else processAction env e v);
     ((done3, send), v) \<leftarrow> (if done2 then Some ((True, False), v) else processTextInput env e v);
     v \<leftarrow> (if send then keyPressEvent env (ve_key_right env) v else Some v);
     Some (v\<lparr>vw_blinking := True\<rparr>)
   }"

section \<open>The mouse\<close>

datatype buttons = NoButton | LeftButton | OtherButtons

definition absolutePosition :: "cint \<Rightarrow> cint \<times> cint \<Rightarrow> cint \<times> cint" where
  "absolutePosition hscroll pos = (fst pos + hscroll, snd pos)"

definition selectArea :: "('b, 's) view_env \<Rightarrow> cint \<times> cint \<Rightarrow> ('b, 's, 'c) hexview \<Rightarrow> ('b, 's, 'c) hexview" where
  "selectArea env pt v =
     (let area = hitTestArea (ve_font env) (ve_ops env) pt (vw_document v)
      in if editableArea area then v\<lparr>vw_selectedarea := area\<rparr> else v)"

text \<open>\<open>pos\<close> is the point in the widget, \<open>hscroll\<close> the horizontal scroll bar's value, \<open>first\<close> the first visible line.\<close>

definition mousePressEvent ::
    "('b, 's) view_env \<Rightarrow> buttons \<Rightarrow> cint \<Rightarrow> u64 \<Rightarrow> cint \<times> cint \<Rightarrow> ('b, 's, 'c) hexview \<Rightarrow> ('b, 's, 'c) hexview option" where
  "mousePressEvent env buttons hscroll first pos v =
     (if buttons \<noteq> LeftButton then Some v
      else do {
        let abspos = absolutePosition hscroll pos;
        (hit, doc) \<leftarrow> hitTest (ve_font env) (ve_ops env) abspos first (vw_document v);
        let v = v\<lparr>vw_document := doc\<rparr>;
        case hit of
          None \<Rightarrow> Some v
        | Some position \<Rightarrow>
            let v = selectArea env abspos v
            in Some (if editableArea (vw_selectedarea v) then on_cursor (moveTo_pos position) v else v)
      })"

definition mouseMoveEvent ::
    "('b, 's) view_env \<Rightarrow> buttons \<Rightarrow> cint \<Rightarrow> u64 \<Rightarrow> cint \<times> cint \<Rightarrow> ('b, 's, 'c) hexview \<Rightarrow> ('b, 's, 'c) hexview option" where
  "mouseMoveEvent env buttons hscroll first pos v =
     (let abspos = absolutePosition hscroll pos in
      if buttons = LeftButton then do {
        let v = (if vw_blinking v then v\<lparr>vw_blinking := False, vw_cursorenabled := False\<rparr> else v);
        (hit, doc) \<leftarrow> hitTest (ve_font env) (ve_ops env) abspos first (vw_document v);
        let v = v\<lparr>vw_document := doc\<rparr>;
        case hit of
          None \<Rightarrow> Some v
        | Some position \<Rightarrow> Some (on_cursor (cursor_select (ps_line position) (ps_column position) 0) v)
      }
      else if buttons \<noteq> NoButton then Some v
      else Some (v\<lparr>vw_ibeam := editableArea (hitTestArea (ve_font env) (ve_ops env) abspos (vw_document v))\<rparr>))"

definition mouseReleaseEvent :: "bool \<Rightarrow> ('b, 's, 'c) hexview \<Rightarrow> ('b, 's, 'c) hexview" where
  "mouseReleaseEvent left v = (if \<not> left then v else v\<lparr>vw_blinking := True\<rparr>)"

text \<open>The comment shown for a point; nothing is shown for an empty one.\<close>

definition tooltip ::
    "('b, 's) view_env \<Rightarrow> cint \<Rightarrow> u64 \<Rightarrow> cint \<times> cint \<Rightarrow> ('b, 's, 'c) hexview \<Rightarrow> (string option \<times> ('b, 's, 'c) hexview) option" where
  "tooltip env hscroll first pos v = do {
     (hit, doc) \<leftarrow> hitTest (ve_font env) (ve_ops env) (absolutePosition hscroll pos) first (vw_document v);
     let v = v\<lparr>vw_document := doc\<rparr>;
     case hit of
       None \<Rightarrow> Some (None, v)
     | Some position \<Rightarrow> do {
         text \<leftarrow> comments (doc_metadata doc) (ps_line position) (ps_column position);
         Some (if text = [] then None else Some text, v)
       }
   }"

section \<open>Views in order\<close>

text \<open>
  The cursor's two positions stand in the document or at its end, both widths agree, and the nibble is
  one that the moves produce.
\<close>

definition in_document :: "(byte list, 's, 'c) hexview \<Rightarrow> bool" where
  "in_document v \<longleftrightarrow> cursor_ok (vcursor v) \<and> cu_lineWidth (vcursor v) = doc_hexlinewidth (vw_document v) \<and>
     0 < doc_hexlinewidth (vw_document v) \<and> length (doc_buffer (vw_document v)) + 1 < 2 ^ 24 \<and>
     at_offset (cu_position (vcursor v)) \<le> length (doc_buffer (vw_document v)) \<and>
     at_offset (cu_selection (vcursor v)) \<le> length (doc_buffer (vw_document v)) \<and>
     ps_nibbleindex (cu_position (vcursor v)) \<in> {- 1, 0, 1} \<and> editableArea (vw_selectedarea v)"

definition view_offset :: "('b, 's, 'c) hexview \<Rightarrow> nat" where "view_offset v = at_offset (cu_position (vcursor v))"

definition view_bytes :: "(byte list, 's, 'c) hexview \<Rightarrow> byte list" where "view_bytes v = doc_buffer (vw_document v)"

definition view_width :: "('b, 's, 'c) hexview \<Rightarrow> nat" where "view_width v = unat (doc_hexlinewidth (vw_document v))"

lemma pos_cells:
  assumes "pos_ok w p"
  shows "ps_line p = of_nat (at_offset p div unat w)" "ps_column p = of_nat (at_offset p mod unat w)"
proof -
  have c: "unat (ps_column p) < unat w" "ps_lineWidth p = w" using assms by (simp_all add: pos_ok_def)
  then have "at_offset p div unat w = unat (ps_line p)" "at_offset p mod unat w = unat (ps_column p)"
    by (simp_all add: at_offset_def)
  then show "ps_line p = of_nat (at_offset p div unat w)" "ps_column p = of_nat (at_offset p mod unat w)" by simp_all
qed

lemma set_cells:
  assumes "o' < 2 ^ 63" "0 < w" "ps_lineWidth p = w"
  shows "pos_ok w (set_pos (of_nat (o' div unat w)) (of_nat (o' mod unat w)) nib p)"
    "at_offset (set_pos (of_nat (o' div unat w)) (of_nat (o' mod unat w)) nib p) = o'"
proof -
  have w: "0 < unat w" "unat w < 256" using assms(2) unat_u8 by (simp_all add: word_less_nat_alt)
  have "o' div unat w < 2 ^ 64" by (rule div_below) (use assms(1) in simp)
  then have l: "unat (of_nat (o' div unat w) :: u64) = o' div unat w" by (rule unat_of_nat_u64)
  have m: "o' mod unat w < unat w" using w(1) by simp
  then have c: "unat (of_nat (o' mod unat w) :: cint) = o' mod unat w" using w(2) by (intro unat_of_nat_cint) simp
  show "at_offset (set_pos (of_nat (o' div unat w)) (of_nat (o' mod unat w)) nib p) = o'"
    using l c assms(3) by (simp add: at_offset_def set_pos_def)
  then show "pos_ok w (set_pos (of_nat (o' div unat w)) (of_nat (o' mod unat w)) nib p)"
    using l c m assms(1,3) by (simp add: pos_ok_def set_pos_def)
qed

text \<open>Going to a cell in the document.\<close>

definition goto_cell :: "bool \<Rightarrow> nat \<Rightarrow> cint \<Rightarrow> ('b, 's, 'c) hexview \<Rightarrow> ('b, 's, 'c) hexview" where
  "goto_cell select o' nib v = view_goto select (of_nat (o' div view_width v)) (of_nat (o' mod view_width v)) nib v"

lemma goto_keeps [simp]:
  "doc_buffer (vw_document (view_goto select l col nib v)) = doc_buffer (vw_document v)"
  "doc_hexlinewidth (vw_document (view_goto select l col nib v)) = doc_hexlinewidth (vw_document v)"
  "vw_selectedarea (view_goto select l col nib v) = vw_selectedarea v"
  "vw_readonly (view_goto select l col nib v) = vw_readonly v"
  "vw_clipboard (view_goto select l col nib v) = vw_clipboard v"
  "view_bytes (view_goto select l col nib v) = view_bytes v"
  "view_width (view_goto select l col nib v) = view_width v"
  by (simp_all add: view_goto_def on_cursor_def on_document_def view_bytes_def view_width_def)

lemma goto_cursor:
  "cu_position (vcursor (view_goto select l col nib v)) = set_pos l col nib (cu_position (vcursor v))"
  "cu_selection (vcursor (view_goto select l col nib v)) =
     (if select then cu_selection (vcursor v) else set_pos l col nib (cu_selection (vcursor v)))"
  "cu_lineWidth (vcursor (view_goto select l col nib v)) = cu_lineWidth (vcursor v)"
  "cu_insertionmode (vcursor (view_goto select l col nib v)) = cu_insertionmode (vcursor v)"
  by (simp_all add: view_goto_def on_cursor_def on_document_def vcursor_def cursor_select_def moveTo_def)

lemma goto_in_document:
  assumes "in_document v" "o' \<le> length (view_bytes v)" "nib \<in> {- 1, 0, 1}"
  shows "in_document (goto_cell select o' nib v)" "view_offset (goto_cell select o' nib v) = o'"
    "ps_nibbleindex (cu_position (vcursor (goto_cell select o' nib v))) = nib"
    "at_offset (cu_selection (vcursor (goto_cell select o' nib v))) =
       (if select then at_offset (cu_selection (vcursor v)) else o')"
proof -
  let ?w = "doc_hexlinewidth (vw_document v)"
  have v: "pos_ok ?w (cu_position (vcursor v))" "pos_ok ?w (cu_selection (vcursor v))" "cu_lineWidth (vcursor v) = ?w" "0 < ?w"
    "length (view_bytes v) + 1 < 2 ^ 24" "at_offset (cu_selection (vcursor v)) \<le> length (view_bytes v)"
    "editableArea (vw_selectedarea v)"
    using assms(1) by (auto simp: in_document_def cursor_ok_def view_bytes_def)
  have "o' < 2 ^ 63" using assms(2) v(5) by simp
  moreover have "ps_lineWidth (cu_position (vcursor v)) = ?w" "ps_lineWidth (cu_selection (vcursor v)) = ?w"
    using v(1,2) by (simp_all add: pos_ok_def)
  ultimately have s: "pos_ok ?w (set_pos (of_nat (o' div unat ?w)) (of_nat (o' mod unat ?w)) nib (cu_position (vcursor v)))"
    "at_offset (set_pos (of_nat (o' div unat ?w)) (of_nat (o' mod unat ?w)) nib (cu_position (vcursor v))) = o'"
    "pos_ok ?w (set_pos (of_nat (o' div unat ?w)) (of_nat (o' mod unat ?w)) nib (cu_selection (vcursor v)))"
    "at_offset (set_pos (of_nat (o' div unat ?w)) (of_nat (o' mod unat ?w)) nib (cu_selection (vcursor v))) = o'"
    using set_cells [OF _ v(4)] by blast+
  show "view_offset (goto_cell select o' nib v) = o'"
    by (simp add: view_offset_def goto_cell_def goto_cursor view_width_def s)
  show "at_offset (cu_selection (vcursor (goto_cell select o' nib v))) = (if select then at_offset (cu_selection (vcursor v)) else o')"
    by (simp add: goto_cell_def goto_cursor view_width_def s)
  show "ps_nibbleindex (cu_position (vcursor (goto_cell select o' nib v))) = nib"
    by (simp add: goto_cell_def goto_cursor set_pos_def)
  show "in_document (goto_cell select o' nib v)"
    using s v assms(2,3)
    by (simp add: in_document_def cursor_ok_def goto_cell_def goto_cursor view_width_def view_bytes_def) (simp_all add: set_pos_def goto_cell_def)
qed

lemma view_cells:
  assumes "in_document v"
  shows "ps_line (cu_position (vcursor v)) = of_nat (view_offset v div view_width v)"
    "ps_column (cu_position (vcursor v)) = of_nat (view_offset v mod view_width v)"
    "pos_offset (cu_position (vcursor v)) = of_nat (view_offset v)"
    "0 < view_width v" "view_width v < 256" "view_offset v \<le> length (view_bytes v)" "length (view_bytes v) + 1 < 2 ^ 24"
    "hexLineWidth (vw_document v) = of_nat (view_width v)"
    "view_offset v mod view_width v < view_width v"
    "sint (pos_offset (cu_position (vcursor v))) = int (view_offset v)"
    "unat (pos_offset (cu_position (vcursor v))) = view_offset v"
proof -
  have v: "pos_ok (doc_hexlinewidth (vw_document v)) (cu_position (vcursor v))"
    using assms by (auto simp: in_document_def cursor_ok_def)
  show "ps_line (cu_position (vcursor v)) = of_nat (view_offset v div view_width v)"
    "ps_column (cu_position (vcursor v)) = of_nat (view_offset v mod view_width v)"
    using pos_cells [OF v] by (simp_all add: view_offset_def view_width_def)
  show "pos_offset (cu_position (vcursor v)) = of_nat (view_offset v)" "unat (pos_offset (cu_position (vcursor v))) = view_offset v"
    "sint (pos_offset (cu_position (vcursor v))) = int (view_offset v)"
    using pos_offset_nat [OF v] by (simp_all add: view_offset_def)
  show "hexLineWidth (vw_document v) = of_nat (view_width v)" by (simp add: width_cint view_width_def)
qed (use assms unat_u8 in \<open>auto simp: in_document_def cursor_ok_def view_width_def view_bytes_def view_offset_def word_less_nat_alt\<close>)

text \<open>The next and the previous nibble in C's remainder.\<close>

lemma cell_right_simps:
  "cell_right True c 1 = (c, 0)" "cell_right True c (- 1) = (c, 0)" "cell_right True c 0 = (c + 1, 1)"
  "cell_right False c n = (c + 1, 1)"
  by (simp_all add: cell_right_def signed_modulo_int_def sgn_if)

lemma cell_left_simps:
  "cell_left True c 1 = (c - 1, 0)" "cell_left True c (- 1) = (c - 1, 0)" "cell_left True c 0 = (c, - 1)"
  "cell_left False c n = (c - 1, 1)"
  by (simp_all add: cell_left_def signed_modulo_int_def sgn_if)

lemma width_minus: "0 < w \<Longrightarrow> of_nat w - 1 = (of_nat (w - 1) :: cint)"
  by (simp add: of_nat_diff)

lemma width_sints:
  assumes "c < w" "w < 256"
  shows "sint (of_nat w - 1 :: cint) = int (w - 1)" "sint (of_nat c :: cint) = int c" "sint (of_nat w :: cint) = int w"
proof -
  have "w - 1 < 2 ^ 31" "c < 2 ^ 31" "w < 2 ^ 31" "0 < w" using assms by simp_all
  then show "sint (of_nat w - 1 :: cint) = int (w - 1)" "sint (of_nat c :: cint) = int c" "sint (of_nat w :: cint) = int w"
    by (simp_all only: width_minus sint_of_nat_cint)
qed

lemma smin_column:
  assumes "c < w" "w < 256"
  shows "smin (of_nat w - 1) (of_nat c) = of_nat c"
proof (cases "c = w - 1")
  case True
  then show ?thesis using width_minus [of w] assms(1) by (simp add: smin_def)
next
  case False
  then have "c < w - 1" using assms(1) by linarith
  then have "sint (of_nat c :: cint) < sint (of_nat w - 1 :: cint)"
    unfolding width_sints [OF assms] by (simp only: of_nat_less_iff)
  then show ?thesis by (simp add: smin_def)
qed

lemma wrap_right_same:
  assumes "c < w" "w < 256"
  shows "wrap_right (of_nat w) l line (of_nat c, nib) = (line, of_nat c, nib)"
  unfolding wrap_right_def fst_conv width_sints [OF assms] using assms(1) by simp

lemma cell_div: "k < w \<Longrightarrow> (k + q * w) div w = q \<and> (k + q * w) mod w = k" for k w q :: nat
  by simp

lemma next_cell:
  fixes o' w :: nat
  assumes "0 < w" "o' mod w + 1 \<le> w - 1 \<or> o' mod w = w - 1"
  shows "if o' mod w + 1 \<le> w - 1 then (o' + 1) div w = o' div w \<and> (o' + 1) mod w = o' mod w + 1
    else (o' + 1) div w = o' div w + 1 \<and> (o' + 1) mod w = 0"
proof -
  have o: "o' mod w + 1 + o' div w * w = o' + 1" by simp
  show ?thesis
  proof (cases "o' mod w + 1 \<le> w - 1")
    case True
    then have "o' mod w + 1 < w" using assms(1) by linarith
    from cell_div [OF this, of "o' div w"] show ?thesis using True unfolding o by simp
  next
    case False
    then have "o' mod w + 1 = w" using assms by linarith
    then have "o' + 1 = (o' div w + 1) * w" using o by simp
    then show ?thesis using False assms(1) by (simp only: if_False div_mult_self_is_m mod_mult_self2_is_0)
  qed
qed

lemma wrap_right_next:
  assumes "0 < w" "w < 256" "o' < n" "n < 2 ^ 24"
  shows "wrap_right (of_nat w) (of_nat (n div w)) (of_nat (o' div w)) (of_nat (o' mod w) + 1, 1) =
    (of_nat ((o' + 1) div w), of_nat ((o' + 1) mod w), 1)"
proof -
  have m: "o' mod w < w" using assms(1) by simp
  then have "o' mod w + 1 \<le> w - 1 \<or> o' mod w = w - 1" by linarith
  note nc = next_cell [OF assms(1) this]
  show ?thesis
  proof (cases "o' mod w + 1 \<le> w - 1")
    case True
    then have lt: "o' mod w + 1 < w" using assms(1) by linarith
    have e: "of_nat (o' mod w) + 1 = (of_nat (o' mod w + 1) :: cint)" by simp
    show ?thesis unfolding e wrap_right_same [OF lt assms(2)] using nc True by simp
  next
    case False
    then have d: "(o' + 1) div w = o' div w + 1" "(o' + 1) mod w = 0" "o' mod w + 1 = w" using nc m by simp_all
    have "o' + 1 \<le> n" using assms(3) by simp
    then have le: "o' div w + 1 \<le> n div w" unfolding d(1) [symmetric] by (rule div_le_mono)
    have n: "n < 2 ^ 64" using assms(4) by simp
    note b = div_below [OF n, of w]
    then have "o' div w + 1 < 2 ^ 64" using le by linarith
    then have u: "unat (of_nat (o' div w + 1) :: u64) = o' div w + 1" "unat (of_nat (n div w) :: u64) = n div w"
      using unat_of_nat_u64 unat_of_nat_u64 [OF b] by blast+
    have mn: "min (of_nat (n div w)) (of_nat (o' div w) + 1) = (of_nat ((o' + 1) div w) :: u64)"
    proof -
      have "min (of_nat (n div w)) (of_nat (o' div w + 1)) = (of_nat (o' div w + 1) :: u64)"
        unfolding min_def word_le_nat_alt u using le by simp
      then show ?thesis by (simp only: d(1) of_nat_add of_nat_1)
    qed
    have "of_nat (o' mod w) + 1 = (of_nat (o' mod w + 1) :: cint)" by simp
    note e = this [unfolded d(3)]
    have "sint (of_nat w - 1 :: cint) < sint (of_nat w :: cint)"
      unfolding width_sints [OF m assms(2)] using assms(1) by simp
    then show ?thesis unfolding e by (simp add: wrap_right_def mn d(2) [unfolded Suc_eq_plus1 [symmetric]])
  qed
qed

locale memory_view =
  fixes env :: "(byte list, 's) view_env"
  assumes bytes: "qbytearray (ve_qt env)" and ops: "ve_ops env = memory_ops (ve_qt env)"
begin

lemma last_line:
  assumes "in_document v"
  shows "documentLastLine (ve_ops env) (vw_document v) = Some (of_nat (length (view_bytes v) div view_width v))"
    "documentLastColumn (ve_ops env) (vw_document v) = Some (of_nat (length (view_bytes v) mod view_width v), vw_document v)"
  using memory_lines(2) [of "vw_document v"] last_column(2) [OF bytes, of "vw_document v"] assms
  by (simp_all add: in_document_def view_bytes_def view_width_def ops)

lemma lastcell_eq:
  assumes "in_document v"
  shows "lastcell env v = Some (view_offset v = length (view_bytes v), v)"
proof -
  let ?n = "length (view_bytes v)" and ?w = "view_width v" and ?o = "view_offset v"
  note c = view_cells [OF assms]
  note v = c(4-7)
  have n: "?o < 2 ^ 64" "?n < 2 ^ 64" using v(3,4) by simp_all
  note s = div_below [OF n(1), of ?w] div_below [OF n(2), of ?w]
  have m: "?o mod ?w < ?w" "?n mod ?w < ?w" using v(1) by simp_all
  have m31: "?o mod ?w < 2 ^ 31" "?n mod ?w < 2 ^ 31"
    using less_trans [OF m(1), of "2 ^ 31"] less_trans [OF m(2), of "2 ^ 31"] v(2) by simp_all
  have ge: "(of_nat (?n div ?w) :: u64) \<le> of_nat (?o div ?w) \<longleftrightarrow> ?n div ?w \<le> ?o div ?w"
    unfolding word_le_nat_alt unat_of_nat_u64 [OF s(1)] unat_of_nat_u64 [OF s(2)] ..
  have sc: "sint (of_nat (?n mod ?w) :: cint) \<le> sint (of_nat (?o mod ?w) :: cint) \<longleftrightarrow> ?n mod ?w \<le> ?o mod ?w"
    unfolding sint_of_nat_cint [OF m31(1)] sint_of_nat_cint [OF m31(2)] by simp
  have "?n \<le> ?o div ?w * ?w + ?o mod ?w \<longleftrightarrow> ?n div ?w < ?o div ?w \<or> (?n div ?w = ?o div ?w \<and> ?n mod ?w \<le> ?o mod ?w)"
    by (rule nat_le_row [OF m(1)])
  moreover have "?o div ?w \<le> ?n div ?w" using v(3) by (rule div_le_mono)
  ultimately have eq: "?o = ?n \<longleftrightarrow> ?n div ?w \<le> ?o div ?w \<and> ?n mod ?w \<le> ?o mod ?w" using v(3) by auto
  have "v\<lparr>vw_document := vw_document v\<rparr> = v" by simp
  then show ?thesis unfolding lastcell_def last_line [OF assms] c(1,2)
    by (simp only: bind.bind_lunit prod.case ge sc eq split: if_split) auto
qed

lemma length_int:
  assumes "in_document v"
  shows "sint (ho_length (ve_ops env) (doc_buffer (vw_document v))) = int (length (view_bytes v))"
  using view_cells(7) [OF assms] sint_small [of "of_nat (length (view_bytes v)) :: u64"] unat_of_nat_u64 [of "length (view_bytes v)"]
  by (simp add: ops memory_ops_def mem_length_def view_bytes_def del: of_nat_unat)

lemma moveNext_hex:
  assumes "in_document v" "vw_selectedarea v = HexArea"
  shows "moveNext env select v = Some (if view_offset v = length (view_bytes v) then v
    else if ps_nibbleindex (cu_position (vcursor v)) = 0 then goto_cell select (view_offset v + 1) 1 v
    else goto_cell select (view_offset v) 0 v)"
proof -
  let ?n = "length (view_bytes v)" and ?w = "view_width v" and ?o = "view_offset v"
  let ?nib = "ps_nibbleindex (cu_position (vcursor v))"
  note c = view_cells [OF assms(1)] and l = last_line [OF assms(1)] and lc = lastcell_eq [OF assms(1)] and len = length_int [OF assms(1)]
  have nib: "?nib = 0 \<or> ?nib = 1 \<or> ?nib = - 1" using assms(1) by (auto simp: in_document_def)
  show ?thesis
  proof (cases "?o = ?n")
    case True
    then show ?thesis using nib len c(10) by (auto simp: moveNext_def lc assms(2))
  next
    case False
    then have lt: "?o < ?n" using c(6) by linarith
    have n: "?n < 2 ^ 24" using c(7) by simp
    have "moveNext env select v = Some (case wrap_right (of_nat ?w) (of_nat (?n div ?w)) (of_nat (?o div ?w))
        (cell_right True (of_nat (?o mod ?w)) ?nib) of (line, column, nibble) \<Rightarrow>
          view_goto select line (smin (of_nat ?w - 1) column) nibble v)"
      using False lt by (simp add: moveNext_def lc assms(2) c(1,2,8,10) l(1) len split: prod.split)
    moreover have "(?o + 1) mod ?w < ?w" using c(4) by simp
    ultimately show ?thesis using nib False wrap_right_next [OF c(4,5) lt n] wrap_right_same [OF c(9,5)] smin_column [OF c(9,5)]
        smin_column [OF _ c(5), of "(?o + 1) mod ?w"]
      by (auto simp: cell_right_simps goto_cell_def)
  qed
qed

lemma moveNext_ascii:
  assumes "in_document v" "vw_selectedarea v = AsciiArea"
  shows "moveNext env select v =
    Some (if view_offset v = length (view_bytes v) then v else goto_cell select (view_offset v + 1) 1 v)"
proof -
  let ?n = "length (view_bytes v)" and ?w = "view_width v" and ?o = "view_offset v"
  note c = view_cells [OF assms(1)] and l = last_line [OF assms(1)] and lc = lastcell_eq [OF assms(1)]
  show ?thesis
  proof (cases "?o = ?n")
    case True
    then show ?thesis by (simp add: moveNext_def lc assms(2))
  next
    case False
    then have lt: "?o < ?n" "?n < 2 ^ 24" using c(6,7) by simp_all
    have m: "(?o + 1) mod ?w < ?w" using c(4) by simp
    have "moveNext env select v = Some (case wrap_right (of_nat ?w) (of_nat (?n div ?w)) (of_nat (?o div ?w))
        (cell_right False (of_nat (?o mod ?w)) (ps_nibbleindex (cu_position (vcursor v)))) of (line, column, nibble) \<Rightarrow>
          view_goto select line (smin (of_nat ?w - 1) column) nibble v)"
      using False by (simp add: moveNext_def lc assms(2) c(1,2,8) l(1) split: prod.split)
    then show ?thesis using False wrap_right_next [OF c(4,5) lt] smin_column [OF m c(5)]
      by (simp add: cell_right_simps goto_cell_def)
  qed
qed

end

lemma prev_cell:
  fixes o' w :: nat
  assumes "0 < w" "0 < o'"
  shows "if o' mod w = 0 then (o' - 1) div w = o' div w - 1 \<and> (o' - 1) mod w = w - 1 \<and> 0 < o' div w
    else (o' - 1) div w = o' div w \<and> (o' - 1) mod w = o' mod w - 1"
proof (cases "o' mod w = 0")
  case True
  then obtain q where q: "o' = q * w" by (metis mult.commute mult_div_mod_eq add.right_neutral)
  then obtain k where k: "q = Suc k" using assms(2) by (cases q) simp_all
  have "o' - 1 = (w - 1) + k * w" using q k assms(1) by simp
  then have "(o' - 1) div w = k" "(o' - 1) mod w = w - 1" using cell_div [of "w - 1" w k] assms(1) by simp_all
  moreover have "o' div w = Suc k" using q k assms(1) by simp
  ultimately show ?thesis using True by simp
next
  case False
  have "o' mod w - 1 + o' div w * w = o' - 1" using False div_mult_mod_eq [of o' w] by linarith
  moreover have "o' mod w - 1 < w" using assms(1) less_imp_diff_less mod_less_divisor by blast
  ultimately have "(o' - 1) div w = o' div w" "(o' - 1) mod w = o' mod w - 1"
    using cell_div [of "o' mod w - 1" w "o' div w"] by simp_all
  then show ?thesis using False by simp
qed

lemma wrap_left_same:
  assumes "c < w" "w < 256"
  shows "wrap_left (of_nat w) line (of_nat c, nib) = (line, of_nat c, nib)"
  unfolding wrap_left_def fst_conv width_sints [OF assms] by simp

lemma wrap_left_previous:
  assumes "0 < w" "w < 256" "0 < o'" "o' < 2 ^ 24"
  shows "wrap_left (of_nat w) (of_nat (o' div w)) (of_nat (o' mod w) - 1, nib) =
    (of_nat ((o' - 1) div w), of_nat ((o' - 1) mod w), if o' mod w = 0 then 0 else nib)"
proof (cases "o' mod w = 0")
  case True
  then have d: "(o' - 1) div w = o' div w - 1" "(o' - 1) mod w = w - 1" "0 < o' div w" using prev_cell [OF assms(1,3)] by simp_all
  have "max 0 (of_nat (o' div w) - 1) = (of_nat (o' div w - 1) :: u64)" using d(3) by (simp add: of_nat_diff max_def)
  then show ?thesis unfolding d(1,2) using True width_minus [OF assms(1)] by (simp add: wrap_left_def)
next
  case False
  then have d: "(o' - 1) div w = o' div w" "(o' - 1) mod w = o' mod w - 1" using prev_cell [OF assms(1,3)] by simp_all
  have m: "o' mod w - 1 < w" using assms(1) less_imp_diff_less mod_less_divisor by blast
  have "of_nat (o' mod w) - 1 = (of_nat (o' mod w - 1) :: cint)" using False by (simp add: of_nat_diff)
  then show ?thesis unfolding d using wrap_left_same [OF m assms(2)] False by simp
qed

lemma column_positive: "c < w \<Longrightarrow> w < 256 \<Longrightarrow> (if sint (of_nat c :: cint) > 0 then of_nat c else 0) = (of_nat c :: cint)"
  using width_sints(2) [of c w] by auto

lemma firstcell_iff:
  assumes "in_document v"
  shows "(of_nat (view_offset v div view_width v) :: u64) = 0 \<and> (of_nat (view_offset v mod view_width v) :: cint) = 0 \<longleftrightarrow> view_offset v = 0"
proof
  let ?o = "view_offset v" and ?w = "view_width v"
  note c = view_cells [OF assms]
  assume z: "(of_nat (?o div ?w) :: u64) = 0 \<and> (of_nat (?o mod ?w) :: cint) = 0"
  have o64: "?o < 2 ^ 64" using c(6,7) by simp
  have m: "?o mod ?w < 2 ^ 32" using less_trans [OF c(9), of "2 ^ 32"] c(5) by simp
  have "unat (of_nat (?o div ?w) :: u64) = ?o div ?w" by (rule unat_of_nat_u64 [OF div_below [OF o64]])
  moreover have "unat (of_nat (?o mod ?w) :: cint) = ?o mod ?w" by (rule unat_of_nat_cint [OF m])
  ultimately have "?o div ?w = 0" "?o mod ?w = 0" using z by simp_all
  then show "?o = 0" by (metis div_mult_mod_eq add_0 mult_0)
qed simp

lemma movePrevious_hex:
  assumes "in_document v" "vw_selectedarea v = HexArea"
  shows "movePrevious select v =
    (if ps_nibbleindex (cu_position (vcursor v)) = 0 then goto_cell select (view_offset v) (- 1) v
     else if view_offset v = 0 then v else goto_cell select (view_offset v - 1) 0 v)"
proof -
  let ?w = "view_width v" and ?o = "view_offset v" and ?nib = "ps_nibbleindex (cu_position (vcursor v))"
  note c = view_cells [OF assms(1)]
  have nib: "?nib = 0 \<or> ?nib = 1 \<or> ?nib = - 1" using assms(1) by (auto simp: in_document_def)
  have eq: "movePrevious select v = (if ?o = 0 \<and> ?nib \<noteq> 0 then v
    else case wrap_left (of_nat ?w) (of_nat (?o div ?w)) (cell_left True (of_nat (?o mod ?w)) ?nib) of (line, column, nibble) \<Rightarrow>
      view_goto select line (if sint column > 0 then column else 0) nibble v)"
    unfolding movePrevious_def Let_def c(1,2,8) firstcell_iff [OF assms(1)] assms(2) by simp
  have o24: "?o < 2 ^ 24" using c(6,7) by simp
  have m: "(?o - 1) mod ?w < ?w" using c(4) by simp
  show ?thesis
  proof (cases "?nib = 0")
    case True
    then show ?thesis unfolding eq
      by (simp add: cell_left_simps wrap_left_same [OF c(9,5)] column_positive [OF c(9,5)] goto_cell_def)
  next
    case False
    then have cl: "cell_left True k ?nib = (k - 1, 0)" for k using nib by (auto simp: cell_left_simps)
    show ?thesis
    proof (cases "?o = 0")
      case False
      then have "0 < ?o" by simp
      note wl = wrap_left_previous [OF c(4,5) this o24, of 0]
      then show ?thesis using False \<open>?nib \<noteq> 0\<close>
        by (simp only: eq cl prod.case column_positive [OF m c(5)] goto_cell_def if_False simp_thms if_cancel)
    qed (use False in \<open>simp add: eq\<close>)
  qed
qed

lemma movePrevious_ascii:
  assumes "in_document v" "vw_selectedarea v = AsciiArea"
  shows "movePrevious select v = (if view_offset v = 0 then v
    else goto_cell select (view_offset v - 1) (if view_offset v mod view_width v = 0 then 0 else 1) v)"
proof -
  let ?w = "view_width v" and ?o = "view_offset v"
  note c = view_cells [OF assms(1)]
  have eq: "movePrevious select v = (if ?o = 0 then v
    else case wrap_left (of_nat ?w) (of_nat (?o div ?w)) (of_nat (?o mod ?w) - 1, 1) of (line, column, nibble) \<Rightarrow>
      view_goto select line (if sint column > 0 then column else 0) nibble v)"
    unfolding movePrevious_def Let_def c(1,2,8) firstcell_iff [OF assms(1)] assms(2) by (simp add: cell_left_simps)
  have o24: "?o < 2 ^ 24" using c(6,7) by simp
  have m: "(?o - 1) mod ?w < ?w" using c(4) by simp
  show ?thesis
  proof (cases "?o = 0")
    case False
    then have "0 < ?o" by simp
    note wl = wrap_left_previous [OF c(4,5) this o24, of 1]
    then show ?thesis using False
      by (simp only: eq prod.case column_positive [OF m c(5)] goto_cell_def if_False simp_thms)
  qed (simp add: eq)
qed

section \<open>Moves stay in the document\<close>

text \<open>The moves of keys and of the mouse that cannot leave the document; the flag says to select.\<close>

datatype view_move =
    Next bool | Previous bool | Line_up bool | Line_start bool | Line_end bool | Document_start bool | Document_end bool
  | Press u64 cint "cint \<times> cint" | Drag u64 cint "cint \<times> cint"

fun exec_move :: "('b, 's) view_env \<Rightarrow> view_move \<Rightarrow> ('b, 's, 'c) hexview \<Rightarrow> ('b, 's, 'c) hexview option" where
  "exec_move env (Next sel) v = moveNext env sel v"
| "exec_move env (Previous sel) v = Some (movePrevious sel v)"
| "exec_move env (Line_up sel) v = map_option snd (previous_line sel v)"
| "exec_move env (Line_start sel) v = map_option snd (start_of_line sel v)"
| "exec_move env (Line_end sel) v = map_option snd (end_of_line env sel v)"
| "exec_move env (Document_start sel) v = map_option snd (start_of_document sel v)"
| "exec_move env (Document_end sel) v = map_option snd (end_of_document env sel v)"
| "exec_move env (Press first hscroll pos) v = mousePressEvent env LeftButton hscroll first pos v"
| "exec_move env (Drag first hscroll pos) v = mouseMoveEvent env LeftButton hscroll first pos v"

fun run_moves :: "('b, 's) view_env \<Rightarrow> view_move list \<Rightarrow> ('b, 's, 'c) hexview \<Rightarrow> ('b, 's, 'c) hexview option" where
  "run_moves env [] v = Some v"
| "run_moves env (m # ms) v = do { v \<leftarrow> exec_move env m v; run_moves env ms v }"

text \<open>The first visible line is not negative as a signed number.\<close>

fun move_ok :: "view_move \<Rightarrow> bool" where
  "move_ok (Press first hscroll pos) \<longleftrightarrow> unat first < 2 ^ 63"
| "move_ok (Drag first hscroll pos) \<longleftrightarrow> unat first < 2 ^ 63"
| "move_ok m \<longleftrightarrow> True"

definition same_text :: "(byte list, 's, 'c) hexview \<Rightarrow> (byte list, 's, 'c) hexview \<Rightarrow> bool" where
  "same_text v v' \<longleftrightarrow> in_document v' \<and> view_bytes v' = view_bytes v"

lemma goto_cell_same:
  assumes "in_document v" "o' \<le> length (view_bytes v)" "nib \<in> {- 1, 0, 1}"
  shows "same_text v (goto_cell sel o' nib v)"
  using goto_in_document(1) [OF assms] by (simp add: same_text_def goto_cell_def)

lemma area_same: "in_document v \<Longrightarrow> editableArea a \<Longrightarrow> same_text v (v\<lparr>vw_selectedarea := a\<rparr>)"
  by (simp add: same_text_def in_document_def view_bytes_def vcursor_def)

lemma flags_same:
  "in_document v \<Longrightarrow> same_text v (v\<lparr>vw_blinking := b, vw_cursorenabled := c\<rparr>)"
  by (simp add: same_text_def in_document_def view_bytes_def vcursor_def)

lemma same_text_trans: "same_text v v' \<Longrightarrow> same_text v' v'' \<Longrightarrow> same_text v v''"
  by (simp add: same_text_def)

lemma goto_position:
  assumes "pos_ok (doc_hexlinewidth (vw_document v)) p"
  shows "view_goto sel (ps_line p) (ps_column p) nib v = goto_cell sel (at_offset p) nib v"
  using pos_cells [OF assms] by (simp add: goto_cell_def view_width_def)

lemma moveTo_pos_eq: "moveTo_pos p = moveTo (ps_line p) (ps_column p) (ps_nibbleindex p)"
  by (simp add: fun_eq_iff moveTo_pos_def)

lemma area_cases: "in_document v \<Longrightarrow> vw_selectedarea v = HexArea \<or> vw_selectedarea v = AsciiArea"
  by (simp add: in_document_def editableArea_def)

lemma movePrevious_same: "in_document v \<Longrightarrow> same_text v (movePrevious sel v)"
  using area_cases [of v] view_cells(6) [of v]
  by (auto simp: movePrevious_hex movePrevious_ascii goto_cell_same, auto simp: same_text_def)

context memory_view
begin

lemma moveNext_same: "in_document v \<Longrightarrow> \<exists>v'. moveNext env sel v = Some v' \<and> same_text v v'"
  using area_cases [of v] view_cells(6) [of v]
  by (auto simp: moveNext_hex moveNext_ascii goto_cell_same, auto simp: same_text_def)

lemma goto_same_cell:
  assumes "in_document v" "m < view_width v" "k * view_width v + m \<le> length (view_bytes v)" "nib \<in> {- 1, 0, 1}"
  shows "same_text v (view_goto sel (of_nat k) (of_nat m) nib v)"
proof -
  have "view_goto sel (of_nat k) (of_nat m) nib v = goto_cell sel (k * view_width v + m) nib v"
    using cell_div [OF assms(2), of k] by (simp add: goto_cell_def add.commute)
  then show ?thesis using goto_cell_same [OF assms(1,3,4)] by simp
qed

lemma same_text_refl: "in_document v \<Longrightarrow> same_text v v"
  by (simp add: same_text_def)

lemma start_moves_same:
  assumes "in_document v"
  shows "\<exists>v'. previous_line sel v = Some (True, v') \<and> same_text v v'"
    "\<exists>v'. start_of_line sel v = Some (True, v') \<and> same_text v v'"
    "\<exists>v'. start_of_document sel v = Some (True, v') \<and> same_text v v'"
proof -
  let ?n = "length (view_bytes v)" and ?w = "view_width v" and ?o = "view_offset v"
  note c = view_cells [OF assms]
  have o: "?o div ?w * ?w + ?o mod ?w = ?o" "?n div ?w * ?w + ?n mod ?w = ?n" "?n mod ?w < ?w" using c(4) by simp_all
  note self = same_text_refl [OF assms] and same = goto_same_cell [OF assms]
  show "\<exists>v'. previous_line sel v = Some (True, v') \<and> same_text v v'"
  proof (cases "ps_line (cu_position (vcursor v)) = 0")
    case False
    then have "0 < ?o div ?w" by (cases "?o div ?w") (simp_all add: c(1))
    then obtain k where k: "?o div ?w = Suc k" using gr0_implies_Suc by blast
    then have "k * ?w + ?o mod ?w \<le> ?n" using o(1) c(6) by simp
    from same [OF c(9) this, of 1] k False show ?thesis
      by (simp add: previous_line_def handled_def c(2)) (simp add: c(1))
  qed (use self in \<open>simp add: previous_line_def handled_def\<close>)
  have "?o div ?w * ?w + 0 \<le> ?n" using o(1) c(6) by linarith
  from same [OF c(4) this, of 1] show "\<exists>v'. start_of_line sel v = Some (True, v') \<and> same_text v v'"
    by (simp add: start_of_line_def handled_def c(1))
  show "\<exists>v'. start_of_document sel v = Some (True, v') \<and> same_text v v'"
    using self same [OF c(4), of 0 1] by (simp add: start_of_document_def handled_def)
qed

lemma end_moves_same:
  assumes "in_document v"
  shows "\<exists>v'. end_of_line env sel v = Some (True, v') \<and> same_text v v'"
    "\<exists>v'. end_of_document env sel v = Some (True, v') \<and> same_text v v'"
proof -
  let ?n = "length (view_bytes v)" and ?w = "view_width v" and ?o = "view_offset v"
  note c = view_cells [OF assms] and l = last_line [OF assms]
  have o: "?o div ?w * ?w + ?o mod ?w = ?o" "?n div ?w * ?w + ?n mod ?w = ?n" "?n mod ?w < ?w" using c(4) by simp_all
  have o64: "?o < 2 ^ 64" "?n < 2 ^ 64" using c(6,7) by simp_all
  note self = same_text_refl [OF assms] and same = goto_same_cell [OF assms]
  have fin: "same_text v (view_goto sel (of_nat (?n div ?w)) (of_nat (?n mod ?w)) 1 v)"
    by (rule same [OF o(3)]) (use o(2) in simp_all)
  have gl: "goto_last env sel (of_nat (?n div ?w)) 0 v = Some (True, view_goto sel (of_nat (?n div ?w)) (of_nat (?n mod ?w)) 1 v)"
    by (simp add: goto_last_def l(2) handled_def)
  show "\<exists>v'. end_of_line env sel v = Some (True, v') \<and> same_text v v'"
  proof (cases "?o div ?w = ?n div ?w")
    case True
    then show ?thesis using gl fin by (simp add: end_of_line_def l(1) c(1))
  next
    case False
    have "?o div ?w \<le> ?n div ?w" using c(6) by (rule div_le_mono)
    then have lt: "?o div ?w + 1 \<le> ?n div ?w" using False by linarith
    then have "(?o div ?w + 1) * ?w \<le> ?n div ?w * ?w" by (rule mult_le_mono1)
    then have "?o div ?w * ?w + ?w \<le> ?n div ?w * ?w" by simp
    then have "?o div ?w * ?w + (?w - 1) \<le> ?n" using o(2) by linarith
    note le = this
    have "?w - 1 < ?w" using c(4) by simp
    then have s: "same_text v (view_goto sel (of_nat (?o div ?w)) (of_nat ?w - 1) 0 v)"
      unfolding width_minus [OF c(4)] by (rule same [OF _ le]) simp
    have "(of_nat (?o div ?w) :: u64) \<noteq> of_nat (?n div ?w)"
    proof
      assume "(of_nat (?o div ?w) :: u64) = of_nat (?n div ?w)"
      then have "unat (of_nat (?o div ?w) :: u64) = unat (of_nat (?n div ?w) :: u64)" by simp
      then show False using False unat_of_nat_u64 [OF div_below [OF o64(1)]] unat_of_nat_u64 [OF div_below [OF o64(2)]] by simp
    qed
    then show ?thesis using s by (simp add: end_of_line_def l(1) c(1,8) handled_def)
  qed
  show "\<exists>v'. end_of_document env sel v = Some (True, v') \<and> same_text v v'"
    using self gl fin by (simp add: end_of_document_def l(1) handled_def)
qed

lemmas line_moves_same = start_moves_same(1,2) end_moves_same(1) start_moves_same(3) end_moves_same(2)

end

lemma mouse_same:
  assumes "memory_view env" "cell_font (ve_font env) c h" "c < 2 ^ 16" "in_document v" "unat first < 2 ^ 63"
  shows "\<exists>v'. mousePressEvent env LeftButton hscroll first pos v = Some v' \<and> same_text v v'"
    "\<exists>v'. mouseMoveEvent env LeftButton hscroll first pos v = Some v' \<and> same_text v v'"
proof -
  let ?pt = "absolutePosition hscroll pos"
  have ops: "ve_ops env = memory_ops (ve_qt env)" and bytes: "qbytearray (ve_qt env)"
    using assms(1) by (simp_all add: memory_view_def)
  have d: "length (doc_buffer (vw_document v)) + 1 < 2 ^ 24" "0 < doc_hexlinewidth (vw_document v)"
    using assms(4) by (simp_all add: in_document_def)
  have self: "same_text v v" using assms(4) by (simp add: same_text_def)
  let ?b = "if vw_blinking v then v\<lparr>vw_blinking := False, vw_cursorenabled := False\<rparr> else v"
  have b: "same_text v ?b" "vw_document ?b = vw_document v" "in_document ?b"
    using flags_same [OF assms(4)] self by (auto simp: same_text_def)
  show "\<exists>v'. mousePressEvent env LeftButton hscroll first pos v = Some v' \<and> same_text v v'"
    "\<exists>v'. mouseMoveEvent env LeftButton hscroll first pos v = Some v' \<and> same_text v v'"
  proof (atomize (full), rule cell_font.hit_in_document [OF assms(2,3) bytes d assms(5), of ?pt], goal_cases)
    case 1
    then show ?case using b(1,2) self
      by (cases "vw_blinking v") (simp_all add: mousePressEvent_def mouseMoveEvent_def ops Let_def)
  next
    case (2 p)
    let ?v = "selectArea env ?pt v"
    have v: "same_text v ?v" using area_same [OF assms(4)] self by (simp add: selectArea_def Let_def)
    then have i: "in_document ?v" "view_bytes ?v = view_bytes v" by (simp_all add: same_text_def)
    have doc: "vw_document ?v = vw_document v" by (simp add: selectArea_def Let_def)
    have n: "ps_nibbleindex p \<in> {- 1, 0, 1}" using 2(4) by auto
    have press: "on_cursor (moveTo_pos p) ?v = goto_cell False (at_offset p) (ps_nibbleindex p) ?v"
      using goto_position [of ?v p False] 2(2) doc by (simp add: view_goto_def moveTo_pos_eq)
    have "same_text ?v (goto_cell False (at_offset p) (ps_nibbleindex p) ?v)"
      by (rule goto_cell_same [OF i(1) _ n]) (use 2(3) i(2) in \<open>simp add: view_bytes_def\<close>)
    then have p: "same_text v (on_cursor (moveTo_pos p) ?v)" unfolding press by (rule same_text_trans [OF v])
    have drag: "on_cursor (cursor_select (ps_line p) (ps_column p) 0) ?b = goto_cell True (at_offset p) 0 ?b"
      using goto_position [of ?b p True 0] 2(2) b(2) by (simp add: view_goto_def)
    have "same_text ?b (goto_cell True (at_offset p) 0 ?b)"
      by (rule goto_cell_same [OF b(3)]) (use 2(3) b(2) in \<open>simp_all add: view_bytes_def\<close>)
    then have q: "same_text v (on_cursor (cursor_select (ps_line p) (ps_column p) 0) ?b)"
      unfolding drag by (rule same_text_trans [OF b(1)])
    have e: "editableArea (vw_selectedarea ?v)" using i(1) by (simp add: in_document_def)
    show ?case using 2(1) p q e b(2)
      by (cases "vw_blinking v") (simp_all add: mousePressEvent_def mouseMoveEvent_def ops Let_def)
  qed
qed

section \<open>Typing\<close>

text \<open>An edit of the bytes that leaves the cursor where it was.\<close>

definition edited :: "(byte list, 's, 'c) hexview \<Rightarrow> byte list \<Rightarrow> (byte list, 's, 'c) hexview \<Rightarrow> bool" where
  "edited v bs v' \<longleftrightarrow> view_bytes v' = bs \<and> vcursor v' = vcursor v \<and> doc_hexlinewidth (vw_document v') = doc_hexlinewidth (vw_document v) \<and>
     vw_selectedarea v' = vw_selectedarea v \<and> vw_readonly v' = vw_readonly v"

lemma push_keeps:
  "doc_cursor (push_command ops us c doc) = doc_cursor doc"
  "doc_hexlinewidth (push_command ops us c doc) = doc_hexlinewidth doc"
  by (simp_all add: push_command_def documentChanged_def split: prod.split)

lemma edit_keeps:
  "doc_cursor (doc_insert ops us off d doc) = doc_cursor doc" "doc_cursor (doc_replace ops us off d doc) = doc_cursor doc"
  "doc_hexlinewidth (doc_insert ops us off d doc) = doc_hexlinewidth doc"
  "doc_hexlinewidth (doc_replace ops us off d doc) = doc_hexlinewidth doc"
  by (simp_all add: doc_insert_def doc_replace_def push_keeps)

lemma edited_in_document:
  assumes "edited v bs v'" "in_document v" "length bs + 1 < 2 ^ 24" "view_offset v \<le> length bs"
    and "at_offset (cu_selection (vcursor v)) \<le> length bs"
  shows "in_document v'" "view_offset v' = view_offset v" "view_width v' = view_width v"
  using assms by (simp_all add: edited_def in_document_def view_offset_def view_bytes_def view_width_def)

lemma no_selection: "\<not> hasSelection c \<Longrightarrow> cursor_ok c \<Longrightarrow> at_offset (cu_selection c) = at_offset (cu_position c)"
  by (auto simp: hasSelection_def pos_eq_def at_offset_def cursor_ok_def pos_ok_def)

lemma no_removal: "\<not> hasSelection (vcursor v) \<Longrightarrow> on_document (removeSelection ops us) v = v"
  by (simp add: on_document_def removeSelection_def vcursor_def)

lemma ucast_of_nat:
  assumes "n < 2 ^ 32"
  shows "(ucast (of_nat n :: u64) :: cint) = of_nat n"
proof -
  have "unat (of_nat n :: u64) = n" using assms by (intro unat_of_nat_u64) simp
  then have "unat (ucast (of_nat n :: u64) :: cint) = n"
    using assms by (simp add: unsigned_ucast_eq take_bit_nat_eq_self)
  then show ?thesis using unat_of_nat_cint [OF assms] by (metis word_unat_eq_iff)
qed

context memory_view
begin

lemma insert_edited:
  assumes "in_document v" "length (view_bytes v) < 2 ^ 31"
  shows "edited v (take (view_offset v) (view_bytes v) @ [x] @ drop (view_offset v) (view_bytes v))
    (on_document (insert_byte (ve_ops env) us (pos_offset (cu_position (vcursor v))) x) v)"
  using editable_buffer.push_insert_bytes [OF qbytearray_editable [OF bytes], of "pos_offset (cu_position (vcursor v))" "vw_document v" us "[x]"]
    view_cells(6,11) [OF assms(1)] assms(2)
  by (simp add: edited_def on_document_def insert_byte_def view_bytes_def ops vcursor_def edit_keeps)

lemma replace_edited:
  assumes "in_document v" "view_offset v < length (view_bytes v)"
  shows "edited v ((view_bytes v)[view_offset v := x])
    (on_document (replace_byte (ve_ops env) us (pos_offset (cu_position (vcursor v))) x) v)"
proof -
  let ?off = "pos_offset (cu_position (vcursor v))" and ?b = "view_bytes v" and ?o = "view_offset v"
  note c = view_cells [OF assms(1)] and E = qbytearray_editable [OF bytes]
  have off: "unat ?off = ?o" by (rule c(11))
  have "length ?b < 2 ^ 31" using c(7) by simp
  then have "hexbuffer_replace (memory_ops (ve_qt env)) ?off [x] ?b = take ?o ?b @ [x] @ drop (?o + 1) ?b"
    using editable_buffer.replace_bytes [OF E, of ?off ?b "[x]"] c(6) off by simp
  also have "\<dots> = ?b[?o := x]" using assms(2) by (simp add: upd_conv_take_nth_drop)
  finally have "hexbuffer_replace (memory_ops (ve_qt env)) ?off [x] ?b = ?b[?o := x]" .
  moreover have "ho_read (memory_ops (ve_qt env)) ?off k ?b = (mem_read (ve_qt env) ?off k ?b, ?b)" for k by (simp add: memory_ops_def)
  ultimately show ?thesis
    by (simp add: edited_def on_document_def replace_byte_def doc_replace_def push_keeps vcursor_def ops view_bytes_def)
       (simp add: push_command_def replace_command_def documentChanged_def)
qed

lemma at_end:
  assumes "in_document v"
  shows "doc_atEnd (ve_ops env) (vw_document v) \<longleftrightarrow> view_offset v = length (view_bytes v)"
  using length_int [OF assms] view_cells(6,10) [OF assms] by (auto simp: doc_atEnd_def vcursor_def)

lemma byte_at_cursor:
  assumes "in_document v" "view_offset v < length (view_bytes v)"
  shows "doc_at (ve_ops env) (ucast (pos_offset (cu_position (vcursor v)))) (vw_document v) =
    Some (view_bytes v ! view_offset v, vw_document v)"
proof -
  let ?o = "view_offset v"
  note c = view_cells [OF assms(1)]
  have o: "?o < 2 ^ 31" "?o < 2 ^ 32" using c(6,7) by simp_all
  note u = ucast_of_nat [OF o(2)]
  have s: "scast (of_nat ?o :: cint) = (of_nat ?o :: u64)" by (rule scast_of_nat [OF o(1)])
  have "unat (of_nat ?o :: u64) = ?o" using o(1) by (intro unat_of_nat_u64) simp
  then have "to_int (of_nat ?o) = int ?o" using to_int_nat [of "of_nat ?o"] o(1) by simp
  then show ?thesis using assms(2) unfolding c(3) u
    by (simp add: doc_at_def s ops memory_ops_def mem_at_def view_bytes_def)
qed

end

text \<open>A view with given bytes and cursor, no selection, and otherwise as before.\<close>

definition now_at :: "(byte list, 's, 'c) hexview \<Rightarrow> byte list \<Rightarrow> nat \<Rightarrow> cint \<Rightarrow> (byte list, 's, 'c) hexview \<Rightarrow> bool" where
  "now_at v bs o' nib v' \<longleftrightarrow> in_document v' \<and> view_bytes v' = bs \<and> view_offset v' = o' \<and>
     ps_nibbleindex (cu_position (vcursor v')) = nib \<and> \<not> hasSelection (vcursor v') \<and> vw_selectedarea v' = vw_selectedarea v \<and>
     vw_readonly v' = vw_readonly v \<and> cu_insertionmode (vcursor v') = cu_insertionmode (vcursor v)"

lemma goto_now_at:
  assumes "in_document v" "o' \<le> length (view_bytes v)" "nib \<in> {- 1, 0, 1}"
  shows "now_at v (view_bytes v) o' nib (goto_cell False o' nib v)"
  using goto_in_document [OF assms]
  by (simp add: now_at_def goto_cell_def) (simp add: hasSelection_def pos_eq_def goto_cursor set_pos_def)

lemma now_at_edited: "edited v bs v' \<Longrightarrow> now_at v' bs' o' nib v'' \<Longrightarrow> now_at v bs' o' nib v''"
  by (simp add: edited_def now_at_def)

context memory_view
begin

lemma hex_input_first:
  assumes "in_document v" "vw_selectedarea v = HexArea" "\<not> hasSelection (vcursor v)" "length (view_bytes v) + 2 < 2 ^ 24"
    and "ps_nibbleindex (cu_position (vcursor v)) \<noteq> 0" "x = ve_hexval env key"
    and "appends = (view_offset v = length (view_bytes v) \<or> cu_insertionmode (vcursor v) = InsertMode)"
  shows "\<exists>v'. hex_input env key v = Some v' \<and> now_at v
    (if appends then take (view_offset v) (view_bytes v) @ [push_bit 4 x] @ drop (view_offset v) (view_bytes v)
     else (view_bytes v)[view_offset v := (view_bytes v ! view_offset v AND 0x0F) OR push_bit 4 x]) (view_offset v) 0 v'"
proof -
  let ?off = "pos_offset (cu_position (vcursor v))" and ?b = "view_bytes v" and ?o = "view_offset v"
  note c = view_cells [OF assms(1)]
  have sel: "at_offset (cu_selection (vcursor v)) = ?o"
    using no_selection [OF assms(3)] assms(1) by (simp add: in_document_def view_offset_def)
  have step: "\<exists>v'. moveNext env False w = Some v' \<and> now_at v bs ?o 0 v'"
    if "edited v bs w" "?o < length bs" "length bs + 1 < 2 ^ 24" for w bs
  proof -
    have i: "in_document w" "view_offset w = ?o" using edited_in_document [OF that(1) assms(1) that(3)] that(2) sel by simp_all
    have w: "vw_selectedarea w = HexArea" "ps_nibbleindex (cu_position (vcursor w)) \<noteq> 0" "view_bytes w = bs"
      using that(1) assms(2,5) by (simp_all add: edited_def)
    have "now_at w (view_bytes w) ?o 0 (goto_cell False ?o 0 w)" by (rule goto_now_at [OF i(1)]) (use w(3) that(2) in simp_all)
    then show ?thesis using moveNext_hex [OF i(1) w(1), of False] i(2) w(2,3) that(2) now_at_edited [OF that(1)] by auto
  qed
  show ?thesis
  proof (cases appends)
    case True
    have "edited v (take ?o ?b @ [push_bit 4 x] @ drop ?o ?b) (on_document (insert_byte (ve_ops env) (ve_undo env) ?off (push_bit 4 x)) v)"
      by (rule insert_edited [OF assms(1)]) (use c(7) in simp)
    from step [OF this] show ?thesis using True assms(4,5,7) c(6) at_end [OF assms(1)]
      by (simp add: hex_input_def Let_def no_removal [OF assms(3)] assms(6))
  next
    case False
    then have lt: "?o < length ?b" using assms(7) c(6) by simp
    note r = replace_edited [OF assms(1) lt, where us = "ve_undo env" and x = "(?b ! ?o AND 0x0F) OR push_bit 4 x"]
    have "v\<lparr>vw_document := vw_document v\<rparr> = v" by simp
    with step [OF r] show ?thesis using False assms(4,5,7) lt at_end [OF assms(1)] byte_at_cursor [OF assms(1) lt]
      by (simp add: hex_input_def Let_def no_removal [OF assms(3)] assms(6))
  qed
qed

lemma hex_input_second:
  assumes "in_document v" "vw_selectedarea v = HexArea" "\<not> hasSelection (vcursor v)" "view_offset v < length (view_bytes v)"
    and "ps_nibbleindex (cu_position (vcursor v)) = 0" "x = ve_hexval env key"
  shows "\<exists>v'. hex_input env key v = Some v' \<and>
    now_at v ((view_bytes v)[view_offset v := (view_bytes v ! view_offset v AND 0xF0) OR x]) (view_offset v + 1) 1 v'"
proof -
  let ?b = "view_bytes v" and ?o = "view_offset v"
  let ?bs = "?b[?o := (?b ! ?o AND 0xF0) OR x]"
  note c = view_cells [OF assms(1)]
  have sel: "at_offset (cu_selection (vcursor v)) = ?o"
    using no_selection [OF assms(3)] assms(1) by (simp add: in_document_def view_offset_def)
  let ?w = "on_document (replace_byte (ve_ops env) (ve_undo env) (pos_offset (cu_position (vcursor v))) ((?b ! ?o AND 0xF0) OR x)) v"
  note r = replace_edited [OF assms(1,4), where us = "ve_undo env" and x = "(?b ! ?o AND 0xF0) OR x"]
  have i: "in_document ?w" "view_offset ?w = ?o" using edited_in_document [OF r assms(1)] sel assms(4) c(7) by simp_all
  have w: "vw_selectedarea ?w = HexArea" "ps_nibbleindex (cu_position (vcursor ?w)) = 0" "view_bytes ?w = ?bs"
    using r assms(2,5) by (simp_all add: edited_def)
  have "now_at ?w (view_bytes ?w) (?o + 1) 1 (goto_cell False (?o + 1) 1 ?w)"
    by (rule goto_now_at [OF i(1)]) (use w(3) assms(4) in simp_all)
  then have n: "now_at v ?bs (?o + 1) 1 (goto_cell False (?o + 1) 1 ?w)" unfolding w(3) by (rule now_at_edited [OF r])
  have "v\<lparr>vw_document := vw_document v\<rparr> = v" by simp
  moreover have "moveNext env False ?w = Some (goto_cell False (?o + 1) 1 ?w)"
    using moveNext_hex [OF i(1) w(1), of False] i(2) w(2,3) assms(4) by simp
  ultimately show ?thesis using n assms(5) at_end [OF assms(1)] assms(4) byte_at_cursor [OF assms(1,4)]
    by (simp add: hex_input_def Let_def no_removal [OF assms(3)] assms(6))
qed

end

text \<open>The two digits make the byte.\<close>

lemma nibble_masks: "(0x0F :: byte) = mask 4" "(0xF0 :: byte) = NOT (mask 4)"
  by (simp_all add: mask_eq_exp_minus_1)

lemma two_nibbles:
  fixes a b c :: byte
  shows "(push_bit 4 a AND 0xF0) OR b = push_bit 4 a OR b"
    "(((c AND 0x0F) OR push_bit 4 a) AND 0xF0) OR b = push_bit 4 a OR b"
  unfolding nibble_masks by (rule bit_word_eqI; auto simp: bit_simps)+

lemma digits_byte:
  assumes "x < 16" "y < 16"
  shows "push_bit 4 (of_nat x) OR of_nat y = (of_nat (16 * x + y) :: byte)"
proof -
  have "list_all (\<lambda>x. list_all (\<lambda>y. push_bit 4 (of_nat x) OR of_nat y = (of_nat (16 * x + y) :: byte)) [0..<16]) [0..<16]"
    by code_simp
  moreover have "x \<in> set [0..<16]" "y \<in> set [0..<16]" using assms by simp_all
  ultimately show ?thesis by (simp only: list_all_iff)
qed

text \<open>The press of a key with a character, in no key sequence and without modifiers.\<close>

definition text_event :: "byte \<Rightarrow> key_event" where
  "text_event k = \<lparr>ke_matches = (\<lambda>_. False), ke_key = Key_other, ke_modified = False, ke_control = False, ke_char = k\<rparr>"

definition lower_digit :: "byte \<Rightarrow> nat \<Rightarrow> bool" where
  "lower_digit k x \<longleftrightarrow> digit_value k = Some x \<and> (k \<le> 0x39 \<or> 0x61 \<le> k)"

lemma lower_digit_less: "lower_digit k x \<Longrightarrow> x < 16"
  by (auto simp: lower_digit_def digit_value_def split: if_splits)

lemma lower_digit_typed:
  assumes "lower_digit k x"
  shows "0x30 \<le> k \<and> k \<le> 0x39 \<or> 0x61 \<le> k \<and> k \<le> 0x66"
  using assms by (auto simp: lower_digit_def digit_value_def word_le_nat_alt split: if_splits)

locale typing_view = memory_view +
  assumes hexval: "digit_value k = Some n \<Longrightarrow> ve_hexval env k = of_nat n"
begin

abbreviation woken :: "(byte list, 's, 'c) hexview \<Rightarrow> (byte list, 's, 'c) hexview" where
  "woken v \<equiv> v\<lparr>vw_blinking := False, vw_cursorenabled := True\<rparr>"

lemma press_digit:
  assumes "lower_digit k x" "vw_selectedarea v = HexArea" "\<not> vw_readonly v" "hex_input env k (woken v) = Some v'"
  shows "keyPressEvent env (text_event k) v = Some (v'\<lparr>vw_blinking := True\<rparr>)"
proof -
  have "processMove env (text_event k) (woken v) = Some (False, woken v)" by (simp add: processMove_def text_event_def)
  moreover have "processAction env (text_event k) (woken v) = Some (False, woken v)"
    using assms(3) by (simp add: processAction_def text_event_def)
  moreover have "processTextInput env (text_event k) (woken v) = Some ((True, False), v')"
    using lower_digit_typed [OF assms(1)] assms(2-4) by (auto simp: processTextInput_def text_event_def)
  ultimately show ?thesis by (subst keyPressEvent.simps) simp
qed

lemma now_at_woken: "now_at (woken v) bs o' nib v' \<longleftrightarrow> now_at v bs o' nib v'"
  by (simp add: now_at_def vcursor_def)

lemma now_at_timer: "now_at v bs o' nib (v'\<lparr>vw_blinking := b\<rparr>) \<longleftrightarrow> now_at v bs o' nib v'"
  by (simp add: now_at_def vcursor_def in_document_def view_bytes_def view_offset_def)

lemma woken_view:
  "in_document (woken v) = in_document v" "view_bytes (woken v) = view_bytes v" "view_offset (woken v) = view_offset v"
  "vcursor (woken v) = vcursor v"
  by (simp_all add: in_document_def view_bytes_def view_offset_def vcursor_def)

lemma type_byte:
  assumes "in_document v" "vw_selectedarea v = HexArea" "\<not> vw_readonly v" "\<not> hasSelection (vcursor v)"
    and "ps_nibbleindex (cu_position (vcursor v)) \<noteq> 0" "length (view_bytes v) + 2 < 2 ^ 24"
    and "lower_digit k1 x" "lower_digit k2 y"
    and "appends = (view_offset v = length (view_bytes v) \<or> cu_insertionmode (vcursor v) = InsertMode)"
  shows "\<exists>v1 v2. keyPressEvent env (text_event k1) v = Some v1 \<and> keyPressEvent env (text_event k2) v1 = Some v2 \<and>
    now_at v (if appends then take (view_offset v) (view_bytes v) @ [of_nat (16 * x + y)] @ drop (view_offset v) (view_bytes v)
      else (view_bytes v)[view_offset v := of_nat (16 * x + y)]) (view_offset v + 1) 1 v2"
proof -
  let ?b = "view_bytes v" and ?o = "view_offset v" and ?h = "push_bit 4 (of_nat x) :: byte"
  let ?b1 = "if appends then take ?o ?b @ [?h] @ drop ?o ?b else ?b[?o := (?b ! ?o AND 0x0F) OR ?h]"
  have le: "?o \<le> length ?b" by (rule view_cells(6) [OF assms(1)])
  have hv: "ve_hexval env k1 = of_nat x" "ve_hexval env k2 = of_nat y"
    using assms(7,8) hexval by (simp_all add: lower_digit_def)
  obtain w1 where w1: "hex_input env k1 (woken v) = Some w1" "now_at v ?b1 ?o 0 w1"
    using hex_input_first [of "woken v" "of_nat x" k1 appends] assms(1-6,9) hv(1)
    unfolding woken_view now_at_woken by auto
  let ?v1 = "w1\<lparr>vw_blinking := True\<rparr>"
  have v1: "now_at v ?b1 ?o 0 ?v1" using w1(2) by (simp only: now_at_timer)
  have lt: "?o < length ?b1" using le assms(9) by (auto simp: less_Suc_eq_le)
  have nth: "(?b1 ! ?o AND 0xF0) OR of_nat y = of_nat (16 * x + y)"
    using le assms(9) two_nibbles digits_byte [OF lower_digit_less [OF assms(7)] lower_digit_less [OF assms(8)]]
    by (auto simp: nth_append)
  obtain w2 where w2: "hex_input env k2 (woken ?v1) = Some w2" "now_at ?v1 (?b1[?o := of_nat (16 * x + y)]) (?o + 1) 1 w2"
    using hex_input_second [of "woken ?v1" "of_nat y" k2] v1 lt assms(2) hv(2) nth
    unfolding woken_view now_at_woken by (auto simp: now_at_def)
  have "keyPressEvent env (text_event k1) v = Some ?v1"
    by (rule press_digit [OF assms(7,2,3) w1(1)])
  moreover have "keyPressEvent env (text_event k2) ?v1 = Some (w2\<lparr>vw_blinking := True\<rparr>)"
    using v1 assms(2,3) by (intro press_digit [OF assms(8) _ _ w2(1)]) (simp_all add: now_at_def)
  moreover have "now_at v (?b1[?o := of_nat (16 * x + y)]) (?o + 1) 1 (w2\<lparr>vw_blinking := True\<rparr>)"
    using w2(2) v1 unfolding now_at_timer by (simp add: now_at_def vcursor_def)
  moreover have "?b1[?o := of_nat (16 * x + y)] = (if appends then take ?o ?b @ [of_nat (16 * x + y)] @ drop ?o ?b
      else ?b[?o := of_nat (16 * x + y)])"
    using le by (simp add: list_update_append)
  ultimately show ?thesis by auto
qed

end

section \<open>Properties\<close>


text \<open>The half bytes in front of the cursor: one more when the first digit of its byte is behind it.\<close>

definition nibbles :: "('b, 's, 'c) hexview \<Rightarrow> nat" where
  "nibbles v = 2 * view_offset v + (if ps_nibbleindex (cu_position (vcursor v)) = 0 then 1 else 0)"

lemma nibbles_goto:
  assumes "in_document v" "o' \<le> length (view_bytes v)" "nib \<in> {- 1, 0, 1}"
  shows "nibbles (goto_cell sel o' nib v) = 2 * o' + (if nib = 0 then 1 else 0)"
  by (simp add: nibbles_def goto_in_document [OF assms])

lemma goto_area:
  fixes v :: "(byte list, 's, 'c) hexview"
  shows "vw_selectedarea (goto_cell sel o' nib v) = vw_selectedarea v"
  by (simp add: goto_cell_def)

lemma previous_nibble:
  assumes "in_document v" "vw_selectedarea v = HexArea"
  shows "nibbles (movePrevious sel v) = nibbles v - 1" "same_text v (movePrevious sel v)"
    "vw_selectedarea (movePrevious sel v) = HexArea"
proof -
  have le: "view_offset v \<le> length (view_bytes v)" by (rule view_cells(6) [OF assms(1)])
  show "nibbles (movePrevious sel v) = nibbles v - 1"
    unfolding movePrevious_hex [OF assms] using le nibbles_goto [OF assms(1), of "view_offset v" "- 1" sel]
      nibbles_goto [OF assms(1), of "view_offset v - 1" 0 sel]
    by (simp add: nibbles_def [of v]) arith
  show "same_text v (movePrevious sel v)" by (rule movePrevious_same [OF assms(1)])
  show "vw_selectedarea (movePrevious sel v) = HexArea"
    unfolding movePrevious_hex [OF assms] by (simp add: goto_area assms(2))
qed

context memory_view
begin

lemma next_nibble:
  assumes "in_document v" "vw_selectedarea v = HexArea" "nibbles v < 2 * length (view_bytes v)"
  shows "\<exists>v'. moveNext env sel v = Some v' \<and> nibbles v' = nibbles v + 1 \<and> same_text v v' \<and> vw_selectedarea v' = HexArea"
proof -
  have lt: "view_offset v < length (view_bytes v)" using assms(3) by (simp add: nibbles_def split: if_splits)
  have n: "nibbles (goto_cell sel (view_offset v + 1) 1 v) = 2 * (view_offset v + 1)"
    "nibbles (goto_cell sel (view_offset v) 0 v) = 2 * view_offset v + 1"
    using lt by (simp_all add: nibbles_goto [OF assms(1)])
  have s: "same_text v (goto_cell sel (view_offset v + 1) 1 v)" "same_text v (goto_cell sel (view_offset v) 0 v)"
    using lt by (simp_all add: goto_cell_same [OF assms(1)])
  show ?thesis unfolding moveNext_hex [OF assms(1,2)] using lt n s
    by (auto simp: goto_area assms(2)) (simp_all add: nibbles_def)
qed

lemma nibbles_forward:
  assumes "in_document v" "vw_selectedarea v = HexArea" "nibbles v + k \<le> 2 * length (view_bytes v)"
  shows "\<exists>v'. run_moves env (replicate k (Next sel)) v = Some v' \<and> nibbles v' = nibbles v + k \<and> same_text v v' \<and>
    vw_selectedarea v' = HexArea"
  using assms
proof (induction k arbitrary: v)
  case (Suc k)
  have "nibbles v < 2 * length (view_bytes v)" using Suc.prems(3) by simp
  from next_nibble [OF Suc.prems(1,2) this]
  obtain v1 where v1: "moveNext env sel v = Some v1" "nibbles v1 = nibbles v + 1" "same_text v v1" "vw_selectedarea v1 = HexArea" by blast
  then show ?case using Suc.IH [of v1] Suc.prems(3) by (auto simp: same_text_def)
qed (simp add: same_text_def)

lemma nibbles_back:
  assumes "in_document v" "vw_selectedarea v = HexArea"
  shows "\<exists>v'. run_moves env (replicate k (Previous sel)) v = Some v' \<and> nibbles v' = nibbles v - k \<and> same_text v v'"
  using assms
proof (induction k arbitrary: v)
  case (Suc k)
  note p = previous_nibble [OF Suc.prems, of sel]
  then show ?case using Suc.IH [of "movePrevious sel v"] by (auto simp: same_text_def)
qed (simp add: same_text_def)

end

text \<open>The arrow keys walk half byte by half byte. In the hexadecimal area k steps to the right put the
cursor k digits on as long as there are digits, and k steps to the left put it back on the same digit,
whether the steps move or select.\<close>

theorem nibble_walk:
  assumes "memory_view env" "in_document v" "vw_selectedarea v = HexArea" "nibbles v + k \<le> 2 * length (view_bytes v)"
  shows "\<exists>v1 v2. run_moves env (replicate k (Next sel)) v = Some v1 \<and> nibbles v1 = nibbles v + k \<and>
    run_moves env (replicate k (Previous sel)) v1 = Some v2 \<and> nibbles v2 = nibbles v \<and> view_offset v2 = view_offset v"
proof -
  obtain v1 where v1: "run_moves env (replicate k (Next sel)) v = Some v1" "nibbles v1 = nibbles v + k" "same_text v v1"
    "vw_selectedarea v1 = HexArea" using memory_view.nibbles_forward [OF assms] by blast
  then have "in_document v1" by (simp add: same_text_def)
  from memory_view.nibbles_back [OF assms(1) this v1(4), of k sel]
  obtain v2 where v2: "run_moves env (replicate k (Previous sel)) v1 = Some v2" "nibbles v2 = nibbles v" using v1(2) by auto
  from v2(2) have "view_offset v2 = view_offset v" by (simp add: nibbles_def split: if_splits)
  then show ?thesis using v1(1,2) v2 by blast
qed

text \<open>C27: Typing two lower-case hexadecimal digits with the cursor in front of a byte writes the byte they
spell: at the end or in insert mode it is inserted, in overwrite mode it replaces the byte there, and the
cursor stands behind it.\<close>

theorem type_hex_byte:
  assumes "typing_view env" "in_document v" "vw_selectedarea v = HexArea" "\<not> vw_readonly v" "\<not> hasSelection (vcursor v)"
    and "ps_nibbleindex (cu_position (vcursor v)) \<noteq> 0" "length (view_bytes v) + 2 < 2 ^ 24"
    and "lower_digit k1 x" "lower_digit k2 y"
    and "appends = (view_offset v = length (view_bytes v) \<or> cu_insertionmode (vcursor v) = InsertMode)"
  shows "\<exists>v1 v2. keyPressEvent env (text_event k1) v = Some v1 \<and> keyPressEvent env (text_event k2) v1 = Some v2 \<and>
    view_bytes v2 = (if appends then take (view_offset v) (view_bytes v) @ [of_nat (16 * x + y)] @ drop (view_offset v) (view_bytes v)
      else (view_bytes v)[view_offset v := of_nat (16 * x + y)]) \<and>
    view_offset v2 = view_offset v + 1 \<and> in_document v2"
  using typing_view.type_byte [OF assms] by (auto simp: now_at_def)

lemma of_nat_line:
  assumes "in_document v" "k \<le> length (view_bytes v)"
  shows "unat (of_nat (k div view_width v) :: u64) = k div view_width v"
  by (rule unat_of_nat_u64 [OF div_below]) (use view_cells(7) [OF assms(1)] assms(2) in simp)

text \<open>The down arrow keeps the column even where the last line is shorter: it moves by the line width, and
the cursor leaves the document exactly when there is no byte, nor the end, a line width further on.\<close>

theorem next_line_leaves_document:
  assumes "memory_view env" "in_document v" "ps_line (cu_position (vcursor v)) \<noteq> of_nat (length (view_bytes v) div view_width v)"
  shows "\<exists>v'. next_line env sel v = Some (True, v') \<and> view_offset v' = view_offset v + view_width v \<and>
    (in_document v' \<longleftrightarrow> view_offset v + view_width v \<le> length (view_bytes v))"
proof -
  let ?n = "length (view_bytes v)" and ?w = "view_width v" and ?o = "view_offset v"
  note c = view_cells [OF assms(2)] and l = memory_view.last_line(1) [OF assms(1,2)]
  have d: "(?o + ?w) div ?w = ?o div ?w + 1" "(?o + ?w) mod ?w = ?o mod ?w" using c(4) div_add_self2 [of ?w ?o] by simp_all
  have b: "?o div ?w + 1 < 2 ^ 31"
  proof -
    have "?o div ?w \<le> ?o" by (rule div_le_dividend)
    then have "?o div ?w + 1 \<le> ?o + 1" by simp
    also have "\<dots> < 2 ^ 31" using c(6,7) by simp
    finally show ?thesis .
  qed
  then have b2: "?o div ?w + 1 < 2 ^ 32" by simp
  have line: "scast (ucast (of_nat (?o div ?w) + 1 :: u64) :: cint) = (of_nat ((?o + ?w) div ?w) :: u64)"
    using ucast_of_nat [OF b2] scast_of_nat [OF b] by (simp add: d(1) add.commute)
  have "view_goto sel (scast (ucast (ps_line (cu_position (vcursor v)) + 1 :: u64) :: cint)) (ps_column (cu_position (vcursor v))) 1 v
      = goto_cell sel (?o + ?w) 1 v"
    unfolding goto_cell_def c(1,2) line d(2) ..
  then have nl: "next_line env sel v = Some (True, goto_cell sel (?o + ?w) 1 v)"
    using assms(3) by (simp add: next_line_def l handled_def Let_def)
  have off: "view_offset (goto_cell sel (?o + ?w) 1 v) = ?o + ?w"
  proof -
    let ?dw = "doc_hexlinewidth (vw_document v)"
    have "ps_lineWidth (cu_position (vcursor v)) = ?dw" "0 < ?dw"
      using assms(2) by (auto simp: in_document_def cursor_ok_def pos_ok_def)
    moreover have "?o + ?w < 2 ^ 63" using c(5-7) by simp
    ultimately show ?thesis using set_cells(2) [of "?o + ?w" ?dw]
      by (simp add: view_offset_def goto_cell_def goto_cursor view_width_def)
  qed
  have "in_document (goto_cell sel (?o + ?w) 1 v) \<Longrightarrow> ?o + ?w \<le> ?n"
    using view_cells(6) off by (metis goto_keeps(6) goto_cell_def)
  moreover have "?o + ?w \<le> ?n \<Longrightarrow> in_document (goto_cell sel (?o + ?w) 1 v)" by (rule goto_in_document(1) [OF assms(2)]) simp_all
  ultimately show ?thesis using nl off by blast
qed

lemma documentLines_view:
  assumes "memory_view env" "in_document v"
  shows "documentLines (ve_ops env) (vw_document v) = Some (of_nat (length (view_bytes v) div view_width v + 1))"
  using memory_lines(1) [of "vw_document v"] assms
  by (simp add: in_document_def memory_view_def view_bytes_def view_width_def)

lemma page_small:
  assumes "memory_view env" "in_document v" "visibleLines env v = Some vis"
  shows "unat vis \<le> length (view_bytes v) div view_width v + 1" "unat vis \<le> 2 ^ 24"
proof -
  let ?l = "length (view_bytes v) div view_width v + 1"
  have n: "length (view_bytes v) + 1 < 2 ^ 24" by (rule view_cells(7) [OF assms(2)])
  moreover have "length (view_bytes v) div view_width v \<le> length (view_bytes v)" by (rule div_le_dividend)
  ultimately have l: "?l < 2 ^ 24" by linarith
  then have u: "unat (of_nat ?l :: u64) = ?l" by (intro unat_of_nat_u64) simp
  have "vis \<le> of_nat ?l" using assms(3) documentLines_view [OF assms(1,2)]
    by (auto simp: visibleLines_def Let_def split: if_splits)
  then have "unat vis \<le> unat (of_nat ?l :: u64)" by (simp only: word_le_nat_alt)
  then show "unat vis \<le> ?l" unfolding u .
  with l show "unat vis \<le> 2 ^ 24" by linarith
qed

text \<open>On the first page the page-up key throws the cursor out of the document. When the cursor is not on the
first line and there are fewer lines above it than a page has, the subtraction wraps and the cursor goes to a
line near 2^64.\<close>

theorem page_up_wraps:
  assumes "memory_view env" "in_document v" "visibleLines env v = Some vis" "ps_line (cu_position (vcursor v)) \<noteq> 0"
    and "ps_line (cu_position (vcursor v)) < vis"
  shows "\<exists>v'. previous_page env sel v = Some (True, v') \<and>
    unat (ps_line (cu_position (vcursor v'))) = 2 ^ 64 - (unat vis - view_offset v div view_width v) \<and> \<not> in_document v'"
proof -
  let ?p = "cu_position (vcursor v)"
  let ?v = "view_goto sel (ps_line ?p - vis) (ps_column ?p) 1 v"
  note c = view_cells [OF assms(2)]
  have u: "unat (ps_line ?p) = view_offset v div view_width v" using of_nat_line [OF assms(2) c(6)] c(1) by simp
  have lt: "unat (ps_line ?p) < unat vis" using assms(5) by (simp add: word_less_nat_alt)
  have w: "unat (ps_line ?p - vis) = 2 ^ 64 - (unat vis - unat (ps_line ?p))"
    using lt unsigned_less [of vis] by (simp add: unat_sub_if_size word_size)
  have r: "previous_page env sel v = Some (True, ?v)"
    using assms(3,4) by (simp add: previous_page_def handled_def Let_def)
  have p: "ps_line (cu_position (vcursor ?v)) = ps_line ?p - vis" by (simp add: goto_cursor set_pos_def)
  have "\<not> in_document ?v"
  proof
    assume i: "in_document ?v"
    note ci = view_cells [OF i]
    have "unat (ps_line (cu_position (vcursor ?v))) = view_offset ?v div view_width ?v"
      using of_nat_line [OF i ci(6)] ci(1) by simp
    also have "\<dots> \<le> view_offset ?v" by (rule div_le_dividend)
    also have "\<dots> < 2 ^ 24" using ci(6,7) by simp
    finally have "unat (ps_line ?p - vis) < 2 ^ 24" unfolding p .
    moreover have "unat vis \<le> 2 ^ 24" by (rule page_small(2) [OF assms(1-3)])
    ultimately show False unfolding w using lt by simp
  qed
  then show ?thesis using r p w u by auto
qed


text \<open>A view of a document in memory, with a hundred pixels of height.\<close>

definition std_view :: "(byte list, hex_command list \<times> hex_command list) view_env" where
  "std_view = \<lparr>ve_qt = std_qt, ve_ops = memory_ops std_qt, ve_undo = std_undo, ve_font = std_font, ve_height = 100,
     ve_viewport_width = 400, ve_hexval = (\<lambda>k. case digit_value k of Some n \<Rightarrow> of_nat n | None \<Rightarrow> 0),
     ve_key_right = (text_event 0)\<lparr>ke_matches := (\<lambda>m. m = MoveToNextChar)\<rparr>\<rparr>"

interpretation std_view: typing_view std_view
  by (simp add: typing_view_def memory_view_def typing_view_axioms_def std_view_def std.qbytearray_axioms)

text \<open>Its document of eight bytes, four in a line, and the cursor on the second line, without a selection.\<close>

definition view_doc :: "(byte list, hex_command list \<times> hex_command list, nat) qhexdocument" where
  "view_doc = cut_doc\<lparr>doc_hexlinewidth := 4, doc_buffer := [0x41, 0x42, 0x43, 0x44, 0x45, 0x46],
     doc_cursor := moveTo 1 0 1 (setLineWidth 4 (doc_cursor cut_doc))\<rparr>"

definition std_widget :: "(byte list, hex_command list \<times> hex_command list, nat) hexview" where
  "std_widget = \<lparr>vw_document = view_doc, vw_selectedarea = HexArea, vw_cursorenabled = True, vw_readonly = False,
     vw_blinking = True, vw_ibeam = False, vw_clipboard = []\<rparr>"

lemma std_widget_cursor:
  "vcursor std_widget = moveTo 1 0 1 (setLineWidth 4 (doc_cursor cut_doc))"
  by (simp add: std_widget_def vcursor_def view_doc_def)

lemma std_widget_fields:
  "cu_position (vcursor std_widget) = \<lparr>ps_line = 1, ps_column = 0, ps_lineWidth = 4, ps_nibbleindex = 1\<rparr>"
  "cu_selection (vcursor std_widget) = \<lparr>ps_line = 1, ps_column = 0, ps_lineWidth = 4, ps_nibbleindex = 1\<rparr>"
  "cu_lineWidth (vcursor std_widget) = 4" "cu_insertionmode (vcursor std_widget) = InsertMode"
  "view_bytes std_widget = [0x41, 0x42, 0x43, 0x44, 0x45, 0x46]" "view_width std_widget = 4"
  "vw_selectedarea std_widget = HexArea" "\<not> vw_readonly std_widget" "doc_hexlinewidth (vw_document std_widget) = 4"
  by (simp_all add: std_widget_cursor moveTo_def cursor_select_def setLineWidth_def cut_doc_cursor set_pos_def)
     (simp_all add: std_widget_def view_bytes_def view_width_def view_doc_def)

lemma std_widget_ok:
  "in_document std_widget" "\<not> hasSelection (vcursor std_widget)" "view_offset std_widget = 4"
  using std_widget_fields
  by (simp_all add: in_document_def view_bytes_def cursor_ok_def pos_ok_def hasSelection_def pos_eq_def at_offset_def editableArea_def view_offset_def)


theorem nibble_walk_witness:
  "\<exists>v1 v2. run_moves std_view (replicate 3 (Next False)) std_widget = Some v1 \<and> nibbles v1 = 11 \<and>
    run_moves std_view (replicate 3 (Previous False)) v1 = Some v2 \<and> view_offset v2 = 4"
proof -
  have "nibbles std_widget = 8" by (simp add: nibbles_def std_widget_ok(3) std_widget_fields(1))
  then show ?thesis
    using nibble_walk [OF std_view.memory_view_axioms std_widget_ok(1) std_widget_fields(7), of 3 False] std_widget_fields(5) std_widget_ok(3)
    by auto
qed

theorem type_hex_byte_witness:
  "\<exists>v1 v2. keyPressEvent std_view (text_event 0x37) std_widget = Some v1 \<and> keyPressEvent std_view (text_event 0x65) v1 = Some v2 \<and>
    view_bytes v2 = [0x41, 0x42, 0x43, 0x44, 0x7E, 0x45, 0x46] \<and> view_offset v2 = 5 \<and> in_document v2"
proof -
  have d: "lower_digit 0x37 7" "lower_digit 0x65 14" by (simp_all add: lower_digit_def digit_value_def)
  have n: "ps_nibbleindex (cu_position (vcursor std_widget)) \<noteq> 0" "length (view_bytes std_widget) + 2 < 2 ^ 24"
    using std_widget_fields(1,5) by simp_all
  have a: "True = (view_offset std_widget = length (view_bytes std_widget) \<or> cu_insertionmode (vcursor std_widget) = InsertMode)"
    using std_widget_fields(4) by simp
  have b: "take (view_offset std_widget) (view_bytes std_widget) @ [of_nat (16 * 7 + 14)] @ drop (view_offset std_widget) (view_bytes std_widget) =
      [0x41, 0x42, 0x43, 0x44, 0x7E, 0x45, 0x46]" "view_offset std_widget + 1 = 5"
    by (simp_all add: std_widget_fields(5) std_widget_ok(3) numeral_eq_Suc)
  show ?thesis
    using type_hex_byte [OF std_view.typing_view_axioms std_widget_ok(1) std_widget_fields(7,8) std_widget_ok(2) n d a]
    unfolding if_True b .
qed

theorem next_line_leaves_document_witness:
  "\<exists>v'. next_line std_view False (goto_cell False 3 1 std_widget) = Some (True, v') \<and> view_offset v' = 7 \<and> \<not> in_document v'"
proof -
  have g: "in_document (goto_cell False 3 1 std_widget)" "view_offset (goto_cell False 3 1 std_widget) = 3"
    using goto_in_document [OF std_widget_ok(1), of 3 1 False] std_widget_fields(5) by simp_all
  have k: "view_bytes (goto_cell False 3 1 std_widget) = view_bytes std_widget" "view_width (goto_cell False 3 1 std_widget) = 4"
    using std_widget_fields(6) by (simp_all add: goto_cell_def)
  have "ps_line (cu_position (vcursor (goto_cell False 3 1 std_widget))) = 0" using view_cells(1) [OF g(1)] g(2) k(2) by simp
  then show ?thesis
    using next_line_leaves_document [OF std_view.memory_view_axioms g(1), of False] k g(2) std_widget_fields(5) by auto
qed

text \<open>With more than one line on a page, the second line is enough.\<close>

theorem page_up_wraps_witness:
  "\<exists>v'. previous_page std_view False std_widget = Some (True, v') \<and>
    unat (ps_line (cu_position (vcursor v'))) = 2 ^ 64 - 1 \<and> \<not> in_document v'"
proof -
  have "documentLines (memory_ops std_qt) (vw_document std_widget) = Some 2"
    using documentLines_view [OF std_view.memory_view_axioms std_widget_ok(1)] std_widget_fields(5,6) by (simp add: std_view_def)
  then have "visibleLines std_view std_widget = Some 2"
    by (simp add: visibleLines_def std_view_def std_font_def headerLineCount_def signed_divide_int_def)
  then show ?thesis
    using page_up_wraps [OF std_view.memory_view_axioms std_widget_ok(1), of 2 False] std_widget_fields(1,6) std_widget_ok(3) by simp
qed

end
