(* ===== verification/Hex_Scroll.thy ===== *)
theory Hex_Scroll
  imports Hex_View
begin

text \<open>
  The scroll bars of the hex view (\<open>client/QHexView/qhexview.cpp\<close>): \<open>adjustScrollBars\<close> sets their ranges when
  the document or the widget's size changes, \<open>moveToSelection\<close> follows the cursor. A scroll bar is a parameter,
  \<open>scroll_ops\<close>, with the laws that Qt documents in the locale \<open>scroll_bar\<close>.

  The theorem: after the ranges are set, however the user has scrolled, following the cursor shows its line.
\<close>

section \<open>Scrolling\<close>

text \<open>The operations of a scroll bar of type \<open>'q\<close>; \<open>sc_setVisible\<close> is its policy, always on or always off.\<close>

record 'q scroll_ops =
  sc_value :: "'q \<Rightarrow> cint"
  sc_setValue :: "cint \<Rightarrow> 'q \<Rightarrow> 'q"
  sc_setMaximum :: "cint \<Rightarrow> 'q \<Rightarrow> 'q"
  sc_setSingleStep :: "cint \<Rightarrow> 'q \<Rightarrow> 'q"
  sc_setVisible :: "bool \<Rightarrow> 'q \<Rightarrow> 'q"

definition documentSizeFactor :: "('b, 's) view_env \<Rightarrow> ('b, 's, 'c) hexview \<Rightarrow> cint option" where
  "documentSizeFactor env v = do {
     docLines \<leftarrow> documentLines (ve_ops env) (vw_document v);
     Some (if docLines \<ge> 0x7FFFFFFF then ucast (docLines div 0x7FFFFFFF) + 1 else 1)
   }"

definition firstVisibleLine :: "('b, 's) view_env \<Rightarrow> 'q scroll_ops \<Rightarrow> 'q \<Rightarrow> ('b, 's, 'c) hexview \<Rightarrow> u64 option" where
  "firstVisibleLine env sc q v = do { factor \<leftarrow> documentSizeFactor env v; Some (scast (sc_value sc q) * scast factor) }"

definition lastVisibleLine :: "('b, 's) view_env \<Rightarrow> 'q scroll_ops \<Rightarrow> 'q \<Rightarrow> ('b, 's, 'c) hexview \<Rightarrow> u64 option" where
  "lastVisibleLine env sc q v = do {
     first \<leftarrow> firstVisibleLine env sc q v;
     visible \<leftarrow> visibleLines env v;
     Some (first + visible - 1)
   }"

definition isLineVisible :: "('b, 's) view_env \<Rightarrow> 'q scroll_ops \<Rightarrow> 'q \<Rightarrow> u64 \<Rightarrow> ('b, 's, 'c) hexview \<Rightarrow> bool option" where
  "isLineVisible env sc q line v = do {
     first \<leftarrow> firstVisibleLine env sc q v;
     if line < first then Some False
     else do { last \<leftarrow> lastVisibleLine env sc q v; Some (\<not> line > last) }
   }"

definition moveToSelection :: "('b, 's) view_env \<Rightarrow> 'q scroll_ops \<Rightarrow> ('b, 's, 'c) hexview \<Rightarrow> 'q \<Rightarrow> 'q option" where
  "moveToSelection env sc v q = do {
     let line = ps_line (cu_position (vcursor v));
     shown \<leftarrow> isLineVisible env sc q line v;
     if shown then Some q
     else do {
       visible \<leftarrow> visibleLines env v;
       factor \<leftarrow> documentSizeFactor env v;
       Some (sc_setValue sc (ucast (max 0 (line - visible div 2) div scast factor)) q)
     }
   }"

definition adjust_vertical :: "('b, 's) view_env \<Rightarrow> 'q scroll_ops \<Rightarrow> ('b, 's, 'c) hexview \<Rightarrow> 'q \<Rightarrow> 'q option" where
  "adjust_vertical env sc v q = do {
     sizeFactor \<leftarrow> documentSizeFactor env v;
     let q = sc_setSingleStep sc sizeFactor q;
     docLines \<leftarrow> documentLines (ve_ops env) (vw_document v);
     visLines \<leftarrow> visibleLines env v;
     Some (if docLines > visLines
       then sc_setMaximum sc (ucast ((docLines - visLines) div scast sizeFactor + 1)) (sc_setVisible sc True q)
       else sc_setMaximum sc (ucast docLines) (sc_setValue sc 0 (sc_setVisible sc False q)))
   }"

definition adjust_horizontal :: "('b, 's) view_env \<Rightarrow> 'q scroll_ops \<Rightarrow> ('b, 's, 'c) hexview \<Rightarrow> 'q \<Rightarrow> 'q" where
  "adjust_horizontal env sc v q =
     (let documentWidth = getEndColumnX (ve_font env) (ve_ops env) (vw_document v); viewportWidth = ve_viewport_width env
      in if sint documentWidth > sint viewportWidth
         then sc_setMaximum sc (documentWidth - viewportWidth + 2) (sc_setVisible sc True q)
         else sc_setMaximum sc documentWidth (sc_setValue sc 0 (sc_setVisible sc False q)))"

definition adjustScrollBars :: "('b, 's) view_env \<Rightarrow> 'q scroll_ops \<Rightarrow> ('b, 's, 'c) hexview \<Rightarrow> 'q \<times> 'q \<Rightarrow> ('q \<times> 'q) option" where
  "adjustScrollBars env sc v bars = do {
     vertical \<leftarrow> adjust_vertical env sc v (fst bars);
     Some (vertical, adjust_horizontal env sc v (snd bars))
   }"

text \<open>A wheel turned sideways scrolls three lines; one turned up or down is left to Qt.\<close>

definition wheelEvent :: "'q scroll_ops \<Rightarrow> int \<Rightarrow> int \<Rightarrow> 'q \<Rightarrow> 'q option" where
  "wheelEvent sc dx dy q =
     (if dy = 0 then Some (if dx < 0 then sc_setValue sc (sc_value sc q + 3) q
        else if dx > 0 then sc_setValue sc (sc_value sc q - 3) q else q)
      else None)"

section \<open>Scroll bars\<close>

text \<open>
  What Qt documents of a slider: the value is kept between the minimum and the maximum, and a new maximum
  bounds the value again. \<open>sane\<close> says that the minimum is zero, as it is in a new scroll bar, and the value in range.
\<close>

locale scroll_bar =
  fixes sc :: "'q scroll_ops" and maximum :: "'q \<Rightarrow> cint" and sane :: "'q \<Rightarrow> bool"
  assumes set_value: "sane q \<Longrightarrow> sane (sc_setValue sc x q)"
    "sane q \<Longrightarrow> sint (sc_value sc (sc_setValue sc x q)) = max 0 (min (sint x) (sint (maximum q)))"
    "sane q \<Longrightarrow> maximum (sc_setValue sc x q) = maximum q"
    and set_maximum: "sane q \<Longrightarrow> 0 \<le> sint m \<Longrightarrow> sane (sc_setMaximum sc m q)"
    "sane q \<Longrightarrow> 0 \<le> sint m \<Longrightarrow> maximum (sc_setMaximum sc m q) = m"
    "sane q \<Longrightarrow> 0 \<le> sint m \<Longrightarrow> sint (sc_value sc (sc_setMaximum sc m q)) = min (sint m) (sint (sc_value sc q))"
    and sane_value: "sane q \<Longrightarrow> 0 \<le> sint (sc_value sc q) \<and> sint (sc_value sc q) \<le> sint (maximum q)"
    and others: "sane q \<Longrightarrow> sane (sc_setSingleStep sc m q)" "sane q \<Longrightarrow> sane (sc_setVisible sc b q)"
    "maximum (sc_setSingleStep sc m q) = maximum q" "maximum (sc_setVisible sc b q) = maximum q"
    "sc_value sc (sc_setSingleStep sc m q) = sc_value sc q" "sc_value sc (sc_setVisible sc b q) = sc_value sc q"

text \<open>In a document below 16 MiB the scroll bar counts lines.\<close>

lemma size_factor:
  assumes "memory_view env" "in_document v"
  shows "documentSizeFactor env v = Some 1"
proof -
  let ?l = "length (view_bytes v) div view_width v + 1"
  have "?l < 2 ^ 24 + 1" using view_cells(7) [OF assms(2)] div_le_dividend [of "length (view_bytes v)" "view_width v"] by linarith
  then have "?l < 2 ^ 31 - 1" "unat (of_nat ?l :: u64) = ?l" by (simp, intro unat_of_nat_u64) simp
  then have "\<not> (of_nat ?l :: u64) \<ge> 0x7FFFFFFF" unfolding word_le_nat_alt by simp
  then show ?thesis using documentLines_view [OF assms] by (simp add: documentSizeFactor_def)
qed

text \<open>The number of lines and the lines of a page, of which there is at least one.\<close>

definition page_of :: "('b, 's) view_env \<Rightarrow> (byte list, 's, 'c) hexview \<Rightarrow> nat" where
  "page_of env v = min (nat (sint (ve_height env) sdiv sint (ft_lineHeight (ve_font env)))) (length (view_bytes v) div view_width v + 1)"

lemma view_page:
  assumes "memory_view env" "in_document v" "0 < sint (ft_lineHeight (ve_font env))"
    and "sint (ft_lineHeight (ve_font env)) \<le> sint (ve_height env)"
  shows "visibleLines env v = Some (of_nat (page_of env v))" "0 < page_of env v"
    "page_of env v \<le> length (view_bytes v) div view_width v + 1" "length (view_bytes v) div view_width v + 1 \<le> 2 ^ 24"
proof -
  let ?h = "sint (ve_height env)" and ?lh = "sint (ft_lineHeight (ve_font env))" and ?d = "length (view_bytes v) div view_width v + 1"
  show d: "?d \<le> 2 ^ 24" using view_cells(7) [OF assms(2)] div_le_dividend [of "length (view_bytes v)" "view_width v"] by linarith
  define k where "k = nat (?h div ?lh)"
  have "?h sdiv ?lh = ?h div ?lh" using assms(3,4) by (simp add: signed_divide_int_def)
  moreover have "0 < ?h div ?lh" using assms(3,4) by (simp add: pos_imp_zdiv_pos_iff)
  moreover have "?h div ?lh \<le> ?h" using assms(3,4) zdiv_mono2 [of ?h 1 ?lh] by simp
  moreover have "?h < 2 ^ 31" using sint_lt [of "ve_height env"] by simp
  ultimately have k: "?h sdiv ?lh = int k" "0 < k" "k < 2 ^ 31" by (simp_all add: k_def)
  then have p: "page_of env v = min k ?d" by (simp add: page_of_def)
  show "0 < page_of env v" "page_of env v \<le> ?d" using k(2) by (simp_all add: p)
  have "unat (of_nat k :: u64) = k" "unat (of_nat ?d :: u64) = ?d" using k(3) d by (intro unat_of_nat_u64; simp)+
  then have "min (of_nat k) (of_nat ?d) = (of_nat (min k ?d) :: u64)" 
    by (simp only: min_def word_le_nat_alt if_distrib [of "of_nat :: nat \<Rightarrow> u64"])
  moreover have "scast (word_of_int (int k) - headerLineCount :: cint) = (of_nat k :: u64)"
    using scast_of_nat [OF k(3)] by (simp add: headerLineCount_def)
  moreover have "ft_lineHeight (ve_font env) \<noteq> 0" using assms(3) by auto
  ultimately show "visibleLines env v = Some (of_nat (page_of env v))"
    by (simp add: visibleLines_def documentLines_view [OF assms(1,2)] k(1) p Let_def del: of_nat_Suc of_nat_add)
qed

text \<open>Centering the line of the cursor and bounding the value shows it.\<close>

lemma centered_shown:
  fixes l d p m :: nat
  assumes "l < d" "0 < p" "d + 1 \<le> m + p" "x = max 0 (min (int l - int (p div 2)) (int m))"
  shows "x \<le> int l \<and> int l \<le> x + int p - 1"
  using assms by (simp add: min_def max_def) presburger

lemma sint_cint_of_int: "- (2 ^ 31) \<le> k \<Longrightarrow> k < 2 ^ 31 \<Longrightarrow> sint (word_of_int k :: cint) = k"
  by (simp add: signed_of_int signed_take_bit_int_eq_self)

lemma center_int:
  assumes "l \<le> 2 ^ 24" "p \<le> 2 ^ 24"
  shows "sint (ucast (max 0 (of_nat l - of_nat p div 2 :: u64) div scast (1 :: cint)) :: cint) = int l - int (p div 2)"
proof -
  have "unat (of_nat p :: u64) = p" using assms(2) by (intro unat_of_nat_u64) simp
  then have "unat (of_nat p div 2 :: u64) = p div 2" by (simp add: unat_div_distrib)
  moreover have "unat (of_nat (p div 2) :: u64) = p div 2" using assms(2) by (intro unat_of_nat_u64 div_below) simp
  ultimately have "(of_nat p div 2 :: u64) = of_nat (p div 2)" by (simp only: word_unat_eq_iff)
  then have e: "(of_nat l - of_nat p div 2 :: u64) = word_of_int (int l - int (p div 2))" by simp
  have i: "int l \<le> 16777216" "int p \<le> 16777216" using assms by simp_all
  have "int l - int (p div 2) \<le> int l" "- int p \<le> int l - int (p div 2)" using div_le_dividend [of p 2] by linarith+
  then have "int l - int (p div 2) < 2 ^ 31" "- (2 ^ 31) \<le> int l - int (p div 2)" using i by simp_all
  then have "sint (word_of_int (int l - int (p div 2)) :: cint) = int l - int (p div 2)" by (intro sint_cint_of_int)
  moreover have "(ucast (word_of_int k :: u64) :: cint) = word_of_int k" for k
    by (rule bit_word_eqI) (simp add: bit_simps)
  ultimately show ?thesis unfolding e by (simp del: of_int_diff)
qed

lemma first_visible:
  assumes "memory_view env" "in_document v" "sint (sc_value sc q) = int n"
  shows "firstVisibleLine env sc q v = Some (of_nat n)"
proof -
  have n: "n < 2 ^ 31" using sint_lt [of "sc_value sc q"] assms(3) by simp
  have "sint (sc_value sc q) = sint (of_nat n :: cint)" using assms(3) sint_of_nat_cint [OF n] by simp
  then have "sc_value sc q = of_nat n" by (rule signed_word_eqI)
  then have "scast (sc_value sc q) = (of_nat n :: u64)" using scast_of_nat [OF n] by simp
  then show ?thesis by (simp add: firstVisibleLine_def size_factor [OF assms(1,2)])
qed

lemma shown_iff:
  assumes "memory_view env" "in_document v" "visibleLines env v = Some (of_nat p)" "0 < p" "l \<le> 2 ^ 24" "p \<le> 2 ^ 24"
    and "sint (sc_value sc q) = x" "0 \<le> x"
  shows "isLineVisible env sc q (of_nat l) v = Some (x \<le> int l \<and> int l \<le> x + int p - 1)"
proof -
  define n where "n = nat x"
  have x: "x = int n" using assms(8) by (simp add: n_def)
  have n: "n < 2 ^ 31" using sint_lt [of "sc_value sc q"] assms(7) x by simp
  have f: "firstVisibleLine env sc q v = Some (of_nat n)"
    using assms(7) x by (intro first_visible [OF assms(1,2)]) simp
  define k where "k = n + p - 1"
  have k: "int k = x + int p - 1" using assms(4) by (simp add: k_def x)
  have "of_nat n + of_nat p - 1 = (of_nat k :: u64)" using assms(4) by (simp add: of_nat_diff k_def)
  then have la: "lastVisibleLine env sc q v = Some (of_nat k)"
    by (simp add: lastVisibleLine_def f assms(3))
  have u: "unat (of_nat n :: u64) = n" "unat (of_nat l :: u64) = l" "unat (of_nat k :: u64) = k"
    using n assms(5,6) by (intro unat_of_nat_u64; simp add: k_def)+
  show ?thesis using k unfolding x by (simp add: isLineVisible_def f la word_less_nat_alt u not_less) linarith
qed

text \<open>The range lets the last line be seen.\<close>

lemma adjust_range:
  assumes "memory_view env" "in_document v" "scroll_bar sc maximum sane" "sane q"
    and "0 < sint (ft_lineHeight (ve_font env))" "sint (ft_lineHeight (ve_font env)) \<le> sint (ve_height env)"
  shows "\<exists>q1 m. adjust_vertical env sc v q = Some q1 \<and> sane q1 \<and> sint (maximum q1) = int m \<and>
    length (view_bytes v) div view_width v + 1 + 1 \<le> m + page_of env v"
proof -
  let ?d = "length (view_bytes v) div view_width v + 1" and ?p = "page_of env v"
  note pg = view_page [OF assms(1,2,5,6)] and sb = assms(3)
  note law = scroll_bar.set_value [OF sb] scroll_bar.set_maximum [OF sb] scroll_bar.others [OF sb]
  have u: "unat (of_nat ?p :: u64) = ?p" "unat (of_nat ?d :: u64) = ?d" using pg(3,4) by (auto intro!: unat_of_nat_u64 simp del: of_nat_Suc of_nat_add)
  have b: "?d - ?p + 1 < 2 ^ 31" "?d < 2 ^ 31" "?d - ?p + 1 < 2 ^ 32" "?d < 2 ^ 32" using pg(4) by simp_all
  have gt: "(of_nat ?d :: u64) > of_nat ?p \<longleftrightarrow> ?d > ?p" by (simp only: word_less_nat_alt u)
  have diff: "(of_nat ?d - of_nat ?p :: u64) div scast (1 :: cint) + 1 = of_nat (?d - ?p + 1)"
    using pg(3) by (simp add: of_nat_diff)
  have s: "sint (of_nat (?d - ?p + 1) :: cint) = int (?d - ?p + 1)" "sint (of_nat ?d :: cint) = int ?d"
    by (rule sint_of_nat_cint [OF b(1)] sint_of_nat_cint [OF b(2)])+
  let ?q = "sc_setSingleStep sc 1 q"
  have adj: "adjust_vertical env sc v q = Some (if ?d > ?p
      then sc_setMaximum sc (of_nat (?d - ?p + 1)) (sc_setVisible sc True ?q)
      else sc_setMaximum sc (of_nat ?d) (sc_setValue sc 0 (sc_setVisible sc False ?q)))"
    unfolding adjust_vertical_def size_factor [OF assms(1,2)] documentLines_view [OF assms(1,2)] pg(1)
      bind.bind_lunit Let_def gt diff ucast_of_nat [OF b(3)] ucast_of_nat [OF b(4)] ..
  show ?thesis
  proof (cases "?d > ?p")
    case True
    moreover have "sane (sc_setMaximum sc (of_nat (?d - ?p + 1)) (sc_setVisible sc True ?q))"
      "sint (maximum (sc_setMaximum sc (of_nat (?d - ?p + 1)) (sc_setVisible sc True ?q))) = int (?d - ?p + 1)"
      using law assms(4) s(1) by simp_all
    ultimately show ?thesis using adj by (intro exI [of _ "?d - ?p + 1"] exI conjI) auto
  next
    case False
    moreover have "sane (sc_setMaximum sc (of_nat ?d) (sc_setValue sc 0 (sc_setVisible sc False ?q)))"
      "sint (maximum (sc_setMaximum sc (of_nat ?d) (sc_setValue sc 0 (sc_setVisible sc False ?q)))) = int ?d"
      using law assms(4) s(2) by simp_all
    ultimately show ?thesis using adj pg(2) by (intro exI [of _ "?d"] exI conjI) auto
  qed
qed

section \<open>Properties\<close>

text \<open>C29: The line of the cursor can always be seen. In a document below 16 MiB, in a widget at least one line
high, after the range of the vertical scroll bar is set and whatever the user then scrolls to, following the
cursor succeeds and the cursor's line is one of the visible lines.\<close>

theorem cursor_scrolled_into_view:
  assumes "memory_view env" "in_document v" "scroll_bar sc maximum sane" "sane q"
    and "0 < sint (ft_lineHeight (ve_font env))" "sint (ft_lineHeight (ve_font env)) \<le> sint (ve_height env)"
  shows "\<exists>q1. adjust_vertical env sc v q = Some q1 \<and>
    (\<forall>x. \<exists>q2. moveToSelection env sc v (sc_setValue sc x q1) = Some q2 \<and>
      isLineVisible env sc q2 (ps_line (cu_position (vcursor v))) v = Some True)"
proof -
  let ?l = "view_offset v div view_width v" and ?d = "length (view_bytes v) div view_width v + 1" and ?p = "page_of env v"
  note c = view_cells [OF assms(2)] and pg = view_page [OF assms(1,2,5,6)] and sb = assms(3)
  note law = scroll_bar.set_value [OF sb] scroll_bar.set_maximum [OF sb] scroll_bar.others [OF sb]
  have l: "?l < ?d" using div_le_mono [OF c(6), of "view_width v"] by linarith
  have small: "?l \<le> 2 ^ 24" "?p \<le> 2 ^ 24" using l pg(3,4) by linarith+
  obtain q1 m where q1: "adjust_vertical env sc v q = Some q1" "sane q1" "sint (maximum q1) = int m" "?d + 1 \<le> m + ?p"
    using adjust_range [OF assms] by blast
  have "\<exists>q2. moveToSelection env sc v (sc_setValue sc x q1) = Some q2 \<and> isLineVisible env sc q2 (of_nat ?l) v = Some True" for x
  proof -
    let ?q = "sc_setValue sc x q1" and ?pos = "ucast (max 0 (of_nat ?l - of_nat ?p div 2 :: u64) div scast (1 :: cint)) :: cint"
    have s: "sane ?q" "0 \<le> sint (sc_value sc ?q)" "maximum ?q = maximum q1"
      using law(1,3) [OF q1(2)] scroll_bar.sane_value [OF sb] by blast+
    have sh: "isLineVisible env sc q' (of_nat ?l) v = Some (sint (sc_value sc q') \<le> int ?l \<and> int ?l \<le> sint (sc_value sc q') + int ?p - 1)"
      if "sane q'" for q'
      using scroll_bar.sane_value [OF sb that] by (intro shown_iff [OF assms(1,2) pg(1,2) small refl]) simp
    show ?thesis
    proof (cases "isLineVisible env sc ?q (of_nat ?l) v = Some True")
      case True
      then show ?thesis by (simp add: moveToSelection_def c(1))
    next
      case False
      then have "isLineVisible env sc ?q (of_nat ?l) v = Some False" using sh [OF s(1)] by auto
      then have "moveToSelection env sc v ?q = Some (sc_setValue sc ?pos ?q)"
        by (simp add: moveToSelection_def c(1) pg(1) size_factor [OF assms(1,2)] del: max_0L)
      moreover have "sint (sc_value sc (sc_setValue sc ?pos ?q)) = max 0 (min (int ?l - int (?p div 2)) (int m))"
        using law(2) [OF s(1)] center_int [OF small] s(3) q1(3) by simp
      then have "isLineVisible env sc (sc_setValue sc ?pos ?q) (of_nat ?l) v = Some True"
        using sh [OF law(1) [OF s(1)]] centered_shown [OF l pg(2) q1(4) refl] by metis
      ultimately show ?thesis by blast
    qed
  qed
  then show ?thesis using q1(1) by (simp add: c(1)) 
qed

text \<open>A scroll bar as Qt has it.\<close>

record bar =
  br_value :: cint
  br_minimum :: cint
  br_maximum :: cint
  br_step :: cint
  br_visible :: bool

definition bounded :: "cint \<Rightarrow> cint \<Rightarrow> cint \<Rightarrow> cint" where
  "bounded lo hi x = word_of_int (max (sint lo) (min (sint hi) (sint x)))"

definition std_bar :: "bar scroll_ops" where
  "std_bar = \<lparr>sc_value = br_value,
     sc_setValue = (\<lambda>x q. q\<lparr>br_value := bounded (br_minimum q) (br_maximum q) x\<rparr>),
     sc_setMaximum = (\<lambda>m q. let lo = (if sint m < sint (br_minimum q) then m else br_minimum q)
       in q\<lparr>br_minimum := lo, br_maximum := m, br_value := bounded lo m (br_value q)\<rparr>),
     sc_setSingleStep = (\<lambda>n q. q\<lparr>br_step := n\<rparr>), sc_setVisible = (\<lambda>b q. q\<lparr>br_visible := b\<rparr>)\<rparr>"

definition bar_ok :: "bar \<Rightarrow> bool" where
  "bar_ok q \<longleftrightarrow> br_minimum q = 0 \<and> 0 \<le> sint (br_value q) \<and> sint (br_value q) \<le> sint (br_maximum q)"

lemma sint_bounded: "sint (bounded lo hi x) = max (sint lo) (min (sint hi) (sint x))"
proof -
  have r: "- (2 ^ 31) \<le> sint y \<and> sint y < 2 ^ 31" for y :: cint using sint_lt [of y] sint_ge [of y] by simp
  show ?thesis using sint_cint_of_int r [of lo] r [of hi] r [of x] by (simp add: bounded_def min_def max_def)
qed

interpretation std_bar: scroll_bar std_bar br_maximum bar_ok
  by unfold_locales (auto simp: std_bar_def bar_ok_def sint_bounded Let_def)

theorem cursor_scrolled_into_view_witness:
  "\<exists>q1. adjust_vertical std_view std_bar std_widget \<lparr>br_value = 0, br_minimum = 0, br_maximum = 99, br_step = 1, br_visible = False\<rparr> = Some q1 \<and>
    (\<forall>x. \<exists>q2. moveToSelection std_view std_bar std_widget (sc_setValue std_bar x q1) = Some q2 \<and>
      isLineVisible std_view std_bar q2 1 std_widget = Some True)"
proof -
  have "bar_ok \<lparr>br_value = 0, br_minimum = 0, br_maximum = 99, br_step = 1, br_visible = False\<rparr>" by (simp add: bar_ok_def)
  moreover have "0 < sint (ft_lineHeight (ve_font std_view))" "sint (ft_lineHeight (ve_font std_view)) \<le> sint (ve_height std_view)"
    by (simp_all add: std_view_def std_font_def)
  ultimately show ?thesis
    using cursor_scrolled_into_view [OF std_view.memory_view_axioms std_widget_ok(1) std_bar.scroll_bar_axioms]
    by (simp add: std_widget_fields(1))
qed

end
