(* ===== verification/Hex_Paint.thy ===== *)
theory Hex_Paint
  imports Hex_Scroll
begin

text \<open>
  Painting of the hex view (\<open>client/QHexView/document/qhexrenderer.cpp\<close>, \<open>paintEvent\<close> of
  \<open>client/QHexView/qhexview.cpp\<close>): which lines are drawn where, and which character of a line gets which format.

  The text of a line and its cursor (\<open>QTextDocument\<close>, \<open>QTextCursor\<close>) are a parameter, \<open>text_ops\<close>, with what Qt documents
  for a text of one line in the locale \<open>text_cursor\<close>; so are the colours of the palette and the texts of numbers. The
  strokes of the painter are not modelled: a drawn line is its rectangles, texts and formats.

  The theorems: a byte of a line is drawn with its digits and its printable form, formatted by its value, by the metadata
  that cover it, by the selection and by the cursor; and a repaint draws the line at every height of the exposed rectangle.
\<close>

section \<open>Texts and colours\<close>

text \<open>What a \<open>QTextCharFormat\<close> sets here.\<close>

record 'c char_format =
  cf_foreground :: "'c option"
  cf_background :: "'c option"
  cf_underline :: bool

definition plain_format :: "'c char_format" where
  "plain_format = \<lparr>cf_foreground = None, cf_background = None, cf_underline = False\<rparr>"

text \<open>The first argument of the moves says whether the anchor is kept.\<close>

record ('t, 'c) text_ops =
  tc_new :: 't
  tc_insertText :: "byte list \<Rightarrow> 't \<Rightarrow> 't"
  tc_setPosition :: "cint \<Rightarrow> 't \<Rightarrow> 't"
  tc_right :: "bool \<Rightarrow> cint \<Rightarrow> 't \<Rightarrow> 't"
  tc_left :: "bool \<Rightarrow> cint \<Rightarrow> 't \<Rightarrow> 't"
  tc_endOfLine :: "bool \<Rightarrow> 't \<Rightarrow> 't"
  tc_clearSelection :: "'t \<Rightarrow> 't"
  tc_setCharFormat :: "'c char_format \<Rightarrow> 't \<Rightarrow> 't"

text \<open>The colours of the palette, and what the code asks of a colour.\<close>

record 'c palette =
  pl_highlight :: 'c
  pl_highlightedText :: 'c
  pl_window :: 'c
  pl_windowText :: 'c
  co_isValid :: "'c \<Rightarrow> bool"
  co_lightness :: "'c \<Rightarrow> int"
  co_black :: 'c
  co_gray :: 'c
  co_darker :: "'c \<Rightarrow> 'c"
  co_lighter :: "int \<Rightarrow> 'c \<Rightarrow> 'c"

section \<open>The styles\<close>

definition basic_format :: "'c palette \<Rightarrow> 'c char_format" where
  "basic_format pl =
     (let color = pl_windowText pl;
          color = (if co_lightness pl color < 50 then if color = co_black pl then co_gray pl else co_darker pl color
            else co_lighter pl 150 color)
      in plain_format\<lparr>cf_foreground := Some color\<rparr>)"

fun basic_loop :: "('t, 'c) text_ops \<Rightarrow> 'c char_format \<Rightarrow> cint \<Rightarrow> byte list \<Rightarrow> nat \<Rightarrow> 't \<Rightarrow> 't" where
  "basic_loop tc f factor [] i t = t"
| "basic_loop tc f factor (b # bs) i t =
     basic_loop tc f factor bs (Suc i)
       (if b \<noteq> 0 \<and> b \<noteq> 0xFF then t
        else tc_setCharFormat tc f (tc_right tc True factor (tc_setPosition tc (of_nat i * factor) t)))"

definition applyBasicStyle :: "('t, 'c) text_ops \<Rightarrow> 'c palette \<Rightarrow> byte list \<Rightarrow> cint \<Rightarrow> 't \<Rightarrow> 't" where
  "applyBasicStyle tc pl rawline factor t = basic_loop tc (basic_format pl) factor rawline 0 t"

definition item_format :: "'c palette \<Rightarrow> 'c metadata_item \<Rightarrow> 'c char_format" where
  "item_format pl mi =
     \<lparr>cf_foreground = (if co_isValid pl (mi_foreground mi) then Some (mi_foreground mi) else None),
      cf_background = (if co_isValid pl (mi_background mi) then Some (mi_background mi) else None),
      cf_underline = (mi_comment mi \<noteq> [])\<rparr>"

definition apply_item :: "('t, 'c) text_ops \<Rightarrow> 'c palette \<Rightarrow> cint \<Rightarrow> 'c metadata_item \<Rightarrow> 't \<Rightarrow> 't" where
  "apply_item tc pl factor mi t =
     tc_setCharFormat tc (item_format pl mi)
       (tc_right tc True (mi_length mi * factor - (if sint factor > 1 then 1 else 0)) (tc_setPosition tc (mi_start mi * factor) t))"

definition applyMetadata :: "('t, 'c) text_ops \<Rightarrow> 'c palette \<Rightarrow> 'c qhexmetadata \<Rightarrow> u64 \<Rightarrow> cint \<Rightarrow> 't \<Rightarrow> 't option" where
  "applyMetadata tc pl m line factor t =
     (if \<not> hasMetadata m line then Some t
      else do { linemetadata \<leftarrow> metadata_get m line; Some (fold (apply_item tc pl factor) linemetadata t) })"

definition selection_format :: "'c palette \<Rightarrow> 'c char_format" where
  "selection_format pl = plain_format\<lparr>cf_background := Some (pl_highlight pl), cf_foreground := Some (pl_highlightedText pl)\<rparr>"

definition applySelection :: "('t, 'c) text_ops \<Rightarrow> 'c palette \<Rightarrow> qhexcursor \<Rightarrow> u64 \<Rightarrow> cint \<Rightarrow> 't \<Rightarrow> 't" where
  "applySelection tc pl cursor line factor t =
     (if \<not> isLineSelected cursor line then t
      else let startsel = selectionStart cursor; endsel = selectionEnd cursor;
               t = (if ps_line startsel = ps_line endsel
                 then tc_right tc True ((ps_column endsel - ps_column startsel + 1) * factor) (tc_setPosition tc (ps_column startsel * factor) t)
                 else let t = (if line = ps_line startsel then tc_setPosition tc (ps_column startsel * factor) t else tc_setPosition tc 0 t)
                      in if line = ps_line endsel then tc_right tc True ((ps_column endsel + 1) * factor) t else tc_endOfLine tc True t);
               t = (if factor = 3 then tc_left tc True 1 t else t)
           in tc_setCharFormat tc (selection_format pl) t)"

text \<open>The format of the cursor in the column of an area.\<close>

definition cursor_format :: "'c palette \<Rightarrow> qhexcursor \<Rightarrow> bool \<Rightarrow> 'c char_format" where
  "cursor_format pl cursor selected =
     (if cu_insertionmode cursor = OverwriteMode \<or> \<not> selected
      then plain_format\<lparr>cf_foreground := Some (pl_window pl),
        cf_background := Some (if selected then pl_windowText pl else co_lighter pl 250 (pl_windowText pl))\<rparr>
      else plain_format\<lparr>cf_underline := True\<rparr>)"

definition applyCursorAscii :: "('t, 'c) text_ops \<Rightarrow> 'c palette \<Rightarrow> ('b, 's, 'c) hexview \<Rightarrow> u64 \<Rightarrow> 't \<Rightarrow> 't" where
  "applyCursorAscii tc pl v line t =
     (let cursor = vcursor v in
      if line \<noteq> ps_line (cu_position cursor) \<or> \<not> vw_cursorenabled v then t
      else tc_setCharFormat tc (cursor_format pl cursor (vw_selectedarea v = AsciiArea))
        (tc_right tc True 1 (tc_setPosition tc (ps_column (cu_position cursor)) (tc_clearSelection tc t))))"

definition applyCursorHex :: "('t, 'c) text_ops \<Rightarrow> 'c palette \<Rightarrow> ('b, 's, 'c) hexview \<Rightarrow> u64 \<Rightarrow> 't \<Rightarrow> 't" where
  "applyCursorHex tc pl v line t =
     (let cursor = vcursor v in
      if line \<noteq> ps_line (cu_position cursor) \<or> \<not> vw_cursorenabled v then t
      else let t = tc_setPosition tc (ps_column (cu_position cursor) * 3) (tc_clearSelection tc t);
               t = (if vw_selectedarea v = HexArea \<and> ps_nibbleindex (cu_position cursor) = 0 then tc_right tc False 1 t else t);
               t = tc_right tc True 1 t;
               t = (if vw_selectedarea v = AsciiArea then tc_right tc True 1 t else t)
           in tc_setCharFormat tc (cursor_format pl cursor (vw_selectedarea v = HexArea)) t)"

section \<open>Lines\<close>

text \<open>The text of a column; the last line of the document has room for the next byte.\<close>

definition line_text :: "('t, 'c) text_ops \<Rightarrow> bool \<Rightarrow> byte list \<Rightarrow> 't" where
  "line_text tc isLast bs =
     (let t = tc_insertText tc bs (tc_new tc) in if isLast then tc_insertText tc [0x20] t else t)"

definition drawHex :: "('t, 'c) text_ops \<Rightarrow> 'c palette \<Rightarrow> ('b, 's) view_env \<Rightarrow> u64 \<Rightarrow> ('b, 's, 'c) hexview \<Rightarrow>
    ('t \<times> ('b, 's, 'c) hexview) option" where
  "drawHex tc pl env line v = do {
     let ((text, rawline), doc) = hexString (ve_qt env) (ve_ops env) line (vw_document v);
     let v = v\<lparr>vw_document := doc\<rparr>;
     lastLine \<leftarrow> documentLastLine (ve_ops env) doc;
     let t = applyBasicStyle tc pl rawline 3 (line_text tc (line = lastLine) text);
     t \<leftarrow> applyMetadata tc pl (doc_metadata doc) line 3 t;
     Some (applyCursorHex tc pl v line (applySelection tc pl (vcursor v) line 3 t), v)
   }"

definition drawAscii :: "('t, 'c) text_ops \<Rightarrow> 'c palette \<Rightarrow> ('b, 's) view_env \<Rightarrow> u64 \<Rightarrow> ('b, 's, 'c) hexview \<Rightarrow>
    ('t \<times> ('b, 's, 'c) hexview) option" where
  "drawAscii tc pl env line v = do {
     let ((text, rawline), doc) = asciiString (ve_ops env) line (vw_document v);
     let v = v\<lparr>vw_document := doc\<rparr>;
     lastLine \<leftarrow> documentLastLine (ve_ops env) doc;
     let t = applyBasicStyle tc pl rawline 1 (line_text tc (line = lastLine) text);
     t \<leftarrow> applyMetadata tc pl (doc_metadata doc) line 1 t;
     Some (applyCursorAscii tc pl v line (applySelection tc pl (vcursor v) line 1 t), v)
   }"

text \<open>\<open>nt_number\<close> is \<open>QString::number( n, 16 )\<close>, \<open>nt_justified\<close> is \<open>rightJustified\<close> with the digit zero.\<close>

record number_ops =
  nt_number :: "u64 \<Rightarrow> string"
  nt_justified :: "cint \<Rightarrow> string \<Rightarrow> string"
  nt_upper :: "string \<Rightarrow> string"

definition address_text :: "number_ops \<Rightarrow> 'b hex_ops \<Rightarrow> u64 \<Rightarrow> ('b, 's, 'c) qhexdocument \<Rightarrow> string" where
  "address_text nt ops line doc =
     (let addr = line * scast (hexLineWidth doc) + doc_baseaddress doc
      in nt_upper nt (nt_justified nt (getAddressWidth ops doc) (nt_number nt addr)))"

text \<open>
  A drawn line: its rectangle (left, top, width, height), whether it has the darker background of the odd lines, its
  address, and the left edge and the text of both columns.
\<close>

record 't drawn_line =
  dl_rect :: "cint \<times> cint \<times> cint \<times> cint"
  dl_odd :: bool
  dl_address :: string
  dl_hex :: "cint \<times> 't"
  dl_ascii :: "cint \<times> 't"

definition draw_line :: "('t, 'c) text_ops \<Rightarrow> 'c palette \<Rightarrow> number_ops \<Rightarrow> ('b, 's) view_env \<Rightarrow> u64 \<Rightarrow> u64 \<Rightarrow> ('b, 's, 'c) hexview \<Rightarrow>
    ('t drawn_line \<times> ('b, 's, 'c) hexview) option" where
  "draw_line tc pl nt env firstline line v = do {
     let ft = ve_font env;
     let ops = ve_ops env;
     let doc = vw_document v;
     (hex, v) \<leftarrow> drawHex tc pl env line v;
     (ascii, v) \<leftarrow> drawAscii tc pl env line v;
     Some (\<lparr>dl_rect = getLineRect ft ops line firstline doc, dl_odd = (line mod 2 \<noteq> 0), dl_address = address_text nt ops line doc,
       dl_hex = (getHexColumnX ft ops doc + borderSize ft doc, hex), dl_ascii = (getAsciiColumnX ft ops doc + borderSize ft doc, ascii)\<rparr>, v)
   }"

fun render_loop :: "('t, 'c) text_ops \<Rightarrow> 'c palette \<Rightarrow> number_ops \<Rightarrow> ('b, 's) view_env \<Rightarrow> u64 \<Rightarrow> nat \<Rightarrow> u64 \<Rightarrow> ('b, 's, 'c) hexview \<Rightarrow>
    ((u64 \<times> 't drawn_line) list \<times> ('b, 's, 'c) hexview) option" where
  "render_loop tc pl nt env firstline 0 line v = Some ([], v)"
| "render_loop tc pl nt env firstline (Suc n) line v = do {
     (d, v) \<leftarrow> draw_line tc pl nt env firstline line v;
     (ds, v) \<leftarrow> render_loop tc pl nt env firstline n (line + 1) v;
     Some ((line, d) # ds, v)
   }"

text \<open>The number of rounds is that of the loop from \<open>begin\<close> to the smaller of the two ends.\<close>

definition render :: "('t, 'c) text_ops \<Rightarrow> 'c palette \<Rightarrow> number_ops \<Rightarrow> ('b, 's) view_env \<Rightarrow> u64 \<Rightarrow> u64 \<Rightarrow> u64 \<Rightarrow> ('b, 's, 'c) hexview \<Rightarrow>
    ((u64 \<times> 't drawn_line) list \<times> ('b, 's, 'c) hexview) option" where
  "render tc pl nt env first_line end_line firstline v =
     (if sint (ho_length (ve_ops env) (doc_buffer (vw_document v))) > 0
      then do {
        lines \<leftarrow> documentLines (ve_ops env) (vw_document v);
        render_loop tc pl nt env firstline (unat (min end_line lines) - unat first_line) first_line v
      } else Some ([], v))"

text \<open>\<open>rtop\<close> and \<open>rbottom\<close> are the top and bottom of the exposed rectangle; a line height of zero is a division by zero.\<close>

definition paintEvent :: "('t, 'c) text_ops \<Rightarrow> 'c palette \<Rightarrow> number_ops \<Rightarrow> ('b, 's) view_env \<Rightarrow> 'q scroll_ops \<Rightarrow> 'q \<Rightarrow> cint \<Rightarrow> cint \<Rightarrow>
    ('b, 's, 'c) hexview \<Rightarrow> ((u64 \<times> 't drawn_line) list \<times> ('b, 's, 'c) hexview) option" where
  "paintEvent tc pl nt env sc q rtop rbottom v = do {
     firstVisible \<leftarrow> firstVisibleLine env sc q v;
     let lineHeight = ft_lineHeight (ve_font env);
     if lineHeight = 0 then None
     else do {
       let first = (word_of_int (sint rtop sdiv sint lineHeight) :: cint);
       let lastPlusOne = (word_of_int (sint rbottom sdiv sint lineHeight) :: cint) + 1;
       let first_line = firstVisible + scast (if sint (first - headerLineCount) < 0 then 0 else first - headerLineCount);
       let end_line = firstVisible + scast (if sint (lastPlusOne - headerLineCount) < 0 then 0 else lastPlusOne - headerLineCount);
       render tc pl nt env first_line end_line firstVisible v
     }
   }"

section \<open>The cursor of a text\<close>

text \<open>A range of characters with their formats gets a format.\<close>

definition paint :: "nat \<Rightarrow> nat \<Rightarrow> 'f \<Rightarrow> (byte \<times> 'f) list \<Rightarrow> (byte \<times> 'f) list" where
  "paint lo hi f cs = map (\<lambda>i. (fst (cs ! i), if lo \<le> i \<and> i < hi then f else snd (cs ! i))) [0..<length cs]"

lemma paint_nth [simp]:
  "length (paint lo hi f cs) = length cs"
  "i < length cs \<Longrightarrow> paint lo hi f cs ! i = (fst (cs ! i), if lo \<le> i \<and> i < hi then f else snd (cs ! i))"
  by (simp_all add: paint_def)

text \<open>
  The characters with their formats, the position and the anchor. The laws are for a text of one line: what is
  inserted has printable characters only, and positions lie in the text.
\<close>

locale text_cursor =
  fixes tc :: "('t, 'c) text_ops" and tx :: "'t \<Rightarrow> (byte \<times> 'c char_format) list" and pos an :: "'t \<Rightarrow> nat"
  assumes new: "tx (tc_new tc) = []" "pos (tc_new tc) = 0" "an (tc_new tc) = 0"
    and insertText: "pos t = length (tx t) \<Longrightarrow> an t = pos t \<Longrightarrow> \<forall>c \<in> set (tx t). snd c = plain_format \<Longrightarrow>
        \<forall>b \<in> set bs. 0x20 \<le> b \<and> b \<le> 0x7E \<Longrightarrow>
      tx (tc_insertText tc bs t) = tx t @ map (\<lambda>b. (b, plain_format)) bs \<and>
      pos (tc_insertText tc bs t) = length (tx t) + length bs \<and> an (tc_insertText tc bs t) = length (tx t) + length bs"
    and setPosition: "k \<le> length (tx t) \<Longrightarrow> k < 2 ^ 31 \<Longrightarrow>
      tx (tc_setPosition tc (of_nat k) t) = tx t \<and> pos (tc_setPosition tc (of_nat k) t) = k \<and> an (tc_setPosition tc (of_nat k) t) = k"
    and right: "k < 2 ^ 31 \<Longrightarrow> tx (tc_right tc keep (of_nat k) t) = tx t \<and> pos (tc_right tc keep (of_nat k) t) = min (length (tx t)) (pos t + k) \<and>
      an (tc_right tc keep (of_nat k) t) = (if keep then an t else min (length (tx t)) (pos t + k))"
    and left: "k < 2 ^ 31 \<Longrightarrow> tx (tc_left tc keep (of_nat k) t) = tx t \<and> pos (tc_left tc keep (of_nat k) t) = pos t - k \<and>
      an (tc_left tc keep (of_nat k) t) = (if keep then an t else pos t - k)"
    and endOfLine: "tx (tc_endOfLine tc keep t) = tx t \<and> pos (tc_endOfLine tc keep t) = length (tx t) \<and>
      an (tc_endOfLine tc keep t) = (if keep then an t else length (tx t))"
    and clearSelection: "tx (tc_clearSelection tc t) = tx t \<and> pos (tc_clearSelection tc t) = pos t \<and> an (tc_clearSelection tc t) = pos t"
    and setCharFormat: "tx (tc_setCharFormat tc f t) = paint (min (an t) (pos t)) (max (an t) (pos t)) f (tx t) \<and>
      pos (tc_setCharFormat tc f t) = pos t \<and> an (tc_setCharFormat tc f t) = an t"

text \<open>The digits of byte \<open>j\<close> are the characters \<open>F * j + r\<close> for \<open>r < D\<close>.\<close>

definition column_ok :: "nat \<Rightarrow> nat \<Rightarrow> bool" where
  "column_ok F D \<longleftrightarrow> (F = 3 \<and> D = 2) \<or> (F = 1 \<and> D = 1)"

lemma column_sint: "column_ok F D \<Longrightarrow> sint (of_nat F :: cint) = int F"
  by (auto simp: column_ok_def)

text \<open>Whether a span of bytes, with the last character of the last one left out, has a character of a byte.\<close>

lemma in_span:
  assumes "column_ok F D" "r < D" "j < n" "F * n \<le> len"
  shows "F * a \<le> F * j + r \<and> F * j + r < min len (F * b) - (if F = 3 then 1 else 0) \<longleftrightarrow> a \<le> j \<and> j < b"
  using assms by (auto simp: column_ok_def)

lemma span_to_end:
  assumes "column_ok F D" "r < D" "j < n" "F * n \<le> len"
  shows "F * a \<le> F * j + r \<and> F * j + r < len - (if F = 3 then 1 else 0) \<longleftrightarrow> a \<le> j"
  using assms by (auto simp: column_ok_def)

definition dim :: "byte \<Rightarrow> bool" where "dim b \<longleftrightarrow> b = 0 \<or> b = 0xFF"

definition item_covers :: "nat \<Rightarrow> 'c metadata_item \<Rightarrow> bool" where
  "item_covers j mi \<longleftrightarrow> unat (mi_start mi) \<le> j \<and> j < unat (mi_start mi) + unat (mi_length mi)"

text \<open>The format of a byte in a line before the selection.\<close>

definition item_formats :: "'c palette \<Rightarrow> nat \<Rightarrow> 'c metadata_item list \<Rightarrow> 'c char_format \<Rightarrow> 'c char_format" where
  "item_formats pl j items f = fold (\<lambda>mi f. if item_covers j mi then item_format pl mi else f) items f"

text \<open>An item lies in a line of \<open>w\<close> bytes and does not start behind the \<open>n\<close> bytes that are there.\<close>

definition item_fits :: "nat \<Rightarrow> nat \<Rightarrow> 'c metadata_item \<Rightarrow> bool" where
  "item_fits w n mi \<longleftrightarrow> 0 < unat (mi_length mi) \<and> unat (mi_start mi) + unat (mi_length mi) \<le> w \<and> unat (mi_start mi) \<le> n"

text \<open>The characters keep; \<open>f j\<close> is the format of the digits of byte \<open>j\<close>.\<close>

definition styled :: "nat \<Rightarrow> nat \<Rightarrow> nat \<Rightarrow> byte list \<Rightarrow> (nat \<Rightarrow> 'f) \<Rightarrow> (byte \<times> 'f) list \<Rightarrow> bool" where
  "styled F D n bs f cs \<longleftrightarrow> map fst cs = bs \<and> F * n \<le> length cs \<and> (\<forall>j < n. \<forall>r < D. snd (cs ! (F * j + r)) = f j)"

lemma map_fst_paint [simp]: "map fst (paint lo hi f cs) = map fst cs"
  by (rule nth_equalityI) simp_all

lemma digit_below: "column_ok F D \<Longrightarrow> j < n \<Longrightarrow> r < D \<Longrightarrow> F * n \<le> len \<Longrightarrow> F * j + r < len"
  by (auto simp: column_ok_def)

lemma styled_paint:
  assumes "styled F D n bs f cs" "column_ok F D"
    and "\<And>j r. j < n \<Longrightarrow> r < D \<Longrightarrow> lo \<le> F * j + r \<and> F * j + r < hi \<longleftrightarrow> P j"
  shows "styled F D n bs (\<lambda>j. if P j then g else f j) (paint lo hi g cs)"
  using assms(1,3) digit_below [OF assms(2)] by (auto simp: styled_def)

lemma item_span:
  fixes s l j r :: nat
  assumes "column_ok F D" "r < D" "0 < l"
  shows "F * s \<le> F * j + r \<and> F * j + r < F * s + (F * l - (if F = 3 then 1 else 0)) \<longleftrightarrow> s \<le> j \<and> j < s + l"
  using assms unfolding column_ok_def by (elim disjE conjE) (simp_all, arith)

context text_cursor
begin

text \<open>Setting the position, moving right with the anchor kept, and formatting paints a span.\<close>

lemma format_span:
  assumes "p \<le> length (tx t)" "p < 2 ^ 31" "k < 2 ^ 31"
  shows "tx (tc_setCharFormat tc f (tc_right tc True (of_nat k) (tc_setPosition tc (of_nat p) t))) =
    paint p (min (length (tx t)) (p + k)) f (tx t)"
  using setPosition [OF assms(1,2)] right [OF assms(3), of True "tc_setPosition tc (of_nat p) t"] assms(1)
  by (simp add: setCharFormat min_def max_def)

lemma basic_loop_styled:
  assumes "column_ok F D" "styled F D n bs f (tx t)" "i + length raw \<le> n" "n < 2 ^ 24"
  shows "styled F D n bs (\<lambda>j. if i \<le> j \<and> j < i + length raw \<and> dim (raw ! (j - i)) then g else f j) (tx (basic_loop tc g (of_nat F) raw i t))"
  using assms(2,3)
proof (induction raw arbitrary: i t f)
  case (Cons b raw)
  let ?t = "tc_setCharFormat tc g (tc_right tc True (of_nat F) (tc_setPosition tc (of_nat i * of_nat F) t))"
  have F: "F \<le> 3" using assms(1) by (auto simp: column_ok_def)
  have "F * (i + 1) \<le> F * n" using Cons.prems(2) by (intro mult_le_mono2) simp
  then have le: "F * i + F \<le> length (tx t)" using Cons.prems(1) by (simp add: styled_def)
  have "i < 2 ^ 24" using Cons.prems(2) assms(4) by simp
  moreover have "F * i \<le> 3 * i" using F by (intro mult_le_mono1)
  ultimately have "F * i < 2 ^ 31" by (elim le_less_trans) simp
  then have "tx ?t = paint (F * i) (F * i + F) g (tx t)"
    using format_span [of "F * i" t F g] le F by (simp add: mult.commute min_absorb2)
  moreover have "F * i \<le> F * j + r \<and> F * j + r < F * i + F \<longleftrightarrow> j = i" if "r < D" for j r
    using that assms(1) by (auto simp: column_ok_def)
  ultimately have s: "styled F D n bs (\<lambda>j. if j = i then g else f j) (tx ?t)"
    using styled_paint [OF Cons.prems(1) assms(1), of "F * i" "F * i + F" "\<lambda>j. j = i" g] by simp
  have "styled F D n bs (\<lambda>j. if j = i \<and> dim b then g else f j) (tx (if b \<noteq> 0 \<and> b \<noteq> 0xFF then t else ?t))"
    using s Cons.prems(1) by (auto simp: dim_def)
  from Cons.IH [OF this, of "Suc i"] Cons.prems(2)
  have IH: "styled F D n bs (\<lambda>j. if Suc i \<le> j \<and> j < Suc i + length raw \<and> dim (raw ! (j - Suc i)) then g
      else if j = i \<and> dim b then g else f j) (tx (basic_loop tc g (of_nat F) (b # raw) i t))" by simp
  have "(\<lambda>j. if Suc i \<le> j \<and> j < Suc i + length raw \<and> dim (raw ! (j - Suc i)) then g else if j = i \<and> dim b then g else f j) =
      (\<lambda>j. if i \<le> j \<and> j < i + length (b # raw) \<and> dim ((b # raw) ! (j - i)) then g else f j)"
    by (auto simp: fun_eq_iff nth_Cons' Suc_le_eq le_less)
  then show ?case using IH by simp
next
  case Nil
  have "(\<lambda>j. if i \<le> j \<and> j < i + length [] \<and> dim ([] ! (j - i)) then g else f j) = f" by (auto simp: fun_eq_iff)
  then show ?case using Nil by simp
qed

lemma apply_item_styled:
  assumes "column_ok F D" "styled F D n bs f (tx t)" "item_fits w n mi" "w < 256"
  shows "styled F D n bs (\<lambda>j. if item_covers j mi then item_format pl mi else f j) (tx (apply_item tc pl (of_nat F) mi t))"
proof -
  let ?s = "unat (mi_start mi)" and ?l = "unat (mi_length mi)" and ?c = "if F = 3 then 1 else 0 :: nat"
  have F: "F = 3 \<or> F = 1" using assms(1) by (auto simp: column_ok_def)
  have fit: "0 < ?l" "?s + ?l \<le> w" "?s \<le> n" using assms(3) by (simp_all add: item_fits_def)
  have l1: "?c \<le> F * ?l" using F fit(1) by auto
  have e: "mi_start mi * of_nat F = of_nat (F * ?s)"
    "mi_length mi * of_nat F - (if sint (of_nat F :: cint) > 1 then 1 else 0) = of_nat (F * ?l - ?c)"
    unfolding column_sint [OF assms(1)] of_nat_diff [OF l1] using F by (auto simp: mult.commute)
  have le: "F * ?s \<le> length (tx t)"
    using assms(2) le_trans [OF mult_le_mono2 [OF fit(3), of F]] unfolding styled_def by blast
  have "?s < 256" "?l < 256" using fit(2) assms(4) by linarith+
  then have small: "F * ?s < 2 ^ 31" "F * ?l - ?c < 2 ^ 31" using F by (elim disjE; simp)+
  have "tx (apply_item tc pl (of_nat F) mi t) = paint (F * ?s) (min (length (tx t)) (F * ?s + (F * ?l - ?c))) (item_format pl mi) (tx t)"
    unfolding apply_item_def e by (rule format_span [OF le small])
  moreover have "F * ?s \<le> F * j + r \<and> F * j + r < min (length (tx t)) (F * ?s + (F * ?l - ?c)) \<longleftrightarrow> item_covers j mi"
    if "j < n" "r < D" for j r
    using digit_below [OF assms(1) that, of "length (tx t)"] assms(2) item_span [OF assms(1) that(2) fit(1), of ?s j]
    unfolding item_covers_def styled_def min_less_iff_conj by blast
  ultimately show ?thesis
    using styled_paint [OF assms(2,1), of "F * ?s" "min (length (tx t)) (F * ?s + (F * ?l - ?c))" "\<lambda>j. item_covers j mi" "item_format pl mi"]
    by simp
qed

lemma items_styled:
  assumes "column_ok F D" "styled F D n bs f (tx t)" "\<forall>mi \<in> set items. item_fits w n mi" "w < 256"
  shows "styled F D n bs (\<lambda>j. item_formats pl j items (f j)) (tx (fold (apply_item tc pl (of_nat F)) items t))"
  using assms(2,3)
proof (induction items arbitrary: t f)
  case (Cons mi items)
  have "item_fits w n mi" using Cons.prems(2) by simp
  from apply_item_styled [OF assms(1) Cons.prems(1) this assms(4)] Cons show ?case by (simp add: item_formats_def)
qed (simp add: item_formats_def)

end

section \<open>The selection\<close>

text \<open>The byte at an offset is selected.\<close>

definition selected_at :: "qhexcursor \<Rightarrow> nat \<Rightarrow> bool" where
  "selected_at c k \<longleftrightarrow> hasSelection c \<and> at_offset (selectionStart c) \<le> k \<and> k \<le> at_offset (selectionEnd c)"

lemma line_order:
  assumes "l < 2 ^ 63" "m < 2 ^ 63"
  shows "(of_nat l :: u64) = of_nat m \<longleftrightarrow> l = m" "(of_nat l :: u64) < of_nat m \<longleftrightarrow> l < m"
    "min (of_nat l) (of_nat m) = (of_nat (min l m) :: u64)" "max (of_nat l) (of_nat m) = (of_nat (max l m) :: u64)"
proof -
  have u: "unat (of_nat l :: u64) = l" "unat (of_nat m :: u64) = m" using assms by (intro unat_of_nat_u64; simp)+
  show "(of_nat l :: u64) = of_nat m \<longleftrightarrow> l = m" using u by metis
  show "(of_nat l :: u64) < of_nat m \<longleftrightarrow> l < m" by (simp only: word_less_nat_alt u)
  show "min (of_nat l) (of_nat m) = (of_nat (min l m) :: u64)" "max (of_nat l) (of_nat m) = (of_nat (max l m) :: u64)"
    by (simp_all only: min_def max_def word_le_nat_alt u if_distrib [of "of_nat :: nat \<Rightarrow> u64"])
qed

text \<open>The selection of a well-formed cursor in lines and columns.\<close>

lemma selection_cells:
  assumes "cursor_ok c" "w = unat (cu_lineWidth c)" "a = at_offset (selectionStart c)" "b = at_offset (selectionEnd c)" "l < 2 ^ 63"
  shows "0 < w" "w < 256" "a \<le> b" "a < 2 ^ 63" "b < 2 ^ 63"
    "ps_line (selectionStart c) = of_nat (a div w)" "ps_column (selectionStart c) = of_nat (a mod w)"
    "ps_line (selectionEnd c) = of_nat (b div w)" "ps_column (selectionEnd c) = of_nat (b mod w)"
    "isLineSelected c (of_nat l) \<longleftrightarrow> hasSelection c \<and> a div w \<le> l \<and> l \<le> b div w"
proof -
  note S = selection_order [OF assms(1)]
  show w: "0 < w" "w < 256" using assms(1,2) unat_u8 [of "cu_lineWidth c"] by (auto simp: cursor_ok_def pos_ok_def)
  show "a \<le> b" using S(1,2) assms(3,4) by simp
  show b: "a < 2 ^ 63" "b < 2 ^ 63" using S(3,4) assms(3,4) by (auto simp: pos_ok_def at_offset_def)
  show "ps_line (selectionStart c) = of_nat (a div w)" "ps_column (selectionStart c) = of_nat (a mod w)"
    "ps_line (selectionEnd c) = of_nat (b div w)" "ps_column (selectionEnd c) = of_nat (b mod w)"
    using pos_cells [OF S(3)] pos_cells [OF S(4)] assms(2-4) by simp_all
  let ?p = "at_offset (cu_position c)" and ?s = "at_offset (cu_selection c)"
  have ok: "pos_ok (cu_lineWidth c) (cu_position c)" "pos_ok (cu_lineWidth c) (cu_selection c)" using assms(1) by (simp_all add: cursor_ok_def)
  have ps: "?p < 2 ^ 63" "?s < 2 ^ 63" using ok by (auto simp: pos_ok_def at_offset_def)
  have d: "?p div w < 2 ^ 63" "?s div w < 2 ^ 63" using ps div_below by blast+
  have m: "a div w = min (?p div w) (?s div w)" "b div w = max (?p div w) (?s div w)"
    using S(1,2) assms(3,4) div_le_mono [of ?p ?s w] div_le_mono [of ?s ?p w] by (auto simp: min_def max_def)
  have "min (?p div w) (?s div w) < 2 ^ 63" "max (?p div w) (?s div w) < 2 ^ 63" using d by (simp_all add: min_def max_def)
  then have "isLineSelected c (of_nat l) \<longleftrightarrow> hasSelection c \<and> \<not> (l < min (?p div w) (?s div w) \<or> max (?p div w) (?s div w) < l)"
    unfolding isLineSelected_def Let_def pos_cells(1) [OF ok(1)] pos_cells(1) [OF ok(2)] assms(2) [symmetric] line_order(3,4) [OF d]
    using line_order(2) [OF assms(5)] line_order(2) [OF _ assms(5)] by simp
  then show "isLineSelected c (of_nat l) \<longleftrightarrow> hasSelection c \<and> a div w \<le> l \<and> l \<le> b div w" unfolding m by auto
qed

lemma mod_mono_row:
  fixes a b w :: nat
  assumes "a \<le> b" "a div w = b div w"
  shows "a mod w \<le> b mod w"
proof -
  have "a div w * w + a mod w \<le> b div w * w + b mod w" using assms(1) by simp
  then show ?thesis unfolding assms(2) by linarith
qed

text \<open>A byte in line \<open>l\<close> is selected when its column lies between those where the selection enters and leaves the line.\<close>

lemma selected_columns:
  fixes a b l j w :: nat
  assumes "j < w" "a div w \<le> l" "l \<le> b div w"
  shows "(a \<le> l * w + j \<and> l * w + j \<le> b) \<longleftrightarrow>
    (if l = a div w then a mod w else 0) \<le> j \<and> j < (if l = b div w then b mod w + 1 else w)"
proof -
  have w: "0 < w" using assms(1) by simp
  have ab: "a = a div w * w + a mod w" "b = b div w * w + b mod w" "a mod w < w" "b mod w < w" using w by simp_all
  have "a \<le> l * w + j \<longleftrightarrow> (if l = a div w then a mod w else 0) \<le> j"
  proof (cases "l = a div w")
    case False
    then have "(a div w + 1) * w \<le> l * w" using assms(2) by (intro mult_le_mono1) simp
    then have "a div w * w + w \<le> l * w" by simp
    then have "a \<le> l * w + j" using ab(1,3) by linarith
    then show ?thesis using False by simp
  next
    case True
    then have "l * w + a mod w = a" using ab(1) by simp
    then have "a \<le> l * w + j \<longleftrightarrow> a mod w \<le> j" by linarith
    then show ?thesis using True by simp
  qed
  moreover have "l * w + j \<le> b \<longleftrightarrow> j < (if l = b div w then b mod w + 1 else w)"
  proof (cases "l = b div w")
    case False
    then have "(l + 1) * w \<le> b div w * w" using assms(3) by (intro mult_le_mono1) simp
    then have "l * w + w \<le> b div w * w" by simp
    then have "l * w + j \<le> b" using ab(2) assms(1) by linarith
    then show ?thesis using False assms(1) by simp
  next
    case True
    then have "l * w + b mod w = b" using ab(2) by simp
    then have "l * w + j \<le> b \<longleftrightarrow> j \<le> b mod w" by linarith
    then show ?thesis using True by (simp add: less_Suc_eq_le)
  qed
  ultimately show ?thesis by blast
qed

context text_cursor
begin

text \<open>What \<open>applySelection\<close> does with the text's cursor, in numbers instead of words.\<close>

lemma selection_program:
  fixes t and F w l :: nat
  assumes "F = 3 \<or> F = 1" "cursor_ok c" "w = unat (cu_lineWidth c)" "l < 2 ^ 63" "isLineSelected c (of_nat l)"
  defines "a \<equiv> at_offset (selectionStart c)" and "b \<equiv> at_offset (selectionEnd c)"
  defines "lo \<equiv> if l = a div w then a mod w else 0"
  defines "t0 \<equiv> tc_setPosition tc (of_nat (F * lo)) t"
  defines "t1 \<equiv> if l = b div w then tc_right tc True (of_nat (F * (b mod w + 1 - lo))) t0 else tc_endOfLine tc True t0"
  shows "applySelection tc pl c (of_nat l) (of_nat F) t =
    tc_setCharFormat tc (selection_format pl) (if F = 3 then tc_left tc True 1 t1 else t1)"
proof -
  note S = selection_cells [OF assms(2,3) a_def [THEN meta_eq_to_obj_eq] b_def [THEN meta_eq_to_obj_eq] assms(4)]
  have L: "hasSelection c" "a div w \<le> l" "l \<le> b div w" using assms(5) S(10) by simp_all
  have F: "F = 3 \<or> F = 1" by (rule assms(1))
  have ab: "a mod w \<le> b mod w" if "a div w = b div w" by (rule mod_mono_row [OF S(3) that])
  have d: "a div w < 2 ^ 63" "b div w < 2 ^ 63" using S(4,5) div_below by blast+
  have cmp: "(of_nat (a div w) :: u64) = of_nat (b div w) \<longleftrightarrow> a div w = b div w" "(of_nat l :: u64) = of_nat (a div w) \<longleftrightarrow> l = a div w"
    "(of_nat l :: u64) = of_nat (b div w) \<longleftrightarrow> l = b div w"
    using line_order(1) [OF d] line_order(1) [OF assms(4) d(1)] line_order(1) [OF assms(4) d(2)] by simp_all
  have k: "(of_nat F :: cint) = 3 \<longleftrightarrow> F = 3" using F by auto
  have m: "of_nat i * of_nat F = (of_nat (F * i) :: cint)" for i by (simp add: mult.commute)
  have n: "of_nat (b mod w) - of_nat (a mod w) + 1 = (of_nat (b mod w + 1 - a mod w) :: cint)" if "a div w = b div w"
    using ab [OF that] by (simp add: of_nat_diff)
  have n': "of_nat (b mod w) + 1 = (of_nat (b mod w + 1) :: cint)" by simp
  show ?thesis
  proof (cases "a div w = b div w")
    case True
    then have l: "l = b div w" "l = a div w" using L(2,3) by simp_all
    have "applySelection tc pl c (of_nat l) (of_nat F) t = tc_setCharFormat tc (selection_format pl)
        (if F = 3 then tc_left tc True 1 (tc_right tc True (of_nat (F * (b mod w + 1 - a mod w))) (tc_setPosition tc (of_nat (F * (a mod w))) t))
         else tc_right tc True (of_nat (F * (b mod w + 1 - a mod w))) (tc_setPosition tc (of_nat (F * (a mod w))) t))"
      using assms(5) by (simp only: applySelection_def Let_def S(6-9) cmp True n [OF True] m k if_True if_False simp_thms)
    then show ?thesis using l by (simp add: t1_def t0_def lo_def)
  next
    case False
    have "applySelection tc pl c (of_nat l) (of_nat F) t = tc_setCharFormat tc (selection_format pl)
        (let t = (if l = a div w then tc_setPosition tc (of_nat (F * (a mod w))) t else tc_setPosition tc 0 t);
             t = (if l = b div w then tc_right tc True (of_nat (F * (b mod w + 1))) t else tc_endOfLine tc True t)
         in if F = 3 then tc_left tc True 1 t else t)"
      using assms(5) False by (simp only: applySelection_def Let_def S(6-9) cmp n' m k if_True if_False simp_thms)
    then show ?thesis using False by (simp add: Let_def t1_def t0_def lo_def)
  qed
qed

lemma selection_painted:
  assumes "column_ok F D" "styled F D n bs f (tx t)" "cursor_ok c" "w = unat (cu_lineWidth c)" "l < 2 ^ 63" "isLineSelected c (of_nat l)"
    and "l = at_offset (selectionStart c) div w \<Longrightarrow> at_offset (selectionStart c) mod w \<le> n" "F * n < length (tx t) \<or> n = w"
  defines "a \<equiv> at_offset (selectionStart c)" and "b \<equiv> at_offset (selectionEnd c)"
  shows "tx (applySelection tc pl c (of_nat l) (of_nat F) t) = paint (F * (if l = a div w then a mod w else 0))
    ((if l = b div w then min (length (tx t)) (F * (b mod w + 1)) else length (tx t)) - (if F = 3 then 1 else 0))
    (selection_format pl) (tx t)"
proof -
  let ?lo = "if l = a div w then a mod w else 0" and ?c = "if F = 3 then 1 else 0 :: nat"
  let ?e = "if l = b div w then min (length (tx t)) (F * (b mod w + 1)) else length (tx t)"
  note S = selection_cells [OF assms(3,4) a_def [THEN meta_eq_to_obj_eq] b_def [THEN meta_eq_to_obj_eq] assms(5)]
  have L: "hasSelection c" "a div w \<le> l" "l \<le> b div w" using assms(6) S(10) by simp_all
  have F: "F = 3 \<or> F = 1" using assms(1) by (auto simp: column_ok_def)
  have le: "F * n \<le> length (tx t)" using assms(2) by (simp add: styled_def)
  have mw: "a mod w < w" "b mod w < w" using S(1) by simp_all
  have lo: "F * ?lo + ?c \<le> length (tx t)" "?lo < w"
  proof -
    show "?lo < w" using mw(1) S(1) by simp
    moreover have "?lo \<le> n" using assms(7) by (simp add: a_def)
    ultimately show "F * ?lo + ?c \<le> length (tx t)" using le assms(8) F by (elim disjE) simp_all
  qed
  have ab: "a mod w \<le> b mod w" if "a div w = b div w" by (rule mod_mono_row [OF S(3) that])
  then have lb: "?lo \<le> b mod w" if "l = b div w" using that by simp
  have d: "a div w < 2 ^ 63" "b div w < 2 ^ 63" using S(4,5) div_below by blast+
  have small: "F * k < 2 ^ 31" if "k \<le> w" for k using that F S(2) by (elim disjE; simp)
  let ?t0 = "tc_setPosition tc (of_nat (F * ?lo)) t"
  let ?t1 = "if l = b div w then tc_right tc True (of_nat (F * (b mod w + 1 - ?lo))) ?t0 else tc_endOfLine tc True ?t0"
  let ?t2 = "if F = 3 then tc_left tc True 1 ?t1 else ?t1"
  have t0: "tx ?t0 = tx t" "pos ?t0 = F * ?lo" "an ?t0 = F * ?lo"
    using setPosition [OF _ small, of ?lo t] lo by simp_all
  have "F * ?lo + F * (b mod w + 1 - ?lo) = F * (b mod w + 1)" if "l = b div w"
    using lb [OF that] by (simp only: add_mult_distrib2 [symmetric]) simp
  then have t1: "tx ?t1 = tx t" "pos ?t1 = ?e" "an ?t1 = F * ?lo"
    using right [OF small, of "b mod w + 1 - ?lo" True ?t0] endOfLine [of True ?t0] t0 mw(2)
    by (simp_all only: if_distrib [of tx] if_distrib [of pos] if_distrib [of an] if_True if_False split: if_split) auto
  have "tx ?t2 = tx t" "pos ?t2 = ?e - ?c" "an ?t2 = F * ?lo"
    using left [of 1 True ?t1] t1 by auto
  moreover have "F * ?lo \<le> ?e - ?c"
  proof -
    have "F * ?lo + ?c \<le> F * (b mod w + 1)" if "l = b div w" using lb [OF that] F by auto
    then show ?thesis using lo(1) by auto
  qed
  ultimately have "tx (tc_setCharFormat tc (selection_format pl) ?t2) = paint (F * ?lo) (?e - ?c) (selection_format pl) (tx t)"
    using setCharFormat [of "selection_format pl" ?t2] by (simp only: min_absorb1 max_absorb2)
  moreover note selection_program [where t = t and pl = pl, OF F assms(3-6), folded a_def b_def]
  ultimately show ?thesis by simp
qed

lemma applySelection_styled:
  assumes "column_ok F D" "styled F D n bs f (tx t)" "cursor_ok c" "w = unat (cu_lineWidth c)" "l < 2 ^ 63"
    and "n \<le> w" "l = at_offset (selectionStart c) div w \<Longrightarrow> at_offset (selectionStart c) mod w \<le> n"
    and "F * n < length (tx t) \<or> n = w"
  shows "styled F D n bs (\<lambda>j. if selected_at c (l * w + j) then selection_format pl else f j)
    (tx (applySelection tc pl c (of_nat l) (of_nat F) t))"
proof -
  let ?a = "at_offset (selectionStart c)" and ?b = "at_offset (selectionEnd c)" and ?c = "if F = 3 then 1 else 0 :: nat"
  note S = selection_cells [OF assms(3,4) refl refl assms(5)]
  show ?thesis
  proof (cases "isLineSelected c (of_nat l)")
    case False
    have "\<not> selected_at c (l * w + j)" if "j < n" for j
    proof
      assume "selected_at c (l * w + j)"
      then have s: "hasSelection c" "?a \<le> l * w + j" "l * w + j \<le> ?b" by (simp_all add: selected_at_def)
      have "(l * w + j) div w = l" using that assms(6) by simp
      then have "?a div w \<le> l" "l \<le> ?b div w" using div_le_mono [OF s(2), of w] div_le_mono [OF s(3), of w] by simp_all
      then show False using False s(1) S(10) by simp
    qed
    then show ?thesis using False assms(2) by (simp add: applySelection_def styled_def)
  next
    case True
    then have L: "hasSelection c" "?a div w \<le> l" "l \<le> ?b div w" using S(10) by simp_all
    let ?lo = "if l = ?a div w then ?a mod w else 0" and ?hi = "if l = ?b div w then ?b mod w + 1 else w"
    have F: "F = 3 \<or> F = 1" using assms(1) by (auto simp: column_ok_def)
    define e where "e = (if l = ?b div w then min (length (tx t)) (F * (?b mod w + 1)) else length (tx t)) - ?c"
    have paint: "tx (applySelection tc pl c (of_nat l) (of_nat F) t) = paint (F * ?lo) e (selection_format pl) (tx t)"
      unfolding e_def using selection_painted [OF assms(1-5) True assms(7,8)] by simp
    have cells: "F * ?lo \<le> F * j + r \<and> F * j + r < e \<longleftrightarrow> selected_at c (l * w + j)" if "j < n" "r < D" for j r
    proof -
      have jw: "j < w" using that(1) assms(6) by simp
      have len: "F * n \<le> length (tx t)" using assms(2) by (simp add: styled_def)
      have "F * ?lo \<le> F * j + r \<and> F * j + r < e \<longleftrightarrow> ?lo \<le> j \<and> j < ?hi"
        using in_span [OF assms(1) that(2,1) len, of ?lo ?hi] span_to_end [OF assms(1) that(2,1) len, of ?lo] jw
        by (cases "l = ?b div w") (simp_all add: e_def)
      then show ?thesis using selected_columns [OF jw L(2,3)] L(1) by (simp add: selected_at_def)
    qed
    show ?thesis
      using styled_paint [OF assms(2,1) cells, where g = "selection_format pl"] unfolding paint by blast
  qed
qed

end

section \<open>A line of the document\<close>

definition line_bytes :: "(byte list, 's, 'c) hexview \<Rightarrow> nat \<Rightarrow> byte list" where
  "line_bytes v l = take (view_width v) (drop (l * view_width v) (view_bytes v))"

definition lastline :: "(byte list, 's, 'c) hexview \<Rightarrow> nat" where
  "lastline v = length (view_bytes v) div view_width v"

definition items_of :: "('b, 's, 'c) hexview \<Rightarrow> nat \<Rightarrow> 'c metadata_item list" where
  "items_of v l = line_items (doc_metadata (vw_document v)) (of_nat l)"

text \<open>The format of byte \<open>j\<close> of line \<open>l\<close>, cursor aside.\<close>

definition byte_format :: "'c palette \<Rightarrow> (byte list, 's, 'c) hexview \<Rightarrow> nat \<Rightarrow> nat \<Rightarrow> 'c char_format" where
  "byte_format pl v l j =
     (if selected_at (vcursor v) (l * view_width v + j) then selection_format pl
      else item_formats pl j (items_of v l) (if dim (line_bytes v l ! j) then basic_format pl else plain_format))"

lemma styled_cong: "styled F D n bs f cs \<Longrightarrow> (\<And>j. j < n \<Longrightarrow> f j = g j) \<Longrightarrow> styled F D n bs g cs"
  by (simp add: styled_def)

lemma line_length:
  assumes "in_document v" "l \<le> lastline v"
  shows "length (line_bytes v l) = (if l = lastline v then length (view_bytes v) mod view_width v else view_width v)"
    "l * view_width v \<le> length (view_bytes v)" "l < 2 ^ 24"
proof -
  note c = view_cells [OF assms(1)]
  show le: "l * view_width v \<le> length (view_bytes v)"
    by (rule order_trans [OF mult_le_mono1 [OF assms(2)]]) (simp add: lastline_def)
  have "l \<le> length (view_bytes v)" by (rule order_trans [OF assms(2)]) (simp add: lastline_def)
  then show "l < 2 ^ 24" using c(7) by simp
  show "length (line_bytes v l) = (if l = lastline v then length (view_bytes v) mod view_width v else view_width v)"
  proof (cases "l = lastline v")
    case True
    have "length (view_bytes v) - l * view_width v = length (view_bytes v) mod view_width v"
      by (simp add: True lastline_def minus_div_mult_eq_mod)
    then show ?thesis using True c(4) by (simp add: line_bytes_def min_absorb2 less_imp_le)
  next
    case False
    then have "(l + 1) * view_width v \<le> lastline v * view_width v" using assms(2) by (intro mult_le_mono1) simp
    moreover have "lastline v * view_width v \<le> length (view_bytes v)" by (simp add: lastline_def)
    ultimately have "l * view_width v + view_width v \<le> length (view_bytes v)" by simp
    then show ?thesis using False by (simp add: line_bytes_def)
  qed
qed

lemma line_nth: "j < length (line_bytes v l) \<Longrightarrow> line_bytes v l ! j = view_bytes v ! (l * view_width v + j)"
proof -
  assume a: "j < length (line_bytes v l)"
  then have "j < length (view_bytes v) - l * view_width v" by (simp add: line_bytes_def)
  then have "l * view_width v \<le> length (view_bytes v)" by linarith
  then show ?thesis using a by (simp add: line_bytes_def)
qed

lemma applyMetadata_items:
  "applyMetadata tc pl (doc_metadata (vw_document v)) (of_nat l) factor t = Some (fold (apply_item tc pl factor) (items_of v l) t)"
  by (cases "md_metadata (doc_metadata (vw_document v)) (of_nat l)")
     (simp_all add: applyMetadata_def hasMetadata_def metadata_get_def items_of_def line_items_def)

text \<open>The text of the hexadecimal column.\<close>

definition hex_cells :: "byte list \<Rightarrow> byte list" where
  "hex_cells bs = concat (map (\<lambda>b. [hex_digit (unat b div 16), hex_digit (unat b mod 16), 0x20]) bs)"

lemma hex_cells_nth:
  "length (hex_cells bs) = 3 * length bs"
  "j < length bs \<Longrightarrow> hex_cells bs ! (3 * j) = hex_digit (unat (bs ! j) div 16) \<and> hex_cells bs ! (3 * j + 1) = hex_digit (unat (bs ! j) mod 16)"
proof -
  show "length (hex_cells bs) = 3 * length bs" by (induction bs) (simp_all add: hex_cells_def)
  show "j < length bs \<Longrightarrow> hex_cells bs ! (3 * j) = hex_digit (unat (bs ! j) div 16) \<and> hex_cells bs ! (3 * j + 1) = hex_digit (unat (bs ! j) mod 16)"
  proof (induction bs arbitrary: j)
    case (Cons b bs)
    have e: "hex_cells (b # bs) = hex_digit (unat b div 16) # hex_digit (unat b mod 16) # 0x20 # hex_cells bs" by (simp add: hex_cells_def)
    show ?case
    proof (cases j)
      case (Suc i)
      then show ?thesis using Cons.IH [of i] Cons.prems by (simp add: e)
    qed (simp add: e)
  qed simp
qed

lemma hex_digit_printable: "n < 16 \<Longrightarrow> 0x20 \<le> hex_digit n \<and> hex_digit n \<le> 0x7E"
proof -
  have "list_all (\<lambda>n. 0x20 \<le> hex_digit n \<and> hex_digit n \<le> 0x7E) [0..<16]" by code_simp
  then show "n < 16 \<Longrightarrow> 0x20 \<le> hex_digit n \<and> hex_digit n \<le> 0x7E" by (simp add: list_all_iff)
qed

lemma hex_cells_printable: "\<forall>b \<in> set (hex_cells bs). 0x20 \<le> b \<and> b \<le> 0x7E"
proof -
  have "unat b div 16 < 16" "unat b mod 16 < 16" for b :: byte using unsigned_less [of b, where ?'a = nat] by auto
  then show ?thesis using hex_digit_printable by (auto simp: hex_cells_def)
qed

lemma unprintable_printable: "\<forall>b \<in> set (unprintableChars bs). 0x20 \<le> b \<and> b \<le> 0x7E"
  by (auto simp: unprintableChars_def word_le_nat_alt)

lemma hex_loop_cells:
  assumes "qbytearray qt" "qbytearray_hex qt"
  shows "i + n \<le> length bs \<Longrightarrow> hex_loop qt bs i n res = res @ hex_cells (take n (drop i bs))"
proof (induction n arbitrary: i res)
  case (Suc n)
  then have "i < length bs" by simp
  then have d: "drop i bs = bs ! i # drop (Suc i) bs" by (rule Cons_nth_drop_Suc [symmetric])
  have "qb_mid qt bs (int i) 1 = [bs ! i]" using qbytearray.mid_in [OF assms(1), of "int i" 1 bs] d by simp
  then show ?case using Suc qbytearray_hex.toHex_eq [OF assms(2)] by (simp add: d hex_cells_def)
qed (simp add: hex_cells_def)

context text_cursor
begin

lemma line_text_tx:
  assumes "\<forall>b \<in> set bs. 0x20 \<le> b \<and> b \<le> 0x7E"
  shows "tx (line_text tc isLast bs) = map (\<lambda>b. (b, plain_format)) (bs @ (if isLast then [0x20] else []))"
proof -
  let ?t = "tc_insertText tc bs (tc_new tc)"
  have t: "tx ?t = map (\<lambda>b. (b, plain_format)) bs" "pos ?t = length bs" "an ?t = length bs"
    using insertText [of "tc_new tc" bs] assms new by simp_all
  have "tx (tc_insertText tc [0x20] ?t) = tx ?t @ [(0x20 :: byte, plain_format)]"
    using insertText [of ?t "[0x20 :: byte]"] t by (simp add: word_le_nat_alt)
  then show ?thesis using t(1) by (simp add: line_text_def)
qed

lemma column_styled:
  fixes pl :: "'c palette"
  assumes "column_ok F D" "in_document v" "l \<le> lastline v" "length bs = F * length (line_bytes v l)"
    and "\<forall>b \<in> set bs. 0x20 \<le> b \<and> b \<le> 0x7E" "\<forall>mi \<in> set (items_of v l). item_fits (view_width v) (length (line_bytes v l)) mi"
  defines "t \<equiv> fold (apply_item tc pl (of_nat F)) (items_of v l)
    (applyBasicStyle tc pl (line_bytes v l) (of_nat F) (line_text tc (l = lastline v) bs))"
  shows "styled F D (length (line_bytes v l)) (bs @ (if l = lastline v then [0x20] else [])) (byte_format pl v l)
    (tx (applySelection tc pl (vcursor v) (of_nat l) (of_nat F) t))"
proof -
  let ?n = "length (line_bytes v l)" and ?w = "view_width v" and ?bs = "bs @ (if l = lastline v then [0x20] else [])"
  note c = view_cells [OF assms(2)] and L = line_length [OF assms(2,3)]
  have n: "?n \<le> ?w" using L(1) c(4) by (simp add: less_imp_le)
  let ?t0 = "line_text tc (l = lastline v) bs"
  have "F * ?n \<le> length ?bs" using assms(4) by simp
  then have "styled F D ?n ?bs (\<lambda>j. plain_format) (tx ?t0)"
    unfolding line_text_tx [OF assms(5)] styled_def
    using digit_below [OF assms(1) _ _ \<open>F * ?n \<le> length ?bs\<close>] by (simp add: comp_def del: length_append map_append)
  moreover have "?n < 2 ^ 24" using n c(5) by simp
  ultimately have "styled F D ?n ?bs (\<lambda>j. if 0 \<le> j \<and> j < 0 + ?n \<and> dim (line_bytes v l ! (j - 0)) then basic_format pl else plain_format)
      (tx (applyBasicStyle tc pl (line_bytes v l) (of_nat F) ?t0))"
    unfolding applyBasicStyle_def by (intro basic_loop_styled [OF assms(1)]) simp_all
  from items_styled [OF assms(1) this assms(6) c(5), of pl]
  have t: "styled F D ?n ?bs (\<lambda>j. item_formats pl j (items_of v l)
      (if 0 \<le> j \<and> j < 0 + ?n \<and> dim (line_bytes v l ! (j - 0)) then basic_format pl else plain_format)) (tx t)"
    unfolding t_def .
  let ?a = "at_offset (selectionStart (vcursor v))"
  have ok: "cursor_ok (vcursor v)" "?w = unat (cu_lineWidth (vcursor v))" using assms(2) by (simp_all add: in_document_def view_width_def)
  have "?a \<le> length (view_bytes v)"
    using selection_order(1) [OF ok(1)] assms(2) by (simp add: in_document_def view_bytes_def min_le_iff_disj)
  then have "?a mod ?w \<le> ?n" if "l = ?a div ?w"
  proof (cases "l = lastline v")
    case True
    have "?a div ?w = length (view_bytes v) div ?w" using that True by (simp add: lastline_def)
    from mod_mono_row [OF \<open>?a \<le> length (view_bytes v)\<close> this] show ?thesis using L(1) True by simp
  next
    case False
    then show ?thesis using L(1) c(4) by (simp add: less_imp_le)
  qed
  moreover have "F * ?n < length (tx t) \<or> ?n = ?w"
  proof -
    have "length (tx t) = length ?bs" using t by (auto simp: styled_def dest: arg_cong [where f = length])
    then show ?thesis using L(1) assms(4) by (cases "l = lastline v") simp_all
  qed
  moreover have "l < 2 ^ 63" using L(3) by simp
  ultimately have "styled F D ?n ?bs (\<lambda>j. if selected_at (vcursor v) (l * ?w + j) then selection_format pl
      else item_formats pl j (items_of v l) (if 0 \<le> j \<and> j < 0 + ?n \<and> dim (line_bytes v l ! (j - 0)) then basic_format pl else plain_format))
    (tx (applySelection tc pl (vcursor v) (of_nat l) (of_nat F) t))"
    using applySelection_styled [OF assms(1) t ok] n by blast
  then show ?thesis by (rule styled_cong) (simp add: byte_format_def)
qed

end

section \<open>The cursor of the view\<close>

text \<open>Whether a digit of a byte is drawn as the cursor: in the column without the focus both are.\<close>

definition marked_hex :: "(byte list, 's, 'c) hexview \<Rightarrow> nat \<Rightarrow> nat \<Rightarrow> bool" where
  "marked_hex v k r \<longleftrightarrow> vw_cursorenabled v \<and> view_offset v = k \<and>
     (vw_selectedarea v = HexArea \<longrightarrow> r = (if ps_nibbleindex (cu_position (vcursor v)) = 0 then 1 else 0))"

definition marked_ascii :: "(byte list, 's, 'c) hexview \<Rightarrow> nat \<Rightarrow> bool" where
  "marked_ascii v k \<longleftrightarrow> vw_cursorenabled v \<and> view_offset v = k"

definition hex_format :: "'c palette \<Rightarrow> (byte list, 's, 'c) hexview \<Rightarrow> nat \<Rightarrow> nat \<Rightarrow> nat \<Rightarrow> 'c char_format" where
  "hex_format pl v l j r =
     (if marked_hex v (l * view_width v + j) r then cursor_format pl (vcursor v) (vw_selectedarea v = HexArea) else byte_format pl v l j)"

definition ascii_format :: "'c palette \<Rightarrow> (byte list, 's, 'c) hexview \<Rightarrow> nat \<Rightarrow> nat \<Rightarrow> 'c char_format" where
  "ascii_format pl v l j =
     (if marked_ascii v (l * view_width v + j) then cursor_format pl (vcursor v) (vw_selectedarea v = AsciiArea) else byte_format pl v l j)"

lemma cursor_line:
  assumes "in_document v" "l \<le> lastline v"
  shows "of_nat l = ps_line (cu_position (vcursor v)) \<longleftrightarrow> l = view_offset v div view_width v"
    "l = view_offset v div view_width v \<Longrightarrow> view_offset v mod view_width v \<le> length (line_bytes v l)"
proof -
  note c = view_cells [OF assms(1)] and L = line_length [OF assms]
  have "view_offset v div view_width v < 2 ^ 63" by (rule div_below) (use c(6,7) in simp)
  then show "of_nat l = ps_line (cu_position (vcursor v)) \<longleftrightarrow> l = view_offset v div view_width v"
    using line_order(1) [of l] L(3) by (simp add: c(1))
  show "view_offset v mod view_width v \<le> length (line_bytes v l)" if "l = view_offset v div view_width v"
  proof (cases "l = lastline v")
    case True
    then have "view_offset v div view_width v = length (view_bytes v) div view_width v" using that by (simp add: lastline_def)
    from mod_mono_row [OF c(6) this] show ?thesis using L(1) True by simp
  next
    case False
    then show ?thesis using L(1) c(9) by (simp add: less_imp_le)
  qed
qed

lemma cursor_byte:
  assumes "in_document v" "j < view_width v"
  shows "view_offset v = l * view_width v + j \<longleftrightarrow> l = view_offset v div view_width v \<and> j = view_offset v mod view_width v"
  using assms(2) div_mult_mod_eq [of "view_offset v" "view_width v"] cell_div [OF assms(2), of l] by (auto simp: add.commute)

context text_cursor
begin

lemma ascii_cursor_painted:
  assumes "in_document v" "l \<le> lastline v" "length (line_bytes v l) \<le> length (tx t)"
  shows "tx (applyCursorAscii tc pl v (of_nat l) t) =
    (if vw_cursorenabled v \<and> l = view_offset v div view_width v
     then paint (view_offset v mod view_width v) (min (length (tx t)) (view_offset v mod view_width v + 1))
       (cursor_format pl (vcursor v) (vw_selectedarea v = AsciiArea)) (tx t)
     else tx t)"
proof (cases "vw_cursorenabled v \<and> l = view_offset v div view_width v")
  case True
  let ?k = "view_offset v mod view_width v" and ?t = "tc_clearSelection tc t"
  note c = view_cells [OF assms(1)]
  have k: "?k \<le> length (tx ?t)" using cursor_line(2) [OF assms(1,2)] True assms(3) clearSelection [of t] by simp
  have "?k < 2 ^ 31" using c(5,9) by simp
  from format_span [OF k this, of 1 "cursor_format pl (vcursor v) (vw_selectedarea v = AsciiArea)"]
  show ?thesis using True cursor_line(1) [OF assms(1,2)] clearSelection [of t] by (simp add: applyCursorAscii_def Let_def c(2))
qed (use cursor_line(1) [OF assms(1,2)] in \<open>auto simp: applyCursorAscii_def Let_def\<close>)

lemma hex_cursor_painted:
  assumes "in_document v" "l \<le> lastline v" "3 * length (line_bytes v l) \<le> length (tx t)"
  defines "p \<equiv> 3 * (view_offset v mod view_width v) +
    (if vw_selectedarea v = HexArea \<and> ps_nibbleindex (cu_position (vcursor v)) = 0 then 1 else 0)"
  shows "tx (applyCursorHex tc pl v (of_nat l) t) =
    (if vw_cursorenabled v \<and> l = view_offset v div view_width v
     then paint (min (length (tx t)) p) (min (length (tx t)) (p + (if vw_selectedarea v = AsciiArea then 2 else 1)))
       (cursor_format pl (vcursor v) (vw_selectedarea v = HexArea)) (tx t)
     else tx t)"
proof (cases "vw_cursorenabled v \<and> l = view_offset v div view_width v")
  case True
  let ?k = "view_offset v mod view_width v" and ?t = "tc_clearSelection tc t"
  let ?low = "vw_selectedarea v = HexArea \<and> ps_nibbleindex (cu_position (vcursor v)) = 0" and ?asc = "vw_selectedarea v = AsciiArea"
  note c = view_cells [OF assms(1)]
  have k: "3 * ?k \<le> length (tx ?t)" using cursor_line(2) [OF assms(1,2)] True assms(3) clearSelection [of t] by simp
  have "3 * ?k < 2 ^ 31" using c(5,9) by simp
  define t1 where "t1 = tc_setPosition tc (of_nat (3 * ?k)) ?t"
  define t2 where "t2 = (if ?low then tc_right tc False 1 t1 else t1)"
  define t3 where "t3 = tc_right tc True 1 t2"
  define t4 where "t4 = (if ?asc then tc_right tc True 1 t3 else t3)"
  have t1: "tx t1 = tx t" "pos t1 = 3 * ?k" "an t1 = 3 * ?k"
    using setPosition [OF k \<open>3 * ?k < 2 ^ 31\<close>] clearSelection [of t] by (simp_all add: t1_def)
  have "tx t2 = tx t" "pos t2 = min (length (tx t)) p" "an t2 = min (length (tx t)) p"
    using right [of 1 False t1] t1 k clearSelection [of t] by (auto simp: t2_def p_def)
  then have "tx t3 = tx t" "pos t3 = min (length (tx t)) (p + 1)" "an t3 = min (length (tx t)) p"
    using right [of 1 True t2] by (auto simp: t3_def)
  then have "tx t4 = tx t" "pos t4 = min (length (tx t)) (p + (if ?asc then 2 else 1))" "an t4 = min (length (tx t)) p"
    using right [of 1 True t3] by (auto simp: t4_def)
  moreover have "applyCursorHex tc pl v (of_nat l) t = tc_setCharFormat tc (cursor_format pl (vcursor v) (vw_selectedarea v = HexArea)) t4"
    using True cursor_line(1) [OF assms(1,2)]
    by (simp add: applyCursorHex_def Let_def c(2) t4_def t3_def t2_def t1_def mult.commute)
  ultimately show ?thesis using True setCharFormat by (simp add: min_absorb1 max_absorb2)
qed (use cursor_line(1) [OF assms(1,2)] in \<open>auto simp: applyCursorHex_def Let_def\<close>)

end

section \<open>Drawing a line\<close>

definition printable :: "byte \<Rightarrow> byte" where
  "printable b = (if 0x20 \<le> unat b \<and> unat b \<le> 0x7E then b else 0x2E)"

context memory_view
begin

lemma line_strings:
  assumes "in_document v" "l \<le> lastline v"
  shows "hexString (ve_qt env) (ve_ops env) (of_nat l) (vw_document v) =
      ((hex_loop (ve_qt env) (line_bytes v l) 0 (length (line_bytes v l)) [], line_bytes v l), vw_document v)"
    "asciiString (ve_ops env) (of_nat l) (vw_document v) = ((map printable (line_bytes v l), line_bytes v l), vw_document v)"
    "documentLastLine (ve_ops env) (vw_document v) = Some (of_nat (lastline v))"
    "(of_nat l :: u64) = of_nat (lastline v) \<longleftrightarrow> l = lastline v"
proof -
  note L = line_length [OF assms] and c = view_cells [OF assms(1)]
  have "l * unat (doc_hexlinewidth (vw_document v)) < 2 ^ 31"
    using L(2) c(7) by (simp add: view_width_def)
  from get_line [OF bytes this]
  have "getLine (ve_ops env) (of_nat l) (vw_document v) = (line_bytes v l, vw_document v)"
    by (simp add: ops line_bytes_def view_width_def view_bytes_def)
  then show "hexString (ve_qt env) (ve_ops env) (of_nat l) (vw_document v) =
      ((hex_loop (ve_qt env) (line_bytes v l) 0 (length (line_bytes v l)) [], line_bytes v l), vw_document v)"
    "asciiString (ve_ops env) (of_nat l) (vw_document v) = ((map printable (line_bytes v l), line_bytes v l), vw_document v)"
    by (simp_all add: hexString_def asciiString_def unprintableChars_def printable_def [abs_def])
  show "documentLastLine (ve_ops env) (vw_document v) = Some (of_nat (lastline v))"
    using last_line(1) [OF assms(1)] by (simp add: lastline_def)
  have "lastline v < 2 ^ 24" by (rule line_length(3) [OF assms(1) order_refl])
  then show "(of_nat l :: u64) = of_nat (lastline v) \<longleftrightarrow> l = lastline v" using line_order(1) [of l "lastline v"] L(3) by simp
qed

lemma draw_columns:
  assumes "in_document v" "l \<le> lastline v"
  shows "drawHex tc pl env (of_nat l) v = Some (applyCursorHex tc pl v (of_nat l) (applySelection tc pl (vcursor v) (of_nat l) 3
      (fold (apply_item tc pl 3) (items_of v l) (applyBasicStyle tc pl (line_bytes v l) 3
        (line_text tc (l = lastline v) (hex_loop (ve_qt env) (line_bytes v l) 0 (length (line_bytes v l)) []))))), v)"
    "drawAscii tc pl env (of_nat l) v = Some (applyCursorAscii tc pl v (of_nat l) (applySelection tc pl (vcursor v) (of_nat l) 1
      (fold (apply_item tc pl 1) (items_of v l) (applyBasicStyle tc pl (line_bytes v l) 1
        (line_text tc (l = lastline v) (map printable (line_bytes v l)))))), v)"
  by (simp_all add: drawHex_def drawAscii_def line_strings [OF assms] applyMetadata_items Let_def)

end

lemma cond_paint_nth:
  assumes "i < length cs" "P \<and> lo \<le> i \<and> i < hi \<longleftrightarrow> M"
  shows "(if P then paint lo hi f cs else cs) ! i = (fst (cs ! i), if M then f else snd (cs ! i))"
  using assms by auto

text \<open>What is drawn of byte \<open>j\<close> of line \<open>l\<close> in both columns.\<close>

definition byte_drawn :: "'c palette \<Rightarrow> (byte list, 's, 'c) hexview \<Rightarrow> nat \<Rightarrow> nat \<Rightarrow>
    (byte \<times> 'c char_format) list \<Rightarrow> (byte \<times> 'c char_format) list \<Rightarrow> bool" where
  "byte_drawn pl v l j h a \<longleftrightarrow>
     (let b = view_bytes v ! (l * view_width v + j) in
      h ! (3 * j) = (hex_digit (unat b div 16), hex_format pl v l j 0) \<and>
      h ! (3 * j + 1) = (hex_digit (unat b mod 16), hex_format pl v l j 1) \<and>
      a ! j = (printable b, ascii_format pl v l j))"

context text_cursor
begin

lemma hex_drawn:
  assumes "memory_view env" "qbytearray_hex (ve_qt env)" "in_document v" "l \<le> lastline v"
    and "\<forall>mi \<in> set (items_of v l). item_fits (view_width v) (length (line_bytes v l)) mi"
  shows "\<exists>h. drawHex tc pl env (of_nat l) v = Some (h, v) \<and>
    (\<forall>j < length (line_bytes v l). let b = line_bytes v l ! j in
      tx h ! (3 * j) = (hex_digit (unat b div 16), hex_format pl v l j 0) \<and>
      tx h ! (3 * j + 1) = (hex_digit (unat b mod 16), hex_format pl v l j 1))"
proof -
  let ?raw = "line_bytes v l" and ?n = "length (line_bytes v l)"
  let ?bs = "hex_cells ?raw @ (if l = lastline v then [0x20] else [])"
  note L = line_length [OF assms(3,4)] and c = view_cells [OF assms(3)]
  have n: "?n \<le> view_width v" using L(1) c(4) by (simp add: less_imp_le)
  have cells: "hex_loop (ve_qt env) ?raw 0 ?n [] = hex_cells ?raw"
    using hex_loop_cells [OF memory_view.bytes [OF assms(1)] assms(2), of 0 ?n ?raw] by simp
  let ?t = "applySelection tc pl (vcursor v) (of_nat l) 3 (fold (apply_item tc pl 3) (items_of v l)
    (applyBasicStyle tc pl ?raw 3 (line_text tc (l = lastline v) (hex_cells ?raw))))"
  have "column_ok 3 2" by (simp add: column_ok_def)
  from column_styled [OF this assms(3,4) hex_cells_nth(1) hex_cells_printable assms(5), of pl]
  have s: "styled 3 2 ?n ?bs (byte_format pl v l) (tx ?t)" by simp
  let ?k = "view_offset v mod view_width v" and ?i = "if vw_selectedarea v = HexArea \<and> ps_nibbleindex (cu_position (vcursor v)) = 0 then 1 else 0 :: nat"
  have len: "3 * ?n \<le> length (tx ?t)" "map fst (tx ?t) = ?bs" using s by (simp_all add: styled_def)
  have mark: "(vw_cursorenabled v \<and> l = view_offset v div view_width v) \<and> min (length (tx ?t)) (3 * ?k + ?i) \<le> 3 * j + r \<and>
      3 * j + r < min (length (tx ?t)) (3 * ?k + ?i + (if vw_selectedarea v = AsciiArea then 2 else 1)) \<longleftrightarrow>
    marked_hex v (l * view_width v + j) r" if "j < ?n" "r < 2" for j r
  proof -
    have "j < view_width v" using that(1) n by simp
    from cursor_byte [OF assms(3) this, of l] area_cases [OF assms(3)] that len(1)
    show ?thesis unfolding marked_hex_def by (auto split: if_splits)
  qed
  have f: "tx (applyCursorHex tc pl v (of_nat l) ?t) ! (3 * j + r) = (?bs ! (3 * j + r), hex_format pl v l j r)" if "j < ?n" "r < 2" for j r
  proof -
    have b: "3 * j + r < length (tx ?t)" using that len(1) by linarith
    have "fst (tx ?t ! (3 * j + r)) = ?bs ! (3 * j + r)" using nth_map [OF b, of fst] len(2) by simp
    moreover have "snd (tx ?t ! (3 * j + r)) = byte_format pl v l j" using s that by (simp add: styled_def)
    ultimately show ?thesis
      unfolding hex_cursor_painted [OF assms(3,4) len(1)] cond_paint_nth [OF b mark [OF that]] hex_format_def by simp
  qed
  have "drawHex tc pl env (of_nat l) v = Some (applyCursorHex tc pl v (of_nat l) ?t, v)"
    by (simp add: cells memory_view.draw_columns(1) [OF assms(1,3,4)])
  moreover have "?bs ! (3 * j) = hex_digit (unat (?raw ! j) div 16)" "?bs ! (3 * j + 1) = hex_digit (unat (?raw ! j) mod 16)" if "j < ?n" for j
    using hex_cells_nth(1) [of ?raw] hex_cells_nth(2) [OF that] that by (simp_all add: nth_append)
  ultimately show ?thesis using f [of _ 0] f [of _ 1] by (simp add: Let_def)
qed

lemma ascii_drawn:
  assumes "memory_view env" "in_document v" "l \<le> lastline v"
    and "\<forall>mi \<in> set (items_of v l). item_fits (view_width v) (length (line_bytes v l)) mi"
  shows "\<exists>a. drawAscii tc pl env (of_nat l) v = Some (a, v) \<and>
    (\<forall>j < length (line_bytes v l). tx a ! j = (printable (line_bytes v l ! j), ascii_format pl v l j))"
proof -
  let ?raw = "line_bytes v l" and ?n = "length (line_bytes v l)"
  let ?bs = "map printable ?raw @ (if l = lastline v then [0x20] else [])"
  note L = line_length [OF assms(2,3)] and c = view_cells [OF assms(2)]
  have n: "?n \<le> view_width v" using L(1) c(4) by (simp add: less_imp_le)
  let ?t = "applySelection tc pl (vcursor v) (of_nat l) 1 (fold (apply_item tc pl 1) (items_of v l)
    (applyBasicStyle tc pl ?raw 1 (line_text tc (l = lastline v) (map printable ?raw))))"
  have ok: "column_ok 1 1" by (simp add: column_ok_def)
  have p: "\<forall>b \<in> set (map printable ?raw). 0x20 \<le> b \<and> b \<le> 0x7E" by (auto simp: printable_def word_le_nat_alt)
  have "length (map printable ?raw) = 1 * ?n" by simp
  from column_styled [OF ok assms(2,3) this p assms(4), of pl]
  have s: "styled 1 1 ?n ?bs (byte_format pl v l) (tx ?t)" by simp
  let ?k = "view_offset v mod view_width v"
  have len: "?n \<le> length (tx ?t)" "map fst (tx ?t) = ?bs" using s by (simp_all add: styled_def)
  have "tx (applyCursorAscii tc pl v (of_nat l) ?t) ! j = (printable (?raw ! j), ascii_format pl v l j)" if "j < ?n" for j
  proof -
    have b: "j < length (tx ?t)" using that len(1) by linarith
    have "fst (tx ?t ! j) = ?bs ! j" using nth_map [OF b, of fst] len(2) by simp
    moreover have "?bs ! j = printable (?raw ! j)" using that by (simp add: nth_append)
    moreover have "snd (tx ?t ! j) = byte_format pl v l j" using s that by (simp add: styled_def)
    moreover have "(vw_cursorenabled v \<and> l = view_offset v div view_width v) \<and> ?k \<le> j \<and> j < min (length (tx ?t)) (?k + 1) \<longleftrightarrow>
        marked_ascii v (l * view_width v + j)"
    proof -
      have "j < view_width v" using that n by simp
      from cursor_byte [OF assms(2) this, of l] b show ?thesis by (auto simp: marked_ascii_def)
    qed
    note cond_paint_nth [OF b this]
    ultimately show ?thesis unfolding ascii_cursor_painted [OF assms(2,3) len(1)] ascii_format_def by simp
  qed
  then show ?thesis by (simp add: memory_view.draw_columns(2) [OF assms(1-3)])
qed

lemma line_drawn:
  assumes "memory_view env" "qbytearray_hex (ve_qt env)" "in_document v" "l \<le> lastline v"
    and "\<forall>mi \<in> set (items_of v l). item_fits (view_width v) (length (line_bytes v l)) mi"
  shows "\<exists>h a. drawHex tc pl env (of_nat l) v = Some (h, v) \<and> drawAscii tc pl env (of_nat l) v = Some (a, v) \<and>
    (\<forall>j < length (line_bytes v l). byte_drawn pl v l j (tx h) (tx a))"
  using hex_drawn [OF assms] ascii_drawn [OF assms(1,3-5)] unfolding byte_drawn_def Let_def
  by (metis (no_types, lifting) line_nth)

end

section \<open>A repaint\<close>

lemma draw_line_total:
  assumes "memory_view env" "in_document v" "l \<le> lastline v"
  shows "\<exists>d. draw_line tc pl nt env f (of_nat l) v = Some (d, v) \<and>
    dl_rect d = getLineRect (ve_font env) (ve_ops env) (of_nat l) f (vw_document v)"
  by (simp add: draw_line_def memory_view.draw_columns [OF assms] Let_def)

lemma render_lines:
  assumes "memory_view env" "in_document v"
  shows "k + n \<le> lastline v + 1 \<Longrightarrow> \<exists>ds. render_loop tc pl nt env f n (of_nat k) v = Some (ds, v) \<and>
    list_all2 (\<lambda>l e. fst e = of_nat l \<and> draw_line tc pl nt env f (of_nat l) v = Some (snd e, v)) [k..<k + n] ds"
proof (induction n arbitrary: k)
  case (Suc n)
  then have k: "k \<le> lastline v" "Suc k + n \<le> lastline v + 1" by simp_all
  obtain d where "draw_line tc pl nt env f (of_nat k) v = Some (d, v)" using draw_line_total [OF assms k(1)] by blast
  moreover obtain ds where "render_loop tc pl nt env f n (of_nat k + 1) v = Some (ds, v)"
    "list_all2 (\<lambda>l e. fst e = of_nat l \<and> draw_line tc pl nt env f (of_nat l) v = Some (snd e, v)) [Suc k..<Suc k + n] ds"
    using Suc.IH [OF k(2)] by (auto simp: add.commute)
  moreover have "[k..<k + Suc n] = k # [Suc k..<Suc k + n]" by (simp add: upt_conv_Cons)
  ultimately show ?case by simp
qed simp

lemma quotient_cint:
  assumes "y < 2 ^ 31" "h < 2 ^ 31"
  shows "(word_of_int (sint (of_nat y :: cint) sdiv sint (of_nat h :: cint)) :: cint) = of_nat (y div h)"
  by (simp add: sint_of_nat_cint [OF assms(1)] sint_of_nat_cint [OF assms(2)] sdiv_nat)

lemma render_range:
  assumes "memory_view env" "in_document v" "view_bytes v \<noteq> []" "first \<le> 2 ^ 40" "past \<le> 2 ^ 40"
  shows "\<exists>ds. render tc pl nt env (of_nat first) (of_nat past) f v = Some (ds, v) \<and>
    list_all2 (\<lambda>l e. fst e = of_nat l \<and> draw_line tc pl nt env f (of_nat l) v = Some (snd e, v)) [first..<min past (lastline v + 1)] ds"
proof -
  have len: "0 < sint (ho_length (ve_ops env) (doc_buffer (vw_document v)))"
    using memory_view.length_int [OF assms(1,2)] assms(3) by simp
  have l: "lastline v + 1 \<le> 2 ^ 24" using line_length(3) [OF assms(2) order_refl] by simp
  have u: "unat (of_nat first :: u64) = first" "unat (of_nat past :: u64) = past" "unat (of_nat (lastline v + 1) :: u64) = lastline v + 1"
    by (rule unat_of_nat_u64, use assms(4,5) l in simp)+
  have m: "unat (min (of_nat past) (of_nat (lastline v + 1)) :: u64) = min past (lastline v + 1)"
    by (simp only: min_def word_le_nat_alt u if_distrib [of unat])
  have lines: "documentLines (ve_ops env) (vw_document v) = Some (of_nat (lastline v + 1))"
    using documentLines_view [OF assms(1,2)] by (simp add: lastline_def)
  have r: "render tc pl nt env (of_nat first) (of_nat past) f v = render_loop tc pl nt env f (min past (lastline v + 1) - first) (of_nat first) v"
    using len by (simp only: render_def if_True lines bind.bind_lunit m u)
  show ?thesis
  proof (cases "first \<le> min past (lastline v + 1)")
    case True
    then show ?thesis using render_lines [OF assms(1,2), of first "min past (lastline v + 1) - first"] unfolding r by simp
  next
    case False
    then have "min past (lastline v + 1) \<le> first" by (simp only: not_le less_imp_le)
    then have "min past (lastline v + 1) - first = 0" "[first..<min past (lastline v + 1)] = []"
      by (simp_all only: diff_is_0_eq upt_conv_Nil)
    then show ?thesis unfolding r by simp
  qed
qed

lemma paint_lines:
  assumes "memory_view env" "in_document v" "view_bytes v \<noteq> []"
    and "ft_lineHeight (ve_font env) = of_nat h" "0 < h" "h < 2 ^ 31" "sint (sc_value sc q) = int x" "y0 \<le> y1" "y1 + 1 < 2 ^ 31"
  shows "\<exists>ds. paintEvent tc pl nt env sc q (of_nat y0) (of_nat y1) v = Some (ds, v) \<and>
    list_all2 (\<lambda>l e. fst e = of_nat l \<and> draw_line tc pl nt env (of_nat x) (of_nat l) v = Some (snd e, v))
      [x + y0 div h..<min (x + y1 div h + 1) (lastline v + 1)] ds"
proof -
  have x: "x < 2 ^ 31" using sint_lt [of "sc_value sc q"] assms(7) by simp
  have y: "y0 < 2 ^ 31" "y1 < 2 ^ 31" "y0 div h < 2 ^ 31" "y1 div h + 1 < 2 ^ 31"
    using assms(8,9) div_below [of y0 "2 ^ 31" h] div_below [of y1 "2 ^ 31 - 1" h] by simp_all
  have nz: "(of_nat h :: cint) \<noteq> 0" using sint_of_nat_cint [OF assms(6)] assms(5) by auto
  have q: "(word_of_int (sint (of_nat y0 :: cint) sdiv sint (of_nat h :: cint)) :: cint) - headerLineCount = of_nat (y0 div h)"
    "(word_of_int (sint (of_nat y1 :: cint) sdiv sint (of_nat h :: cint)) :: cint) + 1 - headerLineCount = of_nat (y1 div h + 1)"
    unfolding quotient_cint [OF y(1) assms(6)] quotient_cint [OF y(2) assms(6)] by (simp_all add: headerLineCount_def)
  have s: "(if sint (of_nat k :: cint) < 0 then 0 else of_nat k :: cint) = of_nat k" if "k < 2 ^ 31" for k
    using sint_of_nat_cint [OF that] by simp
  have a: "(of_nat x + of_nat (y0 div h) :: u64) = of_nat (x + y0 div h)" "(of_nat x + of_nat (y1 div h + 1) :: u64) = of_nat (x + y1 div h + 1)"
    by simp_all
  have "paintEvent tc pl nt env sc q (of_nat y0) (of_nat y1) v =
      render tc pl nt env (of_nat (x + y0 div h)) (of_nat (x + y1 div h + 1)) (of_nat x) v"
    unfolding paintEvent_def first_visible [OF assms(1,2,7)] assms(4) bind.bind_lunit Let_def if_not_P [OF nz] q
      s [OF y(3)] s [OF y(4)] scast_of_nat [OF y(3)] scast_of_nat [OF y(4)] a ..
  then show ?thesis by (simp only:) (rule render_range [OF assms(1-3)], use x y in simp_all)
qed

lemma list_all2_fst: "list_all2 (\<lambda>l e. fst e = g l \<and> Q l e) ls ds \<Longrightarrow> map fst ds = map g ls"
  by (induction rule: list_all2_induct) simp_all

lemma list_all2_upt_mem:
  assumes "list_all2 P [a..<b] ds" "a \<le> l" "l < b"
  shows "\<exists>e \<in> set ds. P l e"
  using assms by (metis list_all2_conv_all_nth length_upt nth_mem nth_upt le_add_diff_inverse diff_less_mono)

lemma line_top:
  assumes "y < 2 ^ 31" "ft_lineHeight ft = of_nat h" "h < 2 ^ 31"
  shows "getLineRect ft ops (of_nat (x + y div h)) (of_nat x) doc = (0, of_nat (y div h * h), getEndColumnX ft ops doc, of_nat h)"
proof -
  have "(of_nat (x + y div h) - of_nat x + scast headerLineCount :: u64) * scast (of_nat h :: cint) = of_nat (y div h * h)"
    unfolding scast_of_nat [OF assms(3)] headerLineCount_def by simp
  moreover have "y div h * h \<le> y" by simp
  then have "y div h * h < 2 ^ 31" using assms(1) by (rule le_less_trans)
  then have "y div h * h < 2 ^ 32" by simp
  ultimately show ?thesis using ucast_of_nat [of "y div h * h"] by (simp only: getLineRect_def assms(2))
qed

section \<open>Properties\<close>

text \<open>C31: A line is drawn as the document says. In both columns the characters of a byte are its digits and its
printable form, and their format is that of its value (0 and 255 stand out), replaced by that of the metadata that
cover the byte, replaced by that of the selection, replaced by that of the cursor, for lines whose metadata do
not start behind their bytes.\<close>

theorem line_painted:
  assumes "memory_view env" "qbytearray_hex (ve_qt env)" "text_cursor tc tx pos an" "in_document v" "l \<le> lastline v"
    and "\<forall>mi \<in> set (items_of v l). item_fits (view_width v) (length (line_bytes v l)) mi"
  shows "\<exists>h a. drawHex tc pl env (of_nat l) v = Some (h, v) \<and> drawAscii tc pl env (of_nat l) v = Some (a, v) \<and>
    (\<forall>j < length (line_bytes v l). byte_drawn pl v l j (tx h) (tx a))"
  by (rule text_cursor.line_drawn [OF assms(3,1,2,4,5,6)])

text \<open>C32: A repaint covers the exposed rectangle. With the scroll bar at line \<open>x\<close> the lines drawn are exactly those of
the document that meet the rectangle, each once and in order, and every height of the rectangle at which the document has
a line lies in the drawn rectangle of this line.\<close>

theorem repaint_covers:
  assumes "memory_view env" "in_document v" "view_bytes v \<noteq> []"
    and "ft_lineHeight (ve_font env) = of_nat h" "0 < h" "h < 2 ^ 31" "sint (sc_value sc q) = int x" "y0 \<le> y1" "y1 + 1 < 2 ^ 31"
  shows "\<exists>ds. paintEvent tc pl nt env sc q (of_nat y0) (of_nat y1) v = Some (ds, v) \<and>
    map fst ds = map of_nat [x + y0 div h..<min (x + y1 div h + 1) (lastline v + 1)] \<and>
    (\<forall>y. y0 \<le> y \<and> y \<le> y1 \<and> x + y div h \<le> lastline v \<longrightarrow> (\<exists>d right top. (of_nat (x + y div h), d) \<in> set ds \<and>
      draw_line tc pl nt env (of_nat x) (of_nat (x + y div h)) v = Some (d, v) \<and>
      dl_rect d = (0, of_nat top, right, of_nat h) \<and> top \<le> y \<and> y < top + h))"
proof -
  obtain ds where ds: "paintEvent tc pl nt env sc q (of_nat y0) (of_nat y1) v = Some (ds, v)"
    "list_all2 (\<lambda>l e. fst e = of_nat l \<and> draw_line tc pl nt env (of_nat x) (of_nat l) v = Some (snd e, v))
      [x + y0 div h..<min (x + y1 div h + 1) (lastline v + 1)] ds"
    using paint_lines [OF assms] by blast
  have "map fst ds = map of_nat [x + y0 div h..<min (x + y1 div h + 1) (lastline v + 1)]"
    by (rule list_all2_fst [OF ds(2)])
  moreover have "\<exists>d right top. (of_nat (x + y div h), d) \<in> set ds \<and> draw_line tc pl nt env (of_nat x) (of_nat (x + y div h)) v = Some (d, v) \<and>
      dl_rect d = (0, of_nat top, right, of_nat h) \<and> top \<le> y \<and> y < top + h"
    if y: "y0 \<le> y" "y \<le> y1" "x + y div h \<le> lastline v" for y
  proof -
    have "y0 div h \<le> y div h" "y div h \<le> y1 div h" using y by (simp_all add: div_le_mono)
    then have i: "x + y0 div h \<le> x + y div h" "x + y div h < min (x + y1 div h + 1) (lastline v + 1)"
      using y(3) by (simp_all add: less_Suc_eq_le)
    obtain e where e: "e \<in> set ds" "fst e = of_nat (x + y div h)" "draw_line tc pl nt env (of_nat x) (of_nat (x + y div h)) v = Some (snd e, v)"
      using list_all2_upt_mem [OF ds(2) i] by blast
    have "y < 2 ^ 31" using y(2) assms(9) by simp
    from draw_line_total [OF assms(1,2) y(3), of tc pl nt "of_nat x"] e(3) line_top [OF this assms(4,6)]
    have "dl_rect (snd e) = (0, of_nat (y div h * h), getEndColumnX (ve_font env) (ve_ops env) (vw_document v), of_nat h)" by simp
    moreover have "y div h * h \<le> y" "y < y div h * h + h" using assms(5) by (simp_all add: dividend_less_div_times add.commute)
    moreover have "(of_nat (x + y div h), snd e) \<in> set ds" using e(1,2) by (metis prod.collapse)
    ultimately show ?thesis using e(3) by blast
  qed
  ultimately show ?thesis using ds(1) by blast
qed

section \<open>A line of text\<close>

text \<open>One line with its position and anchor, for which the laws hold.\<close>

record text_line =
  tl_chars :: "(byte \<times> nat char_format) list"
  tl_pos :: nat
  tl_anchor :: nat

definition line_to :: "bool \<Rightarrow> nat \<Rightarrow> text_line \<Rightarrow> text_line" where
  "line_to keep p t = t\<lparr>tl_pos := p, tl_anchor := if keep then tl_anchor t else p\<rparr>"

definition std_line :: "(text_line, nat) text_ops" where
  "std_line = \<lparr>tc_new = \<lparr>tl_chars = [], tl_pos = 0, tl_anchor = 0\<rparr>,
     tc_insertText = (\<lambda>bs t. t\<lparr>tl_chars := tl_chars t @ map (\<lambda>b. (b, plain_format)) bs, tl_pos := length (tl_chars t) + length bs,
       tl_anchor := length (tl_chars t) + length bs\<rparr>),
     tc_setPosition = (\<lambda>k t. if unat k \<le> length (tl_chars t) then line_to False (unat k) t else t),
     tc_right = (\<lambda>keep k t. line_to keep (min (length (tl_chars t)) (tl_pos t + unat k)) t),
     tc_left = (\<lambda>keep k t. line_to keep (tl_pos t - unat k) t),
     tc_endOfLine = (\<lambda>keep t. line_to keep (length (tl_chars t)) t),
     tc_clearSelection = (\<lambda>t. t\<lparr>tl_anchor := tl_pos t\<rparr>),
     tc_setCharFormat = (\<lambda>f t. t\<lparr>tl_chars := paint (min (tl_anchor t) (tl_pos t)) (max (tl_anchor t) (tl_pos t)) f (tl_chars t)\<rparr>)\<rparr>"

interpretation std_line: text_cursor std_line tl_chars tl_pos tl_anchor
  by unfold_locales (simp_all add: std_line_def line_to_def unat_of_nat_cint del: of_nat_unat)

definition std_palette :: "nat palette" where
  "std_palette = \<lparr>pl_highlight = 1, pl_highlightedText = 2, pl_window = 3, pl_windowText = 4, co_isValid = (\<lambda>c. c \<noteq> 0),
     co_lightness = (\<lambda>c. 0), co_black = 4, co_gray = 5, co_darker = (\<lambda>c. c + 10), co_lighter = (\<lambda>n c. c + 20)\<rparr>"

fun hex_number :: "nat \<Rightarrow> string" where
  "hex_number n = (if n < 16 then [char_of (unat (hex_digit n))] else hex_number (n div 16) @ [char_of (unat (hex_digit (n mod 16)))])"

declare hex_number.simps [simp del]

definition std_numbers :: number_ops where
  "std_numbers = \<lparr>nt_number = (\<lambda>n. hex_number (unat n)), nt_justified = (\<lambda>w s. replicate (unat w - length s) CHR ''0'' @ s), nt_upper = map (\<lambda>c. char_of (unat (upper_byte (of_char c))))\<rparr>"

text \<open>The example view with the second and third byte marked.\<close>

definition marked_item :: "nat metadata_item" where
  "marked_item = \<lparr>mi_line = 0, mi_start = 1, mi_length = 2, mi_foreground = 7, mi_background = 0, mi_comment = ''x''\<rparr>"

definition marked_widget :: "(byte list, hex_command list \<times> hex_command list, nat) hexview" where
  "marked_widget = std_widget\<lparr>vw_document := view_doc\<lparr>doc_metadata := setMetadata marked_item (metadata_new 4)\<rparr>\<rparr>"

lemma marked_widget_ok:
  "in_document marked_widget" "view_bytes marked_widget = [0x41, 0x42, 0x43, 0x44, 0x45, 0x46]" "view_width marked_widget = 4"
proof -
  have s: "vcursor marked_widget = vcursor std_widget" "doc_hexlinewidth (vw_document marked_widget) = doc_hexlinewidth (vw_document std_widget)"
    "doc_buffer (vw_document marked_widget) = doc_buffer (vw_document std_widget)" "vw_selectedarea marked_widget = vw_selectedarea std_widget"
    by (simp_all add: marked_widget_def std_widget_def vcursor_def)
  then show "in_document marked_widget" using std_widget_ok(1) by (simp add: in_document_def)
  show "view_bytes marked_widget = [0x41, 0x42, 0x43, 0x44, 0x45, 0x46]" "view_width marked_widget = 4"
    using s std_widget_fields by (simp_all add: view_bytes_def view_width_def)
qed

lemma marked_items: "items_of marked_widget 0 = [marked_item]" "length (line_bytes marked_widget 0) = 4" "lastline marked_widget = 1"
proof -
  show "items_of marked_widget 0 = [marked_item]"
    by (simp add: items_of_def line_items_def marked_widget_def setMetadata_def metadata_new_def marked_item_def)
qed (simp_all add: line_bytes_def lastline_def marked_widget_ok)

theorem line_painted_witness:
  "\<exists>h a. drawHex std_line std_palette std_view 0 marked_widget = Some (h, marked_widget) \<and>
    drawAscii std_line std_palette std_view 0 marked_widget = Some (a, marked_widget) \<and>
    (\<forall>j < 4. byte_drawn std_palette marked_widget 0 j (tl_chars h) (tl_chars a))"
proof -
  have "\<forall>mi \<in> set (items_of marked_widget 0). item_fits (view_width marked_widget) (length (line_bytes marked_widget 0)) mi"
    unfolding marked_items marked_widget_ok by (simp add: marked_item_def item_fits_def)
  from line_painted [OF std_view.memory_view_axioms _ std_line.text_cursor_axioms marked_widget_ok(1) _ this, of std_palette]
  show ?thesis using std_hex.qbytearray_hex_axioms by (simp add: marked_items std_view_def)
qed

theorem repaint_covers_witness:
  "\<exists>ds. paintEvent std_line std_palette std_numbers std_view std_bar
      \<lparr>br_value = 0, br_minimum = 0, br_maximum = 99, br_step = 1, br_visible = False\<rparr> 3 30 marked_widget = Some (ds, marked_widget) \<and>
    map fst ds = [0, 1]"
proof -
  let ?bar = "\<lparr>br_value = 0, br_minimum = 0, br_maximum = 99, br_step = 1, br_visible = False\<rparr>"
  have "ft_lineHeight (ve_font std_view) = of_nat 16" "sint (sc_value std_bar ?bar) = int 0" "view_bytes marked_widget \<noteq> []"
    by (simp_all add: std_view_def std_font_def std_bar_def marked_widget_ok)
  from repaint_covers [OF std_view.memory_view_axioms marked_widget_ok(1) this(3,1) _ _ this(2), of 3 30 std_line std_palette std_numbers]
  obtain ds where "paintEvent std_line std_palette std_numbers std_view std_bar ?bar (of_nat 3) (of_nat 30) marked_widget = Some (ds, marked_widget)"
    "map fst ds = map of_nat [0 + 3 div 16..<min (0 + 30 div 16 + 1) (lastline marked_widget + 1)]" by auto
  then show ?thesis by (simp add: marked_items upt_rec)
qed

end
