(* ===== verification/Hex_Header.thy ===== *)
theory Hex_Header
  imports Hex_Paint
begin

text \<open>
  The parts of a page of the hex view around its lines (\<open>client/QHexView/document/qhexrenderer.cpp\<close>): the address in front
  of a line, the header with the numbers of the columns, and the lines of the frame.

  What the code draws today are the addresses only: \<open>renderFrame\<close> returns before its first line, and the call of
  \<open>drawHeader\<close> is commented out. The formatting of numbers is the parameter \<open>number_ops\<close>, with Qt's documented
  behaviour in the locale \<open>number_text\<close>.

  The theorem: the header would number the columns right over their bytes, as its comment says, but in a rectangle that
  has no height.
\<close>

section \<open>Rectangles\<close>

text \<open>A rectangle is left, top, width and height. \<open>setX\<close> moves the left edge and keeps the right one.\<close>

type_synonym qrect = "cint \<times> cint \<times> cint \<times> cint"

fun rect_setX :: "cint \<Rightarrow> qrect \<Rightarrow> qrect" where
  "rect_setX x (x0, y0, w0, h0) = (x, y0, w0 + (x0 - x), h0)"

fun rect_setWidth :: "cint \<Rightarrow> qrect \<Rightarrow> qrect" where
  "rect_setWidth w (x0, y0, w0, h0) = (x0, y0, w, h0)"

section \<open>Addresses, header and frame\<close>

text \<open>A text in a rectangle, centred or at its left edge; all are centred vertically.\<close>

datatype alignment = HCenter | Left

record placed_text =
  pt_rect :: qrect
  pt_align :: alignment
  pt_text :: string

definition drawAddress :: "number_ops \<Rightarrow> font \<Rightarrow> 'b hex_ops \<Rightarrow> qrect \<Rightarrow> u64 \<Rightarrow> ('b, 's, 'c) qhexdocument \<Rightarrow> placed_text" where
  "drawAddress nt ft ops linerect line doc =
     \<lparr>pt_rect = rect_setWidth (getHexColumnX ft ops doc) linerect, pt_align = HCenter, pt_text = address_text nt ops line doc\<rparr>"

text \<open>The counter of the columns is a \<open>quint8\<close>; the line width fits in one, so that the loop ends.\<close>

fun header_loop :: "number_ops \<Rightarrow> nat \<Rightarrow> u8 \<Rightarrow> string \<Rightarrow> string" where
  "header_loop nt 0 i hexheader = hexheader"
| "header_loop nt (Suc n) i hexheader =
     header_loop nt n (i + 1) (hexheader @ nt_upper nt (nt_justified nt 2 (nt_number nt (ucast i)) @ '' ''))"

definition drawHeader :: "number_ops \<Rightarrow> font \<Rightarrow> 'b hex_ops \<Rightarrow> ('b, 's, 'c) qhexdocument \<Rightarrow> placed_text list" where
  "drawHeader nt ft ops doc =
     (let rect = (0, 0, getEndColumnX ft ops doc, headerLineCount * ft_lineHeight ft);
          hexheader = header_loop nt (unat (doc_hexlinewidth doc)) 0 [];
          addressrect = rect_setWidth (getHexColumnX ft ops doc) rect;
          hexrect = rect_setX (getHexColumnX ft ops doc + borderSize ft doc) rect;
          hexrect = rect_setWidth (ft_cells ft (hexLineWidth doc * 3)) hexrect;
          asciirect = rect_setX (getAsciiColumnX ft ops doc) rect;
          asciirect = rect_setWidth (getEndColumnX ft ops doc - getAsciiColumnX ft ops doc) asciirect
      in [\<lparr>pt_rect = addressrect, pt_align = HCenter, pt_text = ''Offset''\<rparr>,
          \<lparr>pt_rect = hexrect, pt_align = Left, pt_text = hexheader\<rparr>,
          \<lparr>pt_rect = asciirect, pt_align = HCenter, pt_text = ''Ascii''\<rparr>])"

text \<open>A stroke from one point to another. \<open>renderFrame\<close> returns at once; \<open>frame_lines\<close> is the code behind the return, where
\<open>top\<close> and \<open>bottom\<close> are those of the painter's window.\<close>

type_synonym stroke = "(cint \<times> cint) \<times> (cint \<times> cint)"

definition renderFrame :: "stroke list" where "renderFrame = []"

definition frame_lines :: "font \<Rightarrow> 'b hex_ops \<Rightarrow> cint \<Rightarrow> cint \<Rightarrow> ('b, 's, 'c) qhexdocument \<Rightarrow> stroke list" where
  "frame_lines ft ops top_edge bottom_edge doc =
     (let hexx = getHexColumnX ft ops doc; asciix = getAsciiColumnX ft ops doc; endx = getEndColumnX ft ops doc
      in [((0, headerLineCount * ft_lineHeight ft - 1), (endx, headerLineCount * ft_lineHeight ft - 1)),
          ((hexx, top_edge), (hexx, bottom_edge)), ((asciix, top_edge), (asciix, bottom_edge)), ((endx, top_edge), (endx, bottom_edge))])"

section \<open>Numbers as text\<close>

definition hex_char :: "nat \<Rightarrow> char" where
  "hex_char k = ''0123456789abcdef'' ! k"

definition upper_char :: "char \<Rightarrow> char" where
  "upper_char c = char_of (unat (upper_byte (of_char c)))"

definition column_digit :: "nat \<Rightarrow> char" where
  "column_digit k = ''0123456789ABCDEF'' ! k"

locale number_text =
  fixes nt :: number_ops
  assumes number: "unat n < 256 \<Longrightarrow> nt_number nt n =
      (if unat n < 16 then [hex_char (unat n)] else [hex_char (unat n div 16), hex_char (unat n mod 16)])"
    and justified: "int (length s) \<le> sint w \<Longrightarrow> nt_justified nt w s = replicate (nat (sint w) - length s) CHR ''0'' @ s"
    and upper: "nt_upper nt s = map upper_char s"
begin

lemma column_number: "nt_upper nt (nt_justified nt 2 (nt_number nt (ucast i)) @ '' '') =
    [column_digit (unat i div 16), column_digit (unat i mod 16), CHR '' '']" for i :: u8
proof -
  have n: "unat (ucast i :: u64) = unat i" "unat i < 256" using unat_u8 [of i] by (simp_all add: unsigned_ucast_eq take_bit_nat_eq_self)
  have "\<forall>k \<in> set [0..<16]. upper_char (hex_char k) = column_digit k" by code_simp
  then have digits: "upper_char (hex_char k) = column_digit k" if "k < 16" for k using that by simp
  have blank: "upper_char CHR '' '' = CHR '' ''" "upper_char CHR ''0'' = CHR ''0''" by code_simp+
  show ?thesis using n digits [of "unat i"] digits [of "unat i div 16"] digits [of "unat i mod 16"] digits [of 0]
    by (auto simp: number justified upper blank column_digit_def)
qed

lemma header_loop_columns:
  "unat i + n < 256 \<Longrightarrow> header_loop nt n i s =
     s @ concat (map (\<lambda>k. [column_digit (k div 16), column_digit (k mod 16), CHR '' '']) [unat i..<unat i + n])"
proof (induction n arbitrary: i s)
  case (Suc n)
  have "unat (i + 1) = Suc (unat i)" using Suc.prems by (simp add: unat_word_ariths)
  moreover have "[unat i..<unat i + Suc n] = unat i # [Suc (unat i)..<unat i + Suc n]" by (rule upt_conv_Cons) simp
  ultimately show ?case using Suc by (simp add: column_number del: upt_Suc)
qed simp

end

section \<open>Properties\<close>

lemma column_cells_nth:
  assumes "i < n" "r < 3"
  shows "concat (map (\<lambda>k. [f k, g k, c]) [0..<n]) ! (3 * i + r) = [f i, g i, c] ! r"
proof -
  have "length (concat (map (\<lambda>k. [f k, g k, c]) [0..<m])) = 3 * m" for m by (induction m) simp_all
  with assms show ?thesis
  proof (induction n)
    case (Suc n)
    then show ?case by (cases "i = n") (auto simp: nth_append)
  qed simp
qed

text \<open>The header would stand over the columns it numbers, and is invisible. Its hexadecimal text starts at the left edge of
the bytes of every drawn line and has the two digits of column \<open>i\<close> where the line has the digits of byte \<open>i\<close>; but each of its
three rectangles has the height zero.\<close>

theorem header_over_columns:
  assumes "number_text nt" "draw_line tc pl nt env firstline line v = Some (d, v')"
    and "i < unat (doc_hexlinewidth (vw_document v))" "unat (doc_hexlinewidth (vw_document v)) = length bs"
  shows "\<exists>offset hex ascii. drawHeader nt (ve_font env) (ve_ops env) (vw_document v) = [offset, hex, ascii] \<and>
    (\<forall>t \<in> {offset, hex, ascii}. snd (snd (snd (pt_rect t))) = 0) \<and>
    pt_align hex = Left \<and> fst (pt_rect hex) = fst (dl_hex d) \<and>
    pt_text hex ! (3 * i) = column_digit (i div 16) \<and> pt_text hex ! (3 * i + 1) = column_digit (i mod 16) \<and>
    hex_cells bs ! (3 * i) = hex_digit (unat (bs ! i) div 16) \<and> hex_cells bs ! (3 * i + 1) = hex_digit (unat (bs ! i) mod 16)"
proof -
  let ?n = "unat (doc_hexlinewidth (vw_document v))"
  have bound: "unat (0 :: u8) + ?n < 256" using unat_u8 [of "doc_hexlinewidth (vw_document v)"] by simp
  have header: "header_loop nt ?n 0 [] = concat (map (\<lambda>k. [column_digit (k div 16), column_digit (k mod 16), CHR '' '']) [0..<?n])"
    using number_text.header_loop_columns [OF assms(1) bound, of "[]"] by simp
  note nths = column_cells_nth [OF assms(3) [unfolded assms(4)], of 0, simplified] column_cells_nth [OF assms(3) [unfolded assms(4)], of 1, simplified]
  have "fst (dl_hex d) = getHexColumnX (ve_font env) (ve_ops env) (vw_document v) + borderSize (ve_font env) (vw_document v)"
    using assms(2) by (auto simp: draw_line_def Let_def split: bind_splits)
  moreover have cells: "hex_cells bs = concat (map (\<lambda>k. [hex_digit (unat (bs ! k) div 16), hex_digit (unat (bs ! k) mod 16), 0x20]) [0..<length bs])"
    unfolding hex_cells_def by (subst (1) map_nth [symmetric]) (simp only: map_map comp_def)
  ultimately show ?thesis
    by (simp add: drawHeader_def Let_def header [unfolded assms(4)] headerLineCount_def assms(4) nths)
qed

interpretation std_numbers: number_text std_numbers
proof unfold_locales
  show "nt_number std_numbers n = (if unat n < 16 then [hex_char (unat n)] else [hex_char (unat n div 16), hex_char (unat n mod 16)])"
    if "unat n < 256" for n :: u64
  proof -
    have "\<forall>k \<in> set [0..<16]. char_of (unat (hex_digit k)) = hex_char k" by code_simp
    then have "char_of (unat (hex_digit k)) = hex_char k" if "k < 16" for k using that by simp
    moreover have "unat n div 16 < 16" using that by simp
    ultimately show ?thesis
      by (simp add: std_numbers_def hex_number.simps [of "unat n"] hex_number.simps [of "unat n div 16"])
  qed
  show "nt_justified std_numbers w s = replicate (nat (sint w) - length s) CHR ''0'' @ s" if "int (length s) \<le> sint w" for w :: cint and s
    using that sint_nonneg [of w] by (simp add: std_numbers_def)
  show "nt_upper std_numbers s = map upper_char s" for s
    by (simp add: std_numbers_def upper_char_def)
qed

end
