(* ===== verification/Hex_File.thy ===== *)
theory Hex_File
  imports Hex_Document
begin

text \<open>
  Loading and saving of documents (\<open>saveTo\<close> and the factories of \<open>client/QHexView/document/qhexdocument.cpp\<close> and
  \<open>.h\<close>, the device methods of the buffers in \<open>buffer/\<close>). The class of buffer of the templates is \<open>QMemoryBuffer\<close>, the
  only one the client uses.

  A device of Qt is its kind, its open mode, its bytes and its position; what \<open>QIODevice\<close> does is a parameter, \<open>device_ops\<close>,
  with the documented behaviour in the locale \<open>qdevice_laws\<close>.

  The theorems: a saved document is loaded again, and what a \<open>QMemoryRefBuffer\<close> writes.
\<close>

section \<open>Devices\<close>

datatype device_kind = Buffer_device | File_device | Other_device

datatype open_mode = Not_open | ReadOnly | WriteOnly | ReadWrite

record io_device =
  id_kind :: device_kind
  id_mode :: open_mode
  id_data :: qdevice

definition isOpen :: "io_device \<Rightarrow> bool" where "isOpen d \<longleftrightarrow> id_mode d \<noteq> Not_open"

definition isWritable :: "io_device \<Rightarrow> bool" where "isWritable d \<longleftrightarrow> id_mode d = WriteOnly \<or> id_mode d = ReadWrite"

text \<open>Opening may fail and leave the device closed. \<open>do_readChars\<close> is \<open>read( char *, qint64 )\<close>; an error is \<open>None\<close>.\<close>

record device_ops =
  do_open :: "open_mode \<Rightarrow> io_device \<Rightarrow> io_device"
  do_close :: "io_device \<Rightarrow> io_device"
  do_readAll :: "io_device \<Rightarrow> byte list \<times> io_device"
  do_write :: "byte list \<Rightarrow> io_device \<Rightarrow> io_device"
  do_readChars :: "int \<Rightarrow> qdevice \<Rightarrow> byte list option \<times> qdevice"

definition at_pos :: "int \<Rightarrow> qdevice \<Rightarrow> qdevice" where "at_pos p d = d\<lparr>dv_pos := p\<rparr>"

text \<open>Bytes are written over those at the position.\<close>

definition overwrite :: "byte list \<Rightarrow> qdevice \<Rightarrow> qdevice" where
  "overwrite bs d =
     (let p = nat (dv_pos d) in
      \<lparr>dv_bytes = take p (dv_bytes d) @ bs @ drop (p + length bs) (dv_bytes d), dv_pos = dv_pos d + int (length bs)\<rparr>)"

definition in_bounds :: "qdevice \<Rightarrow> bool" where "in_bounds d \<longleftrightarrow> 0 \<le> dv_pos d \<and> dv_pos d \<le> int (length (dv_bytes d))"

locale qdevice_laws =
  fixes dop :: device_ops
  assumes open_buffer: "id_kind d = Buffer_device \<Longrightarrow> id_mode d = Not_open \<Longrightarrow> m = ReadOnly \<or> m = ReadWrite \<Longrightarrow>
      do_open dop m d = d\<lparr>id_mode := m, id_data := at_pos 0 (id_data d)\<rparr>"
    and close: "id_kind (do_close dop d) = id_kind d" "id_mode (do_close dop d) = Not_open"
      "dv_bytes (id_data (do_close dop d)) = dv_bytes (id_data d)"
    and readAll: "id_mode d = ReadOnly \<or> id_mode d = ReadWrite \<Longrightarrow> in_bounds (id_data d) \<Longrightarrow>
      do_readAll dop d = (drop (nat (dv_pos (id_data d))) (dv_bytes (id_data d)), d\<lparr>id_data := at_pos (int (length (dv_bytes (id_data d)))) (id_data d)\<rparr>)"
    and write_at: "isWritable d \<Longrightarrow> in_bounds (id_data d) \<Longrightarrow> do_write dop bs d = d\<lparr>id_data := overwrite bs (id_data d)\<rparr>"
    and readChars: "in_bounds q \<Longrightarrow> 0 \<le> n \<Longrightarrow>
      (let bs = take (nat n) (drop (nat (dv_pos q)) (dv_bytes q)) in do_readChars dop n q = (Some bs, at_pos (dv_pos q + int (length bs)) q))"

section \<open>The buffers\<close>

text \<open>The device methods of the classes: reading says whether the device is accepted. \<open>setParent\<close> has no effect here.\<close>

definition memory_load :: "device_ops \<Rightarrow> io_device \<Rightarrow> (bool \<times> byte list) \<times> io_device" where
  "memory_load dop device = (case do_readAll dop device of (bs, device) \<Rightarrow> ((True, bs), device))"

definition memory_save :: "device_ops \<Rightarrow> byte list \<Rightarrow> io_device \<Rightarrow> io_device" where
  "memory_save dop b device = do_write dop b device"

text \<open>A failed cast leaves a null pointer.\<close>

definition ref_load :: "io_device \<Rightarrow> qdevice option" where
  "ref_load device = (if id_kind device = Buffer_device then Some (id_data device) else None)"

definition file_load :: "device_ops \<Rightarrow> io_device \<Rightarrow> io_device option" where
  "file_load dop device =
     (if id_kind device = File_device then Some (if \<not> isOpen device then do_open dop ReadWrite device else device) else None)"

text \<open>The loop of \<open>QMemoryRefBuffer::write\<close> for large buffers; \<open>None\<close> when it does not end.\<close>

partial_function (option) ref_loop :: "qt_env \<Rightarrow> device_ops \<Rightarrow> qdevice \<Rightarrow> io_device \<Rightarrow> (qdevice \<times> io_device) option" where
  "ref_loop qt dop b device =
     (if dv_pos b < int (length (dv_bytes b)) then
        (case do_readChars dop 4096 b of
           (None, b) \<Rightarrow> Some (b, device)
         | (Some tmpBuf, b) \<Rightarrow>
             if length tmpBuf > 0
             then ref_loop qt dop (qd_seek qt b (dv_pos b + int (length tmpBuf))) (do_write dop tmpBuf device)
             else ref_loop qt dop b device)
      else Some (b, device))"

text \<open>\<open>readAll\<close> of the buffer, which is open.\<close>

definition ref_save :: "qt_env \<Rightarrow> device_ops \<Rightarrow> qdevice \<Rightarrow> io_device \<Rightarrow> (qdevice \<times> io_device) option" where
  "ref_save qt dop b device =
     (let b = qd_seek qt b 0 in
      if int (length (dv_bytes b)) < INT_MAX
      then (case do_readAll dop \<lparr>id_kind = Buffer_device, id_mode = ReadWrite, id_data = b\<rparr> of
          (bs, own) \<Rightarrow> Some (id_data own, do_write dop bs device))
      else ref_loop qt dop b device)"

text \<open>\<open>QHexBuffer::read\<close> from bytes and from memory: a new \<open>QBuffer\<close> is filled, opened and read.\<close>

definition buffer_device :: "byte list \<Rightarrow> io_device" where
  "buffer_device ba = \<lparr>id_kind = Buffer_device, id_mode = Not_open, id_data = \<lparr>dv_bytes = ba, dv_pos = 0\<rparr>\<rparr>"

definition opened :: "device_ops \<Rightarrow> io_device \<Rightarrow> io_device" where
  "opened dop buffer = (if \<not> isOpen buffer then do_open dop ReadWrite buffer else buffer)"

definition hexbuffer_read_bytes :: "device_ops \<Rightarrow> byte list \<Rightarrow> bool \<times> byte list" where
  "hexbuffer_read_bytes dop ba = fst (memory_load dop (opened dop (buffer_device ba)))"

definition hexbuffer_read_chars :: "device_ops \<Rightarrow> byte list \<Rightarrow> cint \<Rightarrow> (bool \<times> byte list) option" where
  "hexbuffer_read_chars dop data sz = do {
     bs \<leftarrow> bytes_at data 0 (nat (sint sz));
     Some (fst (memory_load dop (opened dop (buffer_device bs))))
   }"

section \<open>Documents\<close>

definition doc_saveTo :: "('b \<Rightarrow> io_device \<Rightarrow> ('b \<times> io_device) option) \<Rightarrow> ('b, 's, 'c) qhexdocument \<Rightarrow> io_device \<Rightarrow>
    (bool \<times> ('b, 's, 'c) qhexdocument \<times> io_device) option" where
  "doc_saveTo save doc device =
     (if \<not> isWritable device then Some (False, doc, device)
      else do {
        (b, device) \<leftarrow> save (doc_buffer doc) device;
        Some (True, doc\<lparr>doc_buffer := b\<rparr>, device)
      })"

text \<open>The factories for \<open>QMemoryBuffer\<close>; \<open>w\<close> and \<open>s\<close> are the uninitialised line width and the empty undo stack of the
new document. The document is \<open>None\<close> inside when the null pointer is returned.\<close>

definition fromDevice :: "device_ops \<Rightarrow> u8 \<Rightarrow> 's \<Rightarrow> io_device \<Rightarrow> ((byte list, 's, 'c) qhexdocument option \<times> io_device) option" where
  "fromDevice dop w s iodevice =
     (let needsclose = (\<not> isOpen iodevice);
          iodevice = (if needsclose then do_open dop ReadWrite iodevice else iodevice)
      in case memory_load dop iodevice of
        ((True, hexbuffer), iodevice) \<Rightarrow> do {
          let iodevice = (if needsclose then do_close dop iodevice else iodevice);
          doc \<leftarrow> document_new w s hexbuffer;
          Some (Some doc, iodevice)
        }
      | ((False, hexbuffer), iodevice) \<Rightarrow> Some (None, iodevice))"

definition fromFile :: "device_ops \<Rightarrow> u8 \<Rightarrow> 's \<Rightarrow> io_device \<Rightarrow> ((byte list, 's, 'c) qhexdocument option \<times> io_device) option" where
  "fromFile dop w s f = do {
     (doc, f) \<leftarrow> fromDevice dop w s (do_open dop ReadOnly f);
     Some (doc, do_close dop f)
   }"

definition fromMemory :: "device_ops \<Rightarrow> u8 \<Rightarrow> 's \<Rightarrow> byte list \<Rightarrow> (byte list, 's, 'c) qhexdocument option" where
  "fromMemory dop w s ba = document_new w s (snd (hexbuffer_read_bytes dop ba))"

definition fromMemory_chars :: "device_ops \<Rightarrow> u8 \<Rightarrow> 's \<Rightarrow> byte list \<Rightarrow> cint \<Rightarrow> (byte list, 's, 'c) qhexdocument option" where
  "fromMemory_chars dop w s data sz = do {
     (ok, b) \<leftarrow> hexbuffer_read_chars dop data sz;
     document_new w s b
   }"

text \<open>A document on a file, which the buffer opens.\<close>

definition fromLargeFile :: "device_ops \<Rightarrow> u8 \<Rightarrow> 's \<Rightarrow> io_device \<Rightarrow> (qdevice, 's, 'c) qhexdocument option option" where
  "fromLargeFile dop w s f =
     (case file_load dop f of
        Some hexbuffer \<Rightarrow> do { doc \<leftarrow> document_new w s (id_data hexbuffer); Some (Some doc) }
      | None \<Rightarrow> Some None)"

section \<open>What is written\<close>

lemma overwrite_overwrite: "in_bounds d \<Longrightarrow> overwrite ys (overwrite xs d) = overwrite (xs @ ys) d"
  by (auto simp: overwrite_def in_bounds_def Let_def nat_add_distrib min_def ac_simps)

lemma overwrite_nil [simp]: "overwrite [] d = d"
  by (cases d) (simp add: overwrite_def)

lemma overwrite_in_bounds: "in_bounds d \<Longrightarrow> in_bounds (overwrite xs d)"
  by (auto simp: overwrite_def in_bounds_def Let_def)

lemma at_pos_simps [simp]: "dv_bytes (at_pos p d) = dv_bytes d" "dv_pos (at_pos p d) = p" "at_pos p (at_pos q d) = at_pos p d"
  by (simp_all add: at_pos_def)

text \<open>Of the pieces of 4096 bytes every second one.\<close>

definition every_second :: "nat \<Rightarrow> nat \<Rightarrow> byte list \<Rightarrow> byte list" where
  "every_second i k bs = concat (map (\<lambda>j. take 4096 (drop (8192 * j) bs)) [i..<i + k])"

lemma every_second_Suc: "every_second i (Suc k) bs = take 4096 (drop (8192 * i) bs) @ every_second (Suc i) k bs"
proof -
  have "[i..<i + Suc k] = i # [Suc i..<Suc i + k]" by (simp add: upt_conv_Cons)
  then show ?thesis by (simp only: every_second_def list.map concat.simps)
qed

context qdevice_laws
begin

lemma buffer_read: "hexbuffer_read_bytes dop ba = (True, ba)"
proof -
  have "opened dop (buffer_device ba) = (buffer_device ba)\<lparr>id_mode := ReadWrite, id_data := at_pos 0 (id_data (buffer_device ba))\<rparr>"
    using open_buffer [of "buffer_device ba" ReadWrite] by (simp add: opened_def isOpen_def buffer_device_def)
  then show ?thesis using readAll [of "opened dop (buffer_device ba)"]
    by (simp add: hexbuffer_read_bytes_def memory_load_def buffer_device_def in_bounds_def)
qed

lemma ref_loop_pieces:
  assumes "qiodevice qt" "length (dv_bytes b) = 8192 * (i + k)" "isWritable d" "in_bounds (id_data d)"
  shows "ref_loop qt dop (at_pos (8192 * int i) b) d =
    Some (at_pos (8192 * int (i + k)) b, d\<lparr>id_data := overwrite (every_second i k (dv_bytes b)) (id_data d)\<rparr>)"
  using assms(2-)
proof (induction k arbitrary: i d)
  case 0
  then show ?case by (subst ref_loop.simps) (simp add: every_second_def)
next
  case (Suc k)
  let ?q = "at_pos (8192 * int i) b" and ?bs = "take 4096 (drop (8192 * i) (dv_bytes b))"
  let ?d = "d\<lparr>id_data := overwrite ?bs (id_data d)\<rparr>"
  have len: "length ?bs = 4096" using Suc.prems(1) by simp
  have "nat (8192 * int i) = 8192 * i" by simp
  then have read: "do_readChars dop 4096 ?q = (Some ?bs, at_pos (8192 * int i + 4096) b)"
    using readChars [of ?q 4096] len Suc.prems(1) by (simp add: in_bounds_def Let_def)
  have seek: "qd_seek qt (at_pos (8192 * int i + 4096) b) (8192 * int (Suc i)) = at_pos (8192 * int (Suc i)) b"
    using qiodevice.seek_in [OF assms(1), of "8192 * int (Suc i)" "at_pos (8192 * int i + 4096) b"] Suc.prems(1) by (simp add: at_pos_def)
  have wr: "do_write dop ?bs d = ?d" by (rule write_at [OF Suc.prems(2,3)])
  have "ref_loop qt dop ?q d = ref_loop qt dop (at_pos (8192 * int (Suc i)) b) ?d"
    using len Suc.prems(1) seek by (subst ref_loop.simps) (simp add: read wr)
  also have "\<dots> = Some (at_pos (8192 * int (Suc i + k)) b, ?d\<lparr>id_data := overwrite (every_second (Suc i) k (dv_bytes b)) (id_data ?d)\<rparr>)"
    using Suc.prems by (intro Suc.IH) (simp_all add: isWritable_def overwrite_in_bounds)
  also have "overwrite (every_second (Suc i) k (dv_bytes b)) (id_data ?d) = overwrite (every_second i (Suc k) (dv_bytes b)) (id_data d)"
    using overwrite_overwrite [OF Suc.prems(3)] by (simp add: every_second_Suc)
  finally show ?case by simp
qed

end

text \<open>A saved document is loaded again, from the closed device, which is closed afterwards.\<close>

theorem saved_document_loads:
  fixes doc :: "(byte list, 's, 'c) qhexdocument"
  assumes "qdevice_laws dop" "id_kind d = Buffer_device" "isWritable d" "id_data d = \<lparr>dv_bytes = [], dv_pos = 0\<rparr>"
  shows "\<exists>d'. doc_saveTo (\<lambda>b device. Some (b, memory_save dop b device)) doc d = Some (True, doc, d') \<and>
    (\<exists>doc' :: (byte list, 's, 'c) qhexdocument. \<exists>d''. fromDevice dop w s (do_close dop d') = Some (Some doc', d'') \<and>
      doc_buffer doc' = doc_buffer doc \<and> id_mode d'' = Not_open \<and> dv_bytes (id_data d'') = doc_buffer doc)"
proof -
  note law = qdevice_laws.open_buffer [OF assms(1)] qdevice_laws.close [OF assms(1)] qdevice_laws.readAll [OF assms(1)]
  let ?d = "d\<lparr>id_data := \<lparr>dv_bytes = doc_buffer doc, dv_pos = int (length (doc_buffer doc))\<rparr>\<rparr>" and ?c = "do_close dop"
  have "memory_save dop (doc_buffer doc) d = ?d"
    using qdevice_laws.write_at [OF assms(1,3)] assms(4) by (simp add: memory_save_def in_bounds_def overwrite_def)
  then have save: "doc_saveTo (\<lambda>b device. Some (b, memory_save dop b device)) doc d = Some (True, doc, ?d)"
    using assms(3) by (simp add: doc_saveTo_def)
  let ?o = "(?c ?d)\<lparr>id_mode := ReadWrite, id_data := at_pos 0 (id_data (?c ?d))\<rparr>"
  have "do_open dop ReadWrite (?c ?d) = ?o" using law(1) [of "?c ?d" ReadWrite] law(2,3) [of ?d] assms(2) by simp
  moreover have "do_readAll dop ?o = (doc_buffer doc, ?o\<lparr>id_data := at_pos (int (length (doc_buffer doc))) (id_data (?c ?d))\<rparr>)"
    using law(5) [of ?o] law(4) [of ?d] by (simp add: in_bounds_def)
  moreover obtain m :: "'c qhexmetadata" where "metadata_setLineWidth 0x10 (metadata_new w) = Some m" using new_effect by blast
  ultimately show ?thesis using save law(2-4) by (auto simp: fromDevice_def memory_load_def isOpen_def document_new_def Let_def)
qed

theorem fromMemory_bytes: "qdevice_laws dop \<Longrightarrow> fromMemory dop w s ba = document_new w s ba"
  by (simp add: fromMemory_def qdevice_laws.buffer_read)

text \<open>Saving the bytes of a \<open>QBuffer\<close> writes all of them below \<open>INT_MAX\<close>; above, every second piece of 4096 bytes is skipped,
as the position is moved after the read has moved it already.\<close>

theorem ref_saves:
  assumes "qdevice_laws dop" "qiodevice qt" "isWritable d" "in_bounds (id_data d)"
  shows "int (length (dv_bytes b)) < INT_MAX \<Longrightarrow>
      \<exists>b'. ref_save qt dop b d = Some (b', d\<lparr>id_data := overwrite (dv_bytes b) (id_data d)\<rparr>) \<and> dv_bytes b' = dv_bytes b"
    "INT_MAX \<le> int (length (dv_bytes b)) \<Longrightarrow> length (dv_bytes b) = 8192 * k \<Longrightarrow>
      \<exists>b'. ref_save qt dop b d = Some (b', d\<lparr>id_data := overwrite (every_second 0 k (dv_bytes b)) (id_data d)\<rparr>) \<and> dv_bytes b' = dv_bytes b"
proof -
  have seek: "qd_seek qt b 0 = at_pos 0 b" using qiodevice.seek_in [OF assms(2), of 0 b] by (simp add: at_pos_def)
  { assume "int (length (dv_bytes b)) < INT_MAX"
    moreover have "do_write dop (dv_bytes b) d = d\<lparr>id_data := overwrite (dv_bytes b) (id_data d)\<rparr>"
      by (rule qdevice_laws.write_at [OF assms(1,3,4)])
    ultimately show "\<exists>b'. ref_save qt dop b d = Some (b', d\<lparr>id_data := overwrite (dv_bytes b) (id_data d)\<rparr>) \<and> dv_bytes b' = dv_bytes b"
      using qdevice_laws.readAll [OF assms(1), of "\<lparr>id_kind = Buffer_device, id_mode = ReadWrite, id_data = at_pos 0 b\<rparr>"]
      by (simp add: ref_save_def seek in_bounds_def) }
  { assume "INT_MAX \<le> int (length (dv_bytes b))" "length (dv_bytes b) = 8192 * k"
    then show "\<exists>b'. ref_save qt dop b d = Some (b', d\<lparr>id_data := overwrite (every_second 0 k (dv_bytes b)) (id_data d)\<rparr>) \<and> dv_bytes b' = dv_bytes b"
      using qdevice_laws.ref_loop_pieces [OF assms(1,2) _ assms(3,4), of b 0 k] by (simp add: ref_save_def seek) }
qed

section \<open>An instance\<close>

definition std_device :: device_ops where
  "std_device = \<lparr>do_open = (\<lambda>m d. d\<lparr>id_mode := m, id_data := at_pos 0 (id_data d)\<rparr>), do_close = (\<lambda>d. d\<lparr>id_mode := Not_open\<rparr>),
     do_readAll = (\<lambda>d. (drop (nat (dv_pos (id_data d))) (dv_bytes (id_data d)), d\<lparr>id_data := at_pos (int (length (dv_bytes (id_data d)))) (id_data d)\<rparr>)),
     do_write = (\<lambda>bs d. d\<lparr>id_data := overwrite bs (id_data d)\<rparr>),
     do_readChars = (\<lambda>n q. let bs = take (nat n) (drop (nat (dv_pos q)) (dv_bytes q)) in (Some bs, at_pos (dv_pos q + int (length bs)) q))\<rparr>"

interpretation std_device: qdevice_laws std_device
  by unfold_locales (simp_all add: std_device_def Let_def)

end
