(* ===== verification/Client_Controller.thy ===== *)
theory Client_Controller
  imports Route_Filter "HOL-Library.AList"
begin

text \<open>
  The controller of the Qt client (\<open>client/Controller.h\<close> and \<open>.cpp\<close>) and its main window
  (\<open>client/MainWindow.cpp\<close>): the configuration, kept in a settings file and exchanged with the route as JSON
  datagrams, and the captured packets.

  The settings file (\<open>QSettings\<close>), the text form of JSON (\<open>QJsonDocument\<close>) and \<open>QString::toUtf8\<close> are parameters,
  with what Qt documents of them in the locales \<open>settings_file\<close> and \<open>json_text\<close>. A datagram sent and a signal
  emitted are events of the state.

  The theorems: what a restart finds in the settings file, what a configuration datagram carries, and that
  the main window shows the state of the controller.
\<close>

section \<open>JSON\<close>

datatype json = JNull | JBool bool | JString string | JArray "json list"

text \<open>An object is its keys and values; \<open>obj[key]\<close> of a missing key is \<open>None\<close>.\<close>

type_synonym json_object = "(string \<times> json) list"

definition json_insert :: "string \<Rightarrow> json \<Rightarrow> json_object \<Rightarrow> json_object" where
  "json_insert k v obj = AList.update k v obj"

definition json_toBool :: "json option \<Rightarrow> bool" where
  "json_toBool v = (case v of Some (JBool b) \<Rightarrow> b | _ \<Rightarrow> False)"

definition json_toString :: "json option \<Rightarrow> string" where
  "json_toString v = (case v of Some (JString s) \<Rightarrow> s | _ \<Rightarrow> '''')"

definition json_toArray :: "json option \<Rightarrow> json list" where
  "json_toArray v = (case v of Some (JArray xs) \<Rightarrow> xs | _ \<Rightarrow> [])"

text \<open>\<open>QJsonDocument::fromJson( data ).object()\<close> and \<open>QJsonDocument( obj ).toJson()\<close>.\<close>

record json_ops =
  js_parse :: "byte list \<Rightarrow> json_object"
  js_print :: "json_object \<Rightarrow> byte list"

locale json_text =
  fixes js :: json_ops
  assumes parse_print: "distinct (map fst obj) \<Longrightarrow> map_of (js_parse js (js_print js obj)) = map_of obj"
    and print_nonempty: "js_print js obj \<noteq> []"

section \<open>The settings file\<close>

text \<open>
  A key in a group (empty outside groups), the size of an array, and a key of an array's entry. A value is
  read with the default of the call and converted as the call says.
\<close>

datatype setting_key = Setting string string | Array_size string string | Array_entry string string nat string

datatype variant = VBool bool | VString string | VInt int

record 's settings_ops =
  st_bool :: "setting_key \<Rightarrow> bool \<Rightarrow> 's \<Rightarrow> bool"
  st_string :: "setting_key \<Rightarrow> string \<Rightarrow> 's \<Rightarrow> string"
  st_int :: "setting_key \<Rightarrow> int \<Rightarrow> 's \<Rightarrow> int"
  st_set :: "setting_key \<Rightarrow> variant \<Rightarrow> 's \<Rightarrow> 's"

locale settings_file =
  fixes st :: "'s settings_ops"
  assumes same: "st_bool st k d (st_set st k (VBool b) s) = b" "st_string st k e (st_set st k (VString x) s) = x"
    "st_int st k n (st_set st k (VInt i) s) = i"
    and other: "k \<noteq> k' \<Longrightarrow> st_bool st k d (st_set st k' v s) = st_bool st k d s"
    "k \<noteq> k' \<Longrightarrow> st_string st k e (st_set st k' v s) = st_string st k e s"
    "k \<noteq> k' \<Longrightarrow> st_int st k n (st_set st k' v s) = st_int st k n s"

text \<open>The loops over the arrays; the size of a written array is set when it is ended.\<close>

fun write_loop :: "'s settings_ops \<Rightarrow> string \<Rightarrow> string \<Rightarrow> string \<Rightarrow> nat \<Rightarrow> string list \<Rightarrow> 's \<Rightarrow> 's" where
  "write_loop st g a k i [] s = s"
| "write_loop st g a k i (x # xs) s = write_loop st g a k (Suc i) xs (st_set st (Array_entry g a i k) (VString x) s)"

definition write_array :: "'s settings_ops \<Rightarrow> string \<Rightarrow> string \<Rightarrow> string \<Rightarrow> string list \<Rightarrow> 's \<Rightarrow> 's" where
  "write_array st g a k xs s = st_set st (Array_size g a) (VInt (int (length xs))) (write_loop st g a k 0 xs s)"

fun read_loop :: "'s settings_ops \<Rightarrow> string \<Rightarrow> string \<Rightarrow> string \<Rightarrow> nat \<Rightarrow> nat \<Rightarrow> 's \<Rightarrow> string list \<Rightarrow> string list" where
  "read_loop st g a k i 0 s xs = xs"
| "read_loop st g a k i (Suc n) s xs = read_loop st g a k (Suc i) n s (xs @ [st_string st (Array_entry g a i k) '''' s])"

text \<open>The entries are appended to the list.\<close>

definition read_array :: "'s settings_ops \<Rightarrow> string \<Rightarrow> string \<Rightarrow> string \<Rightarrow> 's \<Rightarrow> string list \<Rightarrow> string list" where
  "read_array st g a k s xs = read_loop st g a k 0 (nat (st_int st (Array_size g a) 0 s)) s xs"

section \<open>The controller\<close>

record 'a controller =
  cp_isStart :: bool
  cp_server :: string
  cp_domains :: "string list"
  cp_devices :: "string list"
  cp_protocols :: "string list"
  cp_isCapture :: bool
  cp_routeAddress :: 'a

datatype 'a client_event = Datagram "byte list" 'a u16 | ConfigChanged | CaptureItem "byte list"

record ('a, 's) client =
  cl_p :: "'a controller"
  cl_settings :: 's
  cl_events :: "'a client_event list"

record 's client_env =
  ce_json :: json_ops
  ce_settings :: "'s settings_ops"
  ce_utf8 :: "string \<Rightarrow> byte list"

definition client_emit :: "'a client_event \<Rightarrow> ('a, 's) client \<Rightarrow> ('a, 's) client" where
  "client_emit e c = c\<lparr>cl_events := cl_events c @ [e]\<rparr>"

definition on_p :: "('a controller \<Rightarrow> 'a controller) \<Rightarrow> ('a, 's) client \<Rightarrow> ('a, 's) client" where
  "on_p f c = c\<lparr>cl_p := f (cl_p c)\<rparr>"

text \<open>\<open>WriteSocket.writeDatagram\<close> to the route.\<close>

definition send :: "byte list \<Rightarrow> u16 \<Rightarrow> ('a, 's) client \<Rightarrow> ('a, 's) client" where
  "send data port c = client_emit (Datagram data (cp_routeAddress (cl_p c)) port) c"

definition read_settings :: "'s settings_ops \<Rightarrow> 's \<Rightarrow> 'a controller \<Rightarrow> 'a controller" where
  "read_settings st s p = p\<lparr>
     cp_isStart := st_bool st (Setting ''Controller'' ''Start'') False s,
     cp_server := st_string st (Setting ''Controller'' ''Server'') ''127.0.0.1:48888'' s,
     cp_domains := read_array st ''Controller'' ''Domains'' ''domain'' s (cp_domains p),
     cp_devices := read_array st ''Controller'' ''Devices'' ''device'' s (cp_devices p),
     cp_protocols := read_array st ''Controller'' ''Protocols'' ''protocol'' s (cp_protocols p)\<rparr>"

text \<open>Both loops of the JSON branch append to the local array of domains.\<close>

definition read_json :: "json_object \<Rightarrow> 'a controller \<Rightarrow> 'a controller" where
  "read_json obj p =
     (let p = p\<lparr>cp_isStart := json_toBool (map_of obj ''Start''), cp_server := json_toString (map_of obj ''Server'')\<rparr>;
          domains = json_toArray (map_of obj ''Domains'');
          domains = foldl (\<lambda>domains it. domains @ [JString (json_toString (Some it))]) domains domains;
          protocols = json_toArray (map_of obj ''Protocols'');
          domains = foldl (\<lambda>domains it. domains @ [JString (json_toString (Some it))]) domains protocols
      in p)"

definition ReadConfig :: "'s client_env \<Rightarrow> byte list \<Rightarrow> ('a, 's) client \<Rightarrow> ('a, 's) client" where
  "ReadConfig env data c =
     client_emit ConfigChanged
       (if data \<noteq> [] then on_p (read_json (js_parse (ce_json env) data)) c
        else on_p (read_settings (ce_settings env) (cl_settings c)) c)"

definition write_settings :: "'s settings_ops \<Rightarrow> 'a controller \<Rightarrow> 's \<Rightarrow> 's" where
  "write_settings st p s =
     (let s = st_set st (Setting ''Controller'' ''Start'') (VBool (cp_isStart p)) s;
          s = st_set st (Setting ''Controller'' ''Server'') (VString (cp_server p)) s;
          s = write_array st ''Controller'' ''Domains'' ''domain'' (cp_domains p) s;
          s = write_array st ''Controller'' ''Devices'' ''device'' (cp_devices p) s
      in write_array st ''Controller'' ''Protocols'' ''protocol'' (cp_protocols p) s)"

text \<open>The second loop appends to the array of domains, which is in the object already.\<close>

definition config_object :: "'a controller \<Rightarrow> json_object" where
  "config_object p =
     (let obj = json_insert ''Start'' (JBool (cp_isStart p)) [];
          obj = json_insert ''Server'' (JString (cp_server p)) obj;
          domains = foldl (\<lambda>domains it. domains @ [JString it]) [] (cp_domains p);
          obj = json_insert ''Domains'' (JArray domains) obj;
          protocols = [];
          domains = foldl (\<lambda>domains it. domains @ [JString it]) domains (cp_protocols p)
      in json_insert ''Protocols'' (JArray protocols) obj)"

definition WriteConfig :: "'s client_env \<Rightarrow> ('a, 's) client \<Rightarrow> byte list \<times> ('a, 's) client" where
  "WriteConfig env c =
     (js_print (ce_json env) (config_object (cl_p c)), c\<lparr>cl_settings := write_settings (ce_settings env) (cl_p c) (cl_settings c)\<rparr>)"

text \<open>The call that follows every change: the configuration is written, sent and announced.\<close>

definition send_config :: "'s client_env \<Rightarrow> ('a, 's) client \<Rightarrow> ('a, 's) client" where
  "send_config env c = (case WriteConfig env c of (data, c) \<Rightarrow> client_emit ConfigChanged (send data ROUTE_CONFIG_PORT c))"

definition StartService :: "'s client_env \<Rightarrow> ('a, 's) client \<Rightarrow> ('a, 's) client" where
  "StartService env c = (if \<not> cp_isStart (cl_p c) then send_config env (on_p (cp_isStart_update (\<lambda>_. True)) c) else c)"

definition StopService :: "'s client_env \<Rightarrow> ('a, 's) client \<Rightarrow> ('a, 's) client" where
  "StopService env c = (if cp_isStart (cl_p c) then send_config env (on_p (cp_isStart_update (\<lambda>_. False)) c) else c)"

definition SetServer :: "'s client_env \<Rightarrow> string \<Rightarrow> ('a, 's) client \<Rightarrow> ('a, 's) client" where
  "SetServer env endpoint c =
     (if cp_server (cl_p c) \<noteq> endpoint then send_config env (on_p (cp_server_update (\<lambda>_. endpoint)) c) else c)"

definition SetDomainList :: "'s client_env \<Rightarrow> string list \<Rightarrow> ('a, 's) client \<Rightarrow> ('a, 's) client" where
  "SetDomainList env domains c =
     (if cp_domains (cl_p c) \<noteq> domains then send_config env (on_p (cp_domains_update (\<lambda>_. domains)) c) else c)"

definition SetDeviceList :: "string list \<Rightarrow> ('a, 's) client \<Rightarrow> ('a, 's) client" where
  "SetDeviceList devices c = on_p (cp_devices_update (\<lambda>_. devices)) c"

definition SetProtocolList :: "'s client_env \<Rightarrow> string list \<Rightarrow> ('a, 's) client \<Rightarrow> ('a, 's) client" where
  "SetProtocolList env protocols c =
     (if cp_protocols (cl_p c) \<noteq> protocols then send_config env (on_p (cp_protocols_update (\<lambda>_. protocols)) c) else c)"

definition StartCapture :: "'s client_env \<Rightarrow> string \<Rightarrow> ('a, 's) client \<Rightarrow> ('a, 's) client" where
  "StartCapture env setting c =
     (if \<not> cp_isCapture (cl_p c)
      then send (ce_utf8 env setting) ROUTE_CAPTURE_PORT (on_p (cp_isCapture_update (\<lambda>_. True)) c) else c)"

text \<open>The bytes of \<open>"{}"\<close>.\<close>

definition braces :: "byte list" where "braces = [0x7B, 0x7D]"

definition StopCapture :: "('a, 's) client \<Rightarrow> ('a, 's) client" where
  "StopCapture c =
     (if cp_isCapture (cl_p c) then send braces ROUTE_CAPTURE_PORT (on_p (cp_isCapture_update (\<lambda>_. False)) c) else c)"

text \<open>The last address of the host is taken; an error is \<open>None\<close>.\<close>

definition OnLookupHost :: "'a list option \<Rightarrow> ('a, 's) client \<Rightarrow> ('a, 's) client" where
  "OnLookupHost host c =
     (case host of None \<Rightarrow> c
      | Some addresses \<Rightarrow>
          let c = foldl (\<lambda>c address. on_p (cp_routeAddress_update (\<lambda>_. address)) c) c addresses
          in send braces ROUTE_CAPTURE_PORT (send braces ROUTE_CONFIG_PORT c))"

text \<open>The slots of the two sockets: a datagram on the port of the configuration, and one on that of the capture.\<close>

definition configDatagram :: "'s client_env \<Rightarrow> byte list \<Rightarrow> ('a, 's) client \<Rightarrow> ('a, 's) client" where
  "configDatagram env buf c = ReadConfig env buf c"

definition captureDatagram :: "byte list \<Rightarrow> ('a, 's) client \<Rightarrow> ('a, 's) client" where
  "captureDatagram item c = client_emit (CaptureItem item) c"

definition private_new :: "'a \<Rightarrow> 'a controller" where
  "private_new null = \<lparr>cp_isStart = False, cp_server = ''127.0.0.1:48888'', cp_domains = [], cp_devices = [], cp_protocols = [],
     cp_isCapture = False, cp_routeAddress = null\<rparr>"

definition controller_new :: "'s client_env \<Rightarrow> 'a \<Rightarrow> 's \<Rightarrow> ('a, 's) client" where
  "controller_new env null s = ReadConfig env [] \<lparr>cl_p = private_new null, cl_settings = s, cl_events = []\<rparr>"

section \<open>The main window\<close>

text \<open>What the window shows; the label and the picture follow the state of the service.\<close>

record main_window =
  mw_start_enabled :: bool
  mw_stop_enabled :: bool
  mw_server :: string
  mw_running :: bool

definition show_state :: "'a controller \<Rightarrow> main_window" where
  "show_state p = \<lparr>mw_start_enabled = \<not> cp_isStart p, mw_stop_enabled = cp_isStart p, mw_server = cp_server p, mw_running = cp_isStart p\<rparr>"

definition labelConnect_clicked :: "'s client_env \<Rightarrow> ('a, 's) client \<Rightarrow> ('a, 's) client" where
  "labelConnect_clicked env c = (if cp_isStart (cl_p c) then StopService env c else StartService env c)"

section \<open>What is read back\<close>

definition apart :: "string \<Rightarrow> string \<Rightarrow> string \<Rightarrow> setting_key \<Rightarrow> bool" where
  "apart g a k key \<longleftrightarrow> key \<noteq> Array_size g a \<and> (\<forall>i. key \<noteq> Array_entry g a i k)"

lemma apart_simps [simp]:
  "apart g a k (Setting g' x)" "apart g a k (Array_size g' a') \<longleftrightarrow> (g', a') \<noteq> (g, a)"
  "apart g a k (Array_entry g' a' i k') \<longleftrightarrow> (g', a', k') \<noteq> (g, a, k)"
  by (auto simp: apart_def)

lemma read_loop_eq: "read_loop st g a k i n s xs = xs @ map (\<lambda>j. st_string st (Array_entry g a j k) '''' s) [i..<i + n]"
proof (induction n arbitrary: i xs)
  case (Suc n)
  have "[i..<i + Suc n] = i # [Suc i..<Suc i + n]" by (simp add: upt_conv_Cons)
  then show ?case using Suc.IH [of "Suc i"] by simp
qed simp

context settings_file
begin

lemma write_loop_other:
  assumes "\<And>j. i \<le> j \<Longrightarrow> key \<noteq> Array_entry g a j k"
  shows "st_bool st key b (write_loop st g a k i xs s) = st_bool st key b s"
    "st_string st key x (write_loop st g a k i xs s) = st_string st key x s"
    "st_int st key n (write_loop st g a k i xs s) = st_int st key n s"
  using assms by (induction xs arbitrary: i s) (simp_all add: other)

lemma write_loop_same:
  assumes "j < length xs"
  shows "st_string st (Array_entry g a (i + j) k) d (write_loop st g a k i xs s) = xs ! j"
  using assms
proof (induction xs arbitrary: i j s)
  case (Cons x xs)
  show ?case
  proof (cases j)
    case 0
    have "st_string st (Array_entry g a i k) d (write_loop st g a k (Suc i) xs s') = st_string st (Array_entry g a i k) d s'" for s'
      by (rule write_loop_other(2)) simp
    then show ?thesis using 0 by (simp add: same)
  next
    case (Suc j')
    then show ?thesis using Cons.IH [of j' "Suc i"] Cons.prems by simp
  qed
qed simp

lemma write_array_other:
  assumes "apart g a k key"
  shows "st_bool st key b (write_array st g a k xs s) = st_bool st key b s"
    "st_string st key x (write_array st g a k xs s) = st_string st key x s"
    "st_int st key n (write_array st g a k xs s) = st_int st key n s"
  using assms by (simp_all add: write_array_def apart_def other write_loop_other)

lemma read_array_other:
  assumes "(g, a) \<noteq> (g', a')"
  shows "read_array st g a k (write_array st g' a' k' xs s) ys = read_array st g a k s ys"
  using assms by (auto simp: read_array_def read_loop_eq write_array_other)

lemma read_array_set:
  "read_array st g a k (st_set st (Setting g' x) v s) ys = read_array st g a k s ys"
  by (simp add: read_array_def read_loop_eq other)

lemma read_array_same: "read_array st g a k (write_array st g a k xs s) ys = ys @ xs"
proof -
  have "st_string st (Array_entry g a j k) '''' (write_array st g a k xs s) = xs ! j" if "j < length xs" for j
    using write_loop_same [OF that, of g a 0 k] by (simp add: write_array_def other)
  then have "map (\<lambda>j. st_string st (Array_entry g a j k) '''' (write_array st g a k xs s)) [0..<length xs] = xs"
    by (intro nth_equalityI) simp_all
  then show ?thesis by (simp add: read_array_def read_loop_eq) (simp add: write_array_def same)
qed

lemma read_written:
  "read_settings st (write_settings st p s) q =
     q\<lparr>cp_isStart := cp_isStart p, cp_server := cp_server p, cp_domains := cp_domains q @ cp_domains p,
       cp_devices := cp_devices q @ cp_devices p, cp_protocols := cp_protocols q @ cp_protocols p\<rparr>"
  by (simp add: read_settings_def write_settings_def Let_def read_array_other read_array_same read_array_set
      write_array_other same other)

end

text \<open>The part of the state that is configuration.\<close>

definition config_of :: "'a controller \<Rightarrow> bool \<times> string \<times> string list \<times> string list \<times> string list" where
  "config_of p = (cp_isStart p, cp_server p, cp_domains p, cp_devices p, cp_protocols p)"

text \<open>What the user, the network and the host lookup do with the controller.\<close>

datatype 'a client_op =
    Start_service | Stop_service | Label_clicked | Set_server string | Set_domains "string list" | Set_devices "string list"
  | Set_protocols "string list" | Start_capture string | Stop_capture
  | Config_datagram "byte list" | Capture_datagram "byte list" | Host_found "'a list option"

fun client_exec :: "'s client_env \<Rightarrow> 'a client_op \<Rightarrow> ('a, 's) client \<Rightarrow> ('a, 's) client" where
  "client_exec env Start_service c = StartService env c"
| "client_exec env Stop_service c = StopService env c"
| "client_exec env Label_clicked c = labelConnect_clicked env c"
| "client_exec env (Set_server e) c = SetServer env e c"
| "client_exec env (Set_domains xs) c = SetDomainList env xs c"
| "client_exec env (Set_devices xs) c = SetDeviceList xs c"
| "client_exec env (Set_protocols xs) c = SetProtocolList env xs c"
| "client_exec env (Start_capture x) c = StartCapture env x c"
| "client_exec env Stop_capture c = StopCapture c"
| "client_exec env (Config_datagram bs) c = configDatagram env bs c"
| "client_exec env (Capture_datagram bs) c = captureDatagram bs c"
| "client_exec env (Host_found h) c = OnLookupHost h c"

text \<open>The operations that write the settings: those that change the configuration, but not the devices.\<close>

fun op_saves :: "'a client_op \<Rightarrow> 'a controller \<Rightarrow> bool" where
  "op_saves Start_service p = (\<not> cp_isStart p)"
| "op_saves Stop_service p = cp_isStart p"
| "op_saves Label_clicked p = True"
| "op_saves (Set_server e) p = (cp_server p \<noteq> e)"
| "op_saves (Set_domains xs) p = (cp_domains p \<noteq> xs)"
| "op_saves (Set_protocols xs) p = (cp_protocols p \<noteq> xs)"
| "op_saves op p = False"

text \<open>The configuration at the last operation that wrote it.\<close>

fun saved_config :: "'s client_env \<Rightarrow> 'a client_op list \<Rightarrow> ('a, 's) client \<Rightarrow> bool \<times> string \<times> string list \<times> string list \<times> string list \<Rightarrow>
    bool \<times> string \<times> string list \<times> string list \<times> string list" where
  "saved_config env [] c conf = conf"
| "saved_config env (op # ops) c conf =
     (let c' = client_exec env op c in saved_config env ops c' (if op_saves op (cl_p c) then config_of (cl_p c') else conf))"

lemmas client_ops =
  StartService_def StopService_def labelConnect_clicked_def SetServer_def SetDomainList_def SetDeviceList_def SetProtocolList_def
  StartCapture_def StopCapture_def configDatagram_def captureDatagram_def

lemma events_keep [simp]:
  "cl_settings (client_emit e c) = cl_settings c" "cl_p (client_emit e c) = cl_p c"
  "cl_settings (send d n c) = cl_settings c" "cl_p (send d n c) = cl_p c"
  "cl_settings (on_p f c) = cl_settings c" "cl_p (on_p f c) = f (cl_p c)"
  "cl_settings (ReadConfig env d c) = cl_settings c"
  by (simp_all add: client_emit_def send_def on_p_def ReadConfig_def)

lemma send_config_state:
  "cl_p (send_config env c) = cl_p c" "cl_settings (send_config env c) = write_settings (ce_settings env) (cl_p c) (cl_settings c)"
  by (simp_all add: send_config_def WriteConfig_def)

lemma lookup_loop:
  "cl_settings (foldl (\<lambda>c address. on_p (cp_routeAddress_update (\<lambda>_. address)) c) c hs) = cl_settings c"
  "cp_isStart (cl_p (foldl (\<lambda>c address. on_p (cp_routeAddress_update (\<lambda>_. address)) c) c hs)) = cp_isStart (cl_p c)"
  "cp_server (cl_p (foldl (\<lambda>c address. on_p (cp_routeAddress_update (\<lambda>_. address)) c) c hs)) = cp_server (cl_p c)"
  by (induction hs arbitrary: c) simp_all

lemma exec_settings:
  "cl_settings (client_exec env op c) =
     (if op_saves op (cl_p c) then write_settings (ce_settings env) (cl_p (client_exec env op c)) (cl_settings c) else cl_settings c)"
  by (cases op) (simp_all add: client_ops send_config_state OnLookupHost_def Let_def lookup_loop split: option.split)

lemma restart_written:
  assumes "settings_file (ce_settings env)"
  shows "config_of (cl_p (controller_new env null (write_settings (ce_settings env) p s))) = config_of p"
  using settings_file.read_written [OF assms, of p s "private_new null"]
  by (simp add: controller_new_def ReadConfig_def config_of_def private_new_def)

section \<open>Properties\<close>

text \<open>C33: What a restart of the client finds. After any run of operations a new controller on the settings file has the
configuration of the last operation that wrote it, all of it; setting the devices writes nothing, nor does a
datagram from the route.\<close>

theorem config_persists:
  assumes "settings_file (ce_settings env)"
  shows "config_of (cl_p (controller_new env null (cl_settings (fold (client_exec env) ops c)))) =
    saved_config env ops c (config_of (cl_p (controller_new env null (cl_settings c))))"
proof (induction ops arbitrary: c)
  case (Cons op ops)
  show ?case using Cons.IH [of "client_exec env op c"] by (simp add: Let_def exec_settings restart_written [OF assms])
qed simp

lemma foldl_push: "foldl (\<lambda>ys x. ys @ [f x]) ys xs = ys @ map f xs"
  by (induction xs arbitrary: ys) simp_all

lemma config_object_eq:
  "config_object p = [(''Start'', JBool (cp_isStart p)), (''Server'', JString (cp_server p)),
     (''Domains'', JArray (map JString (cp_domains p))), (''Protocols'', JArray [])]"
  by (simp add: config_object_def json_insert_def foldl_push Let_def)

text \<open>C34: What a configuration datagram carries. The JSON object sent has the state of the service, the server and
the domains, and an empty list of protocols whatever they are; a controller that receives it takes over the state
and the server only.\<close>

theorem config_datagram:
  assumes "json_text (ce_json env)"
  shows "map_of (js_parse (ce_json env) (fst (WriteConfig env c))) =
      [''Start'' \<mapsto> JBool (cp_isStart (cl_p c)), ''Server'' \<mapsto> JString (cp_server (cl_p c)),
       ''Domains'' \<mapsto> JArray (map JString (cp_domains (cl_p c))), ''Protocols'' \<mapsto> JArray []] \<and>
    cl_p (configDatagram env (fst (WriteConfig env c)) d) =
      (cl_p d)\<lparr>cp_isStart := cp_isStart (cl_p c), cp_server := cp_server (cl_p c)\<rparr>"
proof -
  have "map_of (js_parse (ce_json env) (fst (WriteConfig env c))) = map_of (config_object (cl_p c))"
    using json_text.parse_print [OF assms, of "config_object (cl_p c)"] by (simp add: WriteConfig_def config_object_eq)
  moreover have "fst (WriteConfig env c) \<noteq> []" using json_text.print_nonempty [OF assms] by (simp add: WriteConfig_def)
  ultimately show ?thesis
    by (simp add: configDatagram_def ReadConfig_def read_json_def Let_def config_object_eq json_toBool_def json_toString_def)
       (auto simp: fun_eq_iff)
qed

text \<open>An empty datagram on the port of the configuration makes the controller read the settings file again, which
appends every list to itself.\<close>

theorem empty_datagram_doubles:
  assumes "settings_file (ce_settings env)" "op_saves op (cl_p c)" "p = cl_p (client_exec env op c)"
  shows "cl_p (configDatagram env [] (client_exec env op c)) =
    p\<lparr>cp_domains := cp_domains p @ cp_domains p, cp_devices := cp_devices p @ cp_devices p, cp_protocols := cp_protocols p @ cp_protocols p\<rparr>"
  using assms(2) settings_file.read_written [OF assms(1), of p "cl_settings c" p]
  by (simp add: configDatagram_def ReadConfig_def exec_settings assms(3))

text \<open>The window handles the signal \<open>configChanged\<close> when it is emitted, at the end of the operation.\<close>

fun window_step :: "'s client_env \<Rightarrow> 'a client_op \<Rightarrow> ('a, 's) client \<times> main_window \<Rightarrow> ('a, 's) client \<times> main_window" where
  "window_step env op (c, w) =
     (let c' = client_exec env op c
      in (c', if ConfigChanged \<in> set (drop (length (cl_events c)) (cl_events c')) then show_state (cl_p c') else w))"

lemma window_step_shows:
  assumes "w = show_state (cl_p c)" "window_step env op (c, w) = (c', w')"
  shows "w' = show_state (cl_p c')"
proof -
  have c': "c' = client_exec env op c" "w' = (if ConfigChanged \<in> set (drop (length (cl_events c)) (cl_events c')) then show_state (cl_p c') else w)"
    using assms(2) by (auto simp: Let_def)
  have ev: "ConfigChanged \<in> set (drop (length (cl_events c)) (cl_events (send_config env (on_p f c))))"
    "ConfigChanged \<in> set (drop (length (cl_events c)) (cl_events (ReadConfig env d c)))" for f d
    by (simp_all add: send_config_def WriteConfig_def send_def client_emit_def on_p_def ReadConfig_def)
  show ?thesis
  proof (cases op)
    case (Host_found h)
    then show ?thesis using assms(1) c' by (auto simp: OnLookupHost_def Let_def show_state_def lookup_loop split: option.splits)
  qed (use assms(1) c' ev in \<open>auto simp: client_ops show_state_def\<close>)
qed

text \<open>The main window tells the truth. After any run of operations the window shows whether the service runs and which
server is set, and exactly one of its start and stop actions is enabled.\<close>

theorem window_follows:
  "case fold (window_step env) ops (c, show_state (cl_p c)) of (c', w) \<Rightarrow>
     c' = fold (client_exec env) ops c \<and> mw_running w = cp_isStart (cl_p c') \<and> mw_server w = cp_server (cl_p c') \<and>
     mw_start_enabled w = (\<not> mw_stop_enabled w) \<and> mw_stop_enabled w = cp_isStart (cl_p c')"
proof -
  have "case fold (window_step env) ops (c, w) of (c', w') \<Rightarrow> c' = fold (client_exec env) ops c \<and> w' = show_state (cl_p c')"
    if "w = show_state (cl_p c)" for c w
    using that
  proof (induction ops arbitrary: c w)
    case (Cons op ops)
    obtain c1 w1 where s: "window_step env op (c, w) = (c1, w1)" by fastforce
    then have "c1 = client_exec env op c" by (simp add: Let_def)
    then show ?case using Cons.IH [OF window_step_shows [OF Cons.prems s]] s by (simp del: window_step.simps)
  qed simp
  from this [OF refl, of c] show ?thesis by (cases "fold (window_step env) ops (c, show_state (cl_p c))") (simp add: show_state_def)
qed

section \<open>Instances\<close>

text \<open>Settings in memory.\<close>

definition std_settings :: "(setting_key \<Rightarrow> variant option) settings_ops" where
  "std_settings = \<lparr>st_bool = (\<lambda>k d s. case s k of Some (VBool b) \<Rightarrow> b | _ \<Rightarrow> d),
     st_string = (\<lambda>k d s. case s k of Some (VString x) \<Rightarrow> x | _ \<Rightarrow> d),
     st_int = (\<lambda>k d s. case s k of Some (VInt i) \<Rightarrow> i | _ \<Rightarrow> d), st_set = (\<lambda>k v s. s(k \<mapsto> v))\<rparr>"

interpretation std_file: settings_file std_settings
  by unfold_locales (simp_all add: std_settings_def)

text \<open>A text form of JSON by tags: \<open>0\<close> ends a string or a list, \<open>1\<close> goes before each of its parts.\<close>

definition char_byte :: "char \<Rightarrow> byte" where "char_byte c = of_nat (of_char c)"
definition byte_char :: "byte \<Rightarrow> char" where "byte_char b = char_of (unat b)"

fun put_string :: "string \<Rightarrow> byte list" where
  "put_string [] = [0]"
| "put_string (c # s) = 1 # char_byte c # put_string s"

fun put_json :: "json \<Rightarrow> byte list" where
  "put_json JNull = [0]"
| "put_json (JBool b) = [1, if b then 1 else 0]"
| "put_json (JString s) = 2 # put_string s"
| "put_json (JArray xs) = 3 # concat (map (\<lambda>x. 1 # put_json x) xs) @ [0]"

fun put_object :: "json_object \<Rightarrow> byte list" where
  "put_object [] = [0]"
| "put_object ((k, v) # obj) = 1 # put_string k @ put_json v @ put_object obj"

fun get_string :: "byte list \<Rightarrow> string \<times> byte list" where
  "get_string (t # c # r) = (if t = 1 then apfst (Cons (byte_char c)) (get_string r) else ([], c # r))"
| "get_string r = ([], [])"

fun get_json :: "nat \<Rightarrow> byte list \<Rightarrow> json \<times> byte list"
  and get_list :: "nat \<Rightarrow> byte list \<Rightarrow> json list \<times> byte list" where
  "get_json (Suc n) (t # r) =
     (if t = 0 then (JNull, r) else if t = 1 then (JBool (hd r = 1), tl r)
      else if t = 2 then apfst JString (get_string r) else apfst JArray (get_list n r))"
| "get_json _ _ = (JNull, [])"
| "get_list (Suc n) (t # r) =
     (if t = 0 then ([], r)
      else case get_json n r of (x, r) \<Rightarrow> (case get_list n r of (xs, r) \<Rightarrow> (x # xs, r)))"
| "get_list _ _ = ([], [])"

fun get_object :: "nat \<Rightarrow> byte list \<Rightarrow> json_object" where
  "get_object (Suc n) (t # r) =
     (if t = 0 then []
      else case get_string r of (k, r) \<Rightarrow> (case get_json n r of (v, r) \<Rightarrow> (k, v) # get_object n r))"
| "get_object _ _ = []"

lemma byte_char_inverse: "byte_char (char_byte c) = c"
proof -
  have "(of_char c :: nat) < 256" by simp
  then have "unat (of_nat (of_char c) :: byte) = of_char c" by (simp add: unat_of_nat take_bit_nat_eq_self)
  then show ?thesis by (simp add: byte_char_def char_byte_def)
qed

lemma get_put_string: "get_string (put_string s @ r) = (s, r)"
proof (induction s)
  case Nil
  then show ?case by (cases r) simp_all
qed (simp add: byte_char_inverse)

lemma get_put_json: "length (put_json j) \<le> n \<Longrightarrow> get_json n (put_json j @ r) = (j, r)"
proof (induction j arbitrary: n r)
  case (JArray xs)
  obtain m where n: "n = Suc m" using JArray.prems by (cases n) simp_all
  have "get_list m (concat (map (\<lambda>x. 1 # put_json x) xs) @ 0 # r) = (xs, r)"
    if "length (concat (map (\<lambda>x. 1 # put_json x) xs)) < m" for m
    using that JArray.IH
  proof (induction xs arbitrary: m)
    case Nil
    then show ?case by (cases m) simp_all
  next
    case (Cons x xs)
    then obtain k where k: "m = Suc k" by (cases m) simp_all
    have "get_json k (put_json x @ concat (map (\<lambda>x. 1 # put_json x) xs) @ 0 # r) = (x, concat (map (\<lambda>x. 1 # put_json x) xs) @ 0 # r)"
      by (rule Cons.prems(2)) (use Cons.prems(1) k in simp_all)
    moreover have "get_list k (concat (map (\<lambda>x. 1 # put_json x) xs) @ 0 # r) = (xs, r)"
      by (rule Cons.IH) (use Cons.prems k in simp_all)
    ultimately show ?case using k by simp
  qed
  then show ?case using JArray.prems n by simp
next
  case (JBool b)
  then obtain m where "n = Suc m" by (cases n) simp_all
  then show ?case by simp
next
  case (JString s)
  then obtain m where "n = Suc m" by (cases n) simp_all
  then show ?case by (simp add: get_put_string)
next
  case JNull
  then obtain m where "n = Suc m" by (cases n) simp_all
  then show ?case by simp
qed

lemma get_put_object: "length (put_object obj) \<le> n \<Longrightarrow> get_object n (put_object obj) = obj"
proof (induction obj arbitrary: n rule: put_object.induct)
  case 1
  then show ?case by (cases n) simp_all
next
  case (2 k v obj)
  then obtain m where n: "n = Suc m" by (cases n) simp_all
  have "get_json m (put_json v @ put_object obj) = (v, put_object obj)" by (rule get_put_json) (use 2(2) n in simp)
  moreover have "get_object m (put_object obj) = obj" by (rule 2(1)) (use 2(2) n in simp)
  ultimately show ?case using n by (simp add: get_put_string)
qed

definition std_json :: json_ops where
  "std_json = \<lparr>js_parse = (\<lambda>bs. get_object (length bs) bs), js_print = put_object\<rparr>"

interpretation std_text: json_text std_json
proof unfold_locales
  show "js_print std_json obj \<noteq> []" for obj by (cases obj) (auto simp: std_json_def)
qed (simp add: std_json_def get_put_object)

definition std_client :: "(setting_key \<Rightarrow> variant option) client_env" where
  "std_client = \<lparr>ce_json = std_json, ce_settings = std_settings, ce_utf8 = map char_byte\<rparr>"

text \<open>A new controller on an empty file.\<close>

definition fresh_client :: "(nat, setting_key \<Rightarrow> variant option) client" where
  "fresh_client = controller_new std_client 0 Map.empty"

lemma fresh_config: "config_of (cl_p fresh_client) = (False, ''127.0.0.1:48888'', [], [], [])"
  by (simp add: fresh_client_def controller_new_def ReadConfig_def read_settings_def private_new_def config_of_def read_array_def
      std_client_def std_settings_def)

text \<open>The devices set after the last change are lost.\<close>

theorem config_persists_witness:
  "config_of (cl_p (controller_new std_client 0 (cl_settings
     (fold (client_exec std_client) [Set_devices [''a''], Set_domains [''b''], Start_service, Set_devices [''c'']] fresh_client)))) =
   (True, ''127.0.0.1:48888'', [''b''], [''a''], [])"
  using config_persists [of std_client 0 "[Set_devices [''a''], Set_domains [''b''], Start_service, Set_devices [''c'']]" fresh_client]
    std_file.settings_file_axioms fresh_config
  by (simp add: std_client_def Let_def client_ops send_config_state config_of_def)

theorem config_datagram_witness:
  "cl_p (configDatagram std_client (fst (WriteConfig std_client
      (client_exec std_client (Set_protocols [''DNS'']) (client_exec std_client (Set_server ''s'') fresh_client)))) fresh_client) =
    (cl_p fresh_client)\<lparr>cp_isStart := False, cp_server := ''s''\<rparr>"
  using config_datagram [of std_client "client_exec std_client (Set_protocols [''DNS'']) (client_exec std_client (Set_server ''s'') fresh_client)" fresh_client]
    std_text.json_text_axioms fresh_config
  by (simp add: std_client_def client_ops send_config_state config_of_def)

end
