(* ===== verification/Client_Dialogs.thy ===== *)
theory Client_Dialogs
  imports Client_Controller Hex_View
begin

text \<open>
  The dialogs of the Qt client (\<open>client/DomainListDialog.cpp\<close>, \<open>DeviceListDialog.cpp\<close>, \<open>ServerListDialog.cpp\<close>,
  \<open>ProtocolDialog.cpp\<close>, \<open>CaptureDialog.cpp\<close>): how the lists of the controller are shown, edited and put back, and
  how a captured packet is shown in the hex view.

  A row of a tree is a record of its texts and widgets. \<open>QString\<close>'s \<open>split\<close>, \<open>arg\<close>, \<open>number\<close> and \<open>toInt\<close> are a
  parameter with the documented laws in the locale \<open>qstring\<close>. \<open>None\<close> is an index outside of a list or a
  read behind the end of a packet.

  The theorems: the dialogs show again what was accepted, after a restart too, and which bytes of a packet the
  tree selects.
\<close>

section \<open>Strings\<close>

record qstring_ops =
  qs_split :: "string \<Rightarrow> string list"
  qs_arg :: "string \<Rightarrow> string \<Rightarrow> string"
  qs_argInt :: "string \<Rightarrow> int \<Rightarrow> int \<Rightarrow> int \<Rightarrow> char \<Rightarrow> string"
  qs_number :: "int \<Rightarrow> string"
  qs_toInt :: "string \<Rightarrow> int"

text \<open>
  \<open>split( "|" )\<close> cuts at every bar. \<open>arg\<close> replaces the lowest numbered place marker; the laws say so for the
  formats of the dialogs, where the text before the marker has no other.
\<close>

locale qstring =
  fixes qs :: qstring_ops
  assumes split_bars: "CHR ''|'' \<notin> set a \<Longrightarrow> CHR ''|'' \<notin> set b \<Longrightarrow> CHR ''|'' \<notin> set c \<Longrightarrow>
      qs_split qs (a @ ''|'' @ b @ ''|'' @ c) = [a, b, c]"
    and split_parts: "a \<in> set (qs_split qs s) \<Longrightarrow> CHR ''|'' \<notin> set a"
    and arg_first: "qs_arg qs ''%1|%2|%3'' a = a @ ''|%2|%3''" "qs_arg qs ''%1:%2'' a = a @ '':%2''"
    and arg_second: "CHR ''%'' \<notin> set p \<Longrightarrow> qs_arg qs (p @ ''%2|%3'') a = p @ a @ ''|%3''"
      "CHR ''%'' \<notin> set p \<Longrightarrow> qs_arg qs (p @ ''%2'') a = p @ a"
    and arg_third: "CHR ''%'' \<notin> set p \<Longrightarrow> qs_arg qs (p @ ''%3'') a = p @ a"
    and number_toInt: "- (2 ^ 31) \<le> i \<Longrightarrow> i < 2 ^ 31 \<Longrightarrow> qs_toInt qs (qs_number qs i) = i"
    and number_chars: "CHR ''|'' \<notin> set (qs_number qs i)" "CHR ''%'' \<notin> set (qs_number qs i)"

section \<open>The lists of domains and devices\<close>

text \<open>A row has a text, a combo box of three items, whose index is negative when none is chosen, and a text.\<close>

record list_row =
  lr_name :: string
  lr_combo :: int
  lr_desc :: string

definition setCurrentIndex :: "int \<Rightarrow> int" where
  "setCurrentIndex i = (if 0 \<le> i \<and> i < 3 then i else - 1)"

definition row_entry :: "qstring_ops \<Rightarrow> list_row \<Rightarrow> string" where
  "row_entry qs r = qs_arg qs (qs_arg qs (qs_arg qs ''%1|%2|%3'' (lr_name r)) (qs_number qs (lr_combo r))) (lr_desc r)"

definition entry_row :: "qstring_ops \<Rightarrow> string \<Rightarrow> list_row option" where
  "entry_row qs s =
     (case qs_split qs s of
        a # i # c # _ \<Rightarrow> Some \<lparr>lr_name = a, lr_combo = setCurrentIndex (qs_toInt qs i), lr_desc = c\<rparr>
      | _ \<Rightarrow> None)"

definition domains_open :: "qstring_ops \<Rightarrow> ('a, 's) client \<Rightarrow> list_row list option" where
  "domains_open qs c = those (map (entry_row qs) (cp_domains (cl_p c)))"

definition domains_accept :: "qstring_ops \<Rightarrow> 's client_env \<Rightarrow> list_row list \<Rightarrow> ('a, 's) client \<Rightarrow> ('a, 's) client" where
  "domains_accept qs env rows c = SetDomainList env (map (row_entry qs) rows) c"

definition domain_new :: list_row where
  "domain_new = \<lparr>lr_name = ''www.baidu.com'', lr_combo = 0, lr_desc = ''baidu''\<rparr>"

text \<open>The regular expression of a MAC address.\<close>

definition mac_digit :: "char \<Rightarrow> bool" where
  "mac_digit c \<longleftrightarrow> c \<in> set ''abcdefABCDEF0123456789''"

fun mac_groups :: "nat \<Rightarrow> string \<Rightarrow> bool" where
  "mac_groups (Suc n) (c # a # b # s) = (c = CHR '':'' \<and> mac_digit a \<and> mac_digit b \<and> mac_groups n s)"
| "mac_groups n s = (n = 0 \<and> s = [])"

definition mac_format :: "string \<Rightarrow> bool" where
  "mac_format s = (case s of a # b # r \<Rightarrow> mac_digit a \<and> mac_digit b \<and> mac_groups 5 r | _ \<Rightarrow> False)"

definition zero_mac :: string where "zero_mac = ''00:00:00:00:00:00''"

text \<open>Setting the first text of a row, by the program or the user, calls \<open>itemChanged\<close>; the warning is not modelled.\<close>

definition itemChanged :: "list_row \<Rightarrow> list_row" where
  "itemChanged r = (if lr_name r \<noteq> [] \<and> \<not> mac_format (lr_name r) then r\<lparr>lr_name := zero_mac\<rparr> else r)"

definition devices_open :: "qstring_ops \<Rightarrow> ('a, 's) client \<Rightarrow> list_row list option" where
  "devices_open qs c = those (map (map_option itemChanged \<circ> entry_row qs) (cp_devices (cl_p c)))"

definition devices_accept :: "qstring_ops \<Rightarrow> list_row list \<Rightarrow> ('a, 's) client \<Rightarrow> ('a, 's) client" where
  "devices_accept qs rows c = SetDeviceList (map (row_entry qs) (filter (\<lambda>r. lr_name r \<noteq> []) rows)) c"

definition device_new :: list_row where
  "device_new = \<lparr>lr_name = zero_mac, lr_combo = 0, lr_desc = ''''\<rparr>"

text \<open>What the user does with a list: the menu adds a row or takes the current one away, or the row is edited.\<close>

datatype row_event = Add_row | Delete_row nat | Edit_name nat string | Choose nat int | Edit_desc nat string

definition on_row :: "nat \<Rightarrow> (list_row \<Rightarrow> list_row) \<Rightarrow> list_row list \<Rightarrow> list_row list" where
  "on_row i f rows = (if i < length rows then rows[i := f (rows ! i)] else rows)"

fun devices_edit :: "row_event \<Rightarrow> list_row list \<Rightarrow> list_row list" where
  "devices_edit Add_row rows = rows @ [device_new]"
| "devices_edit (Delete_row i) rows = take i rows @ drop (Suc i) rows"
| "devices_edit (Edit_name i x) rows = on_row i (\<lambda>r. itemChanged (r\<lparr>lr_name := x\<rparr>)) rows"
| "devices_edit (Choose i n) rows = on_row i (lr_combo_update (\<lambda>_. n)) rows"
| "devices_edit (Edit_desc i x) rows = on_row i (lr_desc_update (\<lambda>_. x)) rows"

section \<open>The list of servers\<close>

record server_row =
  sv_ip :: string
  sv_port :: string
  sv_desc :: string
  sv_checked :: bool

definition endpoint :: "qstring_ops \<Rightarrow> server_row \<Rightarrow> string" where
  "endpoint qs r = qs_arg qs (qs_arg qs ''%1:%2'' (sv_ip r)) (sv_port r)"

definition server_key :: "nat \<Rightarrow> string \<Rightarrow> setting_key" where
  "server_key i k = Array_entry '''' ''Servers'' i k"

text \<open>The boxes are exclusive: checking one unchecks the others.\<close>

definition add_server :: "qstring_ops \<Rightarrow> string \<Rightarrow> server_row \<Rightarrow> server_row list \<Rightarrow> server_row list" where
  "add_server qs select r rows =
     (if endpoint qs r = select then map (sv_checked_update (\<lambda>_. False)) rows @ [r\<lparr>sv_checked := True\<rparr>]
      else rows @ [r\<lparr>sv_checked := False\<rparr>])"

fun servers_loop :: "qstring_ops \<Rightarrow> 's settings_ops \<Rightarrow> string \<Rightarrow> nat \<Rightarrow> nat \<Rightarrow> 's \<Rightarrow> server_row list \<Rightarrow> server_row list" where
  "servers_loop qs st select i 0 s rows = rows"
| "servers_loop qs st select i (Suc n) s rows =
     (let ip = st_string st (server_key i ''ip'') '''' s;
          port = st_int st (server_key i ''port'') 0 s;
          desc = st_string st (server_key i ''desc'') '''' s
      in servers_loop qs st select (Suc i) n s
           (add_server qs select \<lparr>sv_ip = ip, sv_port = qs_number qs port, sv_desc = desc, sv_checked = False\<rparr> rows))"

definition servers_open :: "qstring_ops \<Rightarrow> 's client_env \<Rightarrow> ('a, 's) client \<Rightarrow> server_row list" where
  "servers_open qs env c =
     servers_loop qs (ce_settings env) (cp_server (cl_p c)) 0
       (nat (st_int (ce_settings env) (Array_size '''' ''Servers'') 0 (cl_settings c))) (cl_settings c) []"

definition on_settings :: "('s \<Rightarrow> 's) \<Rightarrow> ('a, 's) client \<Rightarrow> ('a, 's) client" where
  "on_settings f c = c\<lparr>cl_settings := f (cl_settings c)\<rparr>"

definition write_server :: "qstring_ops \<Rightarrow> 's client_env \<Rightarrow> nat \<Rightarrow> server_row \<Rightarrow> ('a, 's) client \<Rightarrow> ('a, 's) client" where
  "write_server qs env i r c =
     (let st = ce_settings env;
          c = on_settings (st_set st (server_key i ''ip'') (VString (sv_ip r))) c;
          c = on_settings (st_set st (server_key i ''port'') (VInt (qs_toInt qs (sv_port r)))) c;
          c = on_settings (st_set st (server_key i ''desc'') (VString (sv_desc r))) c
      in if sv_checked r then SetServer env (endpoint qs r) c else c)"

fun write_servers :: "qstring_ops \<Rightarrow> 's client_env \<Rightarrow> nat \<Rightarrow> server_row list \<Rightarrow> ('a, 's) client \<Rightarrow> ('a, 's) client" where
  "write_servers qs env i [] c = c"
| "write_servers qs env i (r # rows) c = write_servers qs env (Suc i) rows (write_server qs env i r c)"

definition servers_accept :: "qstring_ops \<Rightarrow> 's client_env \<Rightarrow> server_row list \<Rightarrow> ('a, 's) client \<Rightarrow> ('a, 's) client" where
  "servers_accept qs env rows c =
     on_settings (st_set (ce_settings env) (Array_size '''' ''Servers'') (VInt (int (length rows)))) (write_servers qs env 0 rows c)"

definition server_new :: "qstring_ops \<Rightarrow> server_row" where
  "server_new qs = \<lparr>sv_ip = ''127.0.0.1'', sv_port = qs_number qs 48888, sv_desc = '''', sv_checked = False\<rparr>"

section \<open>The protocols\<close>

definition protocol_boxes :: "string list" where
  "protocol_boxes = [''DNS'', ''HTTP'', ''TCP'', ''UDP'', ''ICMP'', ''ARP'']"

definition protocols_open :: "('a, 's) client \<Rightarrow> bool list" where
  "protocols_open c = map (\<lambda>text. text \<in> set (cp_protocols (cl_p c))) protocol_boxes"

definition protocols_accept :: "'s client_env \<Rightarrow> bool list \<Rightarrow> ('a, 's) client \<Rightarrow> ('a, 's) client" where
  "protocols_accept env checked c = SetProtocolList env (map snd (filter fst (zip checked protocol_boxes))) c"

section \<open>Captured packets\<close>

text \<open>The button and closing the dialog.\<close>

definition capture_clicked :: "'s client_env \<Rightarrow> string \<Rightarrow> ('a, 's) client \<Rightarrow> ('a, 's) client" where
  "capture_clicked env text c = (if cp_isCapture (cl_p c) then StopCapture c else StartCapture env text c)"

definition capture_closeEvent :: "('a, 's) client \<Rightarrow> ('a, 's) client" where
  "capture_closeEvent c = (if cp_isCapture (cl_p c) then StopCapture c else c)"

text \<open>A node of the tree: its text and the point with the ends of its bytes.\<close>

record tree_node =
  tn_text :: string
  tn_point :: "cint \<times> cint"

definition eth_text :: "qstring_ops \<Rightarrow> byte list \<Rightarrow> byte list \<Rightarrow> string" where
  "eth_text qs src dst =
     foldl (\<lambda>x b. qs_argInt qs x (uint b) 2 16 CHR ''0'')
       ''Ethernet, Src: %1:%2:%3:%4:%5:%6, Dst: %7:%8:%9:%10:%11:%12'' (src @ dst)"

text \<open>\<open>sizeof( protocol_eth )\<close> is 14; the packet's length is not tested.\<close>

definition CreateEth :: "qstring_ops \<Rightarrow> byte list \<Rightarrow> tree_node option" where
  "CreateEth qs data = do {
     src \<leftarrow> bytes_at data 6 6;
     dst \<leftarrow> bytes_at data 0 6;
     Some \<lparr>tn_text = eth_text qs src dst, tn_point = (0, 14)\<rparr>
   }"

definition CreateTree :: "qstring_ops \<Rightarrow> u8 \<Rightarrow> 's \<Rightarrow> byte list \<Rightarrow> (byte list, 's, 'c) hexview \<Rightarrow> (tree_node \<times> (byte list, 's, 'c) hexview) option" where
  "CreateTree qs w s data v = do {
     doc \<leftarrow> document_new w s data;
     node \<leftarrow> CreateEth qs data;
     Some (node, setDocument doc v)
   }"

text \<open>The line width of a position is an unsigned byte, which is divided by as an \<open>int\<close>.\<close>

definition treeWidget_itemClicked :: "tree_node \<Rightarrow> ('b, 's, 'c) hexview \<Rightarrow> ('b, 's, 'c) hexview option" where
  "treeWidget_itemClicked node v =
     (let line_sz = ps_lineWidth (cu_position (vcursor v)); x = sint (fst (tn_point node)); y = sint (snd (tn_point node))
      in if line_sz = 0 then None
         else let beg_col = word_of_int (x smod uint line_sz); end_col = word_of_int (y smod uint line_sz);
                  beg_line = word_of_int (x sdiv uint line_sz); end_line = word_of_int (y sdiv uint line_sz)
              in Some (on_cursor (cursor_select end_line end_col 1) (on_cursor (moveTo beg_line beg_col 1) v)))"

section \<open>Rows and entries\<close>

definition row_ok :: "list_row \<Rightarrow> bool" where
  "row_ok r \<longleftrightarrow> CHR ''|'' \<notin> set (lr_name r) \<and> CHR ''%'' \<notin> set (lr_name r) \<and> CHR ''|'' \<notin> set (lr_desc r) \<and>
     - 1 \<le> lr_combo r \<and> lr_combo r < 3"

lemma those_map_Some: "(\<And>x. x \<in> set xs \<Longrightarrow> f x = Some (g x)) \<Longrightarrow> those (map f xs) = Some (map g xs)"
  by (induction xs) simp_all

lemma those_member: "those ys = Some xs \<Longrightarrow> x \<in> set xs \<Longrightarrow> Some x \<in> set ys"
proof (induction ys arbitrary: xs)
  case (Cons y ys)
  then show ?case by (cases y; cases "those ys") auto
qed simp

context qstring
begin

lemma row_entry_text:
  assumes "CHR ''%'' \<notin> set (lr_name r)"
  shows "row_entry qs r = lr_name r @ ''|'' @ qs_number qs (lr_combo r) @ ''|'' @ lr_desc r"
proof -
  let ?n = "qs_number qs (lr_combo r)"
  have "qs_arg qs (lr_name r @ ''|%2|%3'') ?n = (lr_name r @ ''|'') @ ?n @ ''|%3''"
    using arg_second(1) [of "lr_name r @ ''|''" ?n] assms by simp
  moreover have "qs_arg qs (lr_name r @ ''|'' @ ?n @ ''|%3'') (lr_desc r) = (lr_name r @ ''|'' @ ?n @ ''|'') @ lr_desc r"
    using arg_third [of "lr_name r @ ''|'' @ ?n @ ''|''" "lr_desc r"] assms number_chars(2) by simp
  ultimately show ?thesis by (simp add: row_entry_def arg_first)
qed

lemma row_round:
  assumes "row_ok r"
  shows "entry_row qs (row_entry qs r) = Some r"
proof -
  have "qs_toInt qs (qs_number qs (lr_combo r)) = lr_combo r" "setCurrentIndex (lr_combo r) = lr_combo r"
    using assms by (auto simp: row_ok_def setCurrentIndex_def intro!: number_toInt)
  moreover have "qs_split qs (row_entry qs r) = [lr_name r, qs_number qs (lr_combo r), lr_desc r]"
    using assms row_entry_text [of r] split_bars [OF _ number_chars(1), of "lr_name r" "lr_desc r" "lr_combo r"] by (simp add: row_ok_def)
  ultimately show ?thesis by (simp add: entry_row_def)
qed

lemma entry_row_ok:
  assumes "entry_row qs s = Some r"
  shows "CHR ''|'' \<notin> set (lr_desc r) \<and> - 1 \<le> lr_combo r \<and> lr_combo r < 3"
proof -
  from assms obtain a i d rest where s: "qs_split qs s = a # i # d # rest"
      "r = \<lparr>lr_name = a, lr_combo = setCurrentIndex (qs_toInt qs i), lr_desc = d\<rparr>"
    by (cases "qs_split qs s"; cases "tl (qs_split qs s)"; cases "tl (tl (qs_split qs s))") (simp_all add: entry_row_def)
  moreover have "CHR ''|'' \<notin> set d" by (rule split_parts [of d s]) (simp add: s(1))
  ultimately show ?thesis by (simp add: setCurrentIndex_def)
qed

end

section \<open>The list of devices\<close>

lemma mac_groups_chars: "mac_groups n s \<Longrightarrow> c \<in> set s \<Longrightarrow> c = CHR '':'' \<or> mac_digit c"
  by (induction n s rule: mac_groups.induct) auto

lemma mac_format_chars:
  assumes "mac_format s"
  shows "CHR ''|'' \<notin> set s" "CHR ''%'' \<notin> set s"
proof -
  have "c = CHR '':'' \<or> mac_digit c" if "c \<in> set s" for c
    using that assms mac_groups_chars by (auto simp: mac_format_def split: list.splits)
  then show "CHR ''|'' \<notin> set s" "CHR ''%'' \<notin> set s" by (auto simp: mac_digit_def)
qed

definition device_ok :: "list_row \<Rightarrow> bool" where
  "device_ok r \<longleftrightarrow> (lr_name r = [] \<or> mac_format (lr_name r)) \<and> CHR ''|'' \<notin> set (lr_desc r) \<and> - 1 \<le> lr_combo r \<and> lr_combo r < 3"

fun event_fits :: "row_event \<Rightarrow> bool" where
  "event_fits (Choose i n) = (0 \<le> n \<and> n < 3)"
| "event_fits (Edit_desc i x) = (CHR ''|'' \<notin> set x)"
| "event_fits e = True"

lemma zero_mac_format: "mac_format zero_mac" by code_simp

lemma itemChanged_ok:
  "lr_name (itemChanged r) = [] \<or> mac_format (lr_name (itemChanged r))"
  "lr_combo (itemChanged r) = lr_combo r" "lr_desc (itemChanged r) = lr_desc r"
  by (auto simp: itemChanged_def zero_mac_format)

lemma on_row_ok:
  assumes "\<forall>r \<in> set rows. P r" "\<And>r. P r \<Longrightarrow> P (f r)"
  shows "\<forall>r \<in> set (on_row i f rows). P r"
proof (cases "i < length rows")
  case True
  then have "P (f (rows ! i))" using assms by simp
  then show ?thesis using True assms(1) set_update_subset_insert [of rows i "f (rows ! i)"] by (auto simp: on_row_def)
qed (use assms(1) in \<open>simp add: on_row_def\<close>)

lemma devices_edit_ok:
  assumes "\<forall>r \<in> set rows. device_ok r" "event_fits e"
  shows "\<forall>r \<in> set (devices_edit e rows). device_ok r"
proof (cases e)
  case Add_row
  then show ?thesis using assms(1) zero_mac_format by (auto simp: device_ok_def device_new_def)
next
  case (Delete_row i)
  then show ?thesis using assms(1) by (auto dest: in_set_takeD in_set_dropD)
next
  case (Edit_name i x)
  show ?thesis unfolding Edit_name devices_edit.simps
    by (rule on_row_ok [OF assms(1)]) (use itemChanged_ok in \<open>auto simp: device_ok_def\<close>)
next
  case (Choose i n)
  show ?thesis unfolding Choose devices_edit.simps
    by (rule on_row_ok [OF assms(1)]) (use assms(2) Choose in \<open>auto simp: device_ok_def\<close>)
next
  case (Edit_desc i x)
  show ?thesis unfolding Edit_desc devices_edit.simps
    by (rule on_row_ok [OF assms(1)]) (use assms(2) Edit_desc in \<open>auto simp: device_ok_def\<close>)
qed

lemma devices_edits_ok:
  "\<forall>r \<in> set rows. device_ok r \<Longrightarrow> \<forall>e \<in> set es. event_fits e \<Longrightarrow> \<forall>r \<in> set (fold devices_edit es rows). device_ok r"
proof (induction es arbitrary: rows)
  case (Cons e es)
  then show ?case using devices_edit_ok [of rows e] by simp
qed simp

lemma device_row_ok: "device_ok r \<Longrightarrow> lr_name r \<noteq> [] \<Longrightarrow> row_ok r"
  using mac_format_chars [of "lr_name r"] by (auto simp: device_ok_def row_ok_def)

section \<open>The list of servers\<close>

definition setting_group :: "setting_key \<Rightarrow> string" where
  "setting_group k = (case k of Setting g x \<Rightarrow> g | Array_size g a \<Rightarrow> g | Array_entry g a i x \<Rightarrow> g)"

lemma group_apart: "setting_group k \<noteq> g \<Longrightarrow> apart g a x k" "setting_group k \<noteq> g \<Longrightarrow> k \<noteq> Setting g x"
  by (auto simp: apart_def setting_group_def)

lemma server_key_simps [simp]:
  "setting_group (server_key i k) = ''''" "server_key i k = server_key j l \<longleftrightarrow> i = j \<and> k = l"
  "server_key i k \<noteq> Array_size g a" "Array_size g a \<noteq> server_key i k"
  by (auto simp: server_key_def setting_group_def)

lemma on_settings_simps [simp]: "cl_p (on_settings f c) = cl_p c" "cl_settings (on_settings f c) = f (cl_settings c)"
  by (simp_all add: on_settings_def)

text \<open>The rows the settings have at their positions.\<close>

definition has_servers :: "qstring_ops \<Rightarrow> 's settings_ops \<Rightarrow> nat \<Rightarrow> server_row list \<Rightarrow> 's \<Rightarrow> bool" where
  "has_servers qs st i rows s \<longleftrightarrow> (\<forall>j < length rows. st_string st (server_key (i + j) ''ip'') '''' s = sv_ip (rows ! j) \<and>
     st_int st (server_key (i + j) ''port'') 0 s = qs_toInt qs (sv_port (rows ! j)) \<and>
     st_string st (server_key (i + j) ''desc'') '''' s = sv_desc (rows ! j))"

lemma has_servers_Cons:
  "has_servers qs st i (r # rows) s \<longleftrightarrow> st_string st (server_key i ''ip'') '''' s = sv_ip r \<and>
     st_int st (server_key i ''port'') 0 s = qs_toInt qs (sv_port r) \<and> st_string st (server_key i ''desc'') '''' s = sv_desc r \<and>
     has_servers qs st (Suc i) rows s"
  by (auto simp: has_servers_def less_Suc_eq_0_disj nth_Cons split: nat.split)

context settings_file
begin

lemma write_settings_other:
  assumes "setting_group k \<noteq> ''Controller''"
  shows "st_string st k x (write_settings st p s) = st_string st k x s" "st_int st k n (write_settings st p s) = st_int st k n s"
  using group_apart [OF assms] by (simp_all add: write_settings_def Let_def write_array_other other)

lemma SetServer_other:
  assumes "ce_settings env = st" "setting_group k \<noteq> ''Controller''"
  shows "st_string st k x (cl_settings (SetServer env e c)) = st_string st k x (cl_settings c)"
    "st_int st k n (cl_settings (SetServer env e c)) = st_int st k n (cl_settings c)"
  using assms(1) by (simp_all add: SetServer_def send_config_state write_settings_other [OF assms(2)])

lemma write_server_other:
  assumes "ce_settings env = st" "j \<noteq> i"
  shows "st_string st (server_key j k) x (cl_settings (write_server qs env i r c)) = st_string st (server_key j k) x (cl_settings c)"
    "st_int st (server_key j k) n (cl_settings (write_server qs env i r c)) = st_int st (server_key j k) n (cl_settings c)"
  using assms(2) by (simp_all add: write_server_def Let_def SetServer_other [OF assms(1)] assms(1) other)

lemma write_server_same:
  assumes "ce_settings env = st"
  shows "st_string st (server_key i ''ip'') x (cl_settings (write_server qs env i r c)) = sv_ip r"
    "st_int st (server_key i ''port'') n (cl_settings (write_server qs env i r c)) = qs_toInt qs (sv_port r)"
    "st_string st (server_key i ''desc'') x (cl_settings (write_server qs env i r c)) = sv_desc r"
  by (simp_all add: write_server_def Let_def SetServer_other [OF assms] assms other same)

lemma write_servers_other:
  assumes "ce_settings env = st" "j < i"
  shows "st_string st (server_key j k) x (cl_settings (write_servers qs env i rows c)) = st_string st (server_key j k) x (cl_settings c)"
    "st_int st (server_key j k) n (cl_settings (write_servers qs env i rows c)) = st_int st (server_key j k) n (cl_settings c)"
  using assms(2) by (induction rows arbitrary: i c) (simp_all add: write_server_other [OF assms(1)])

lemma write_servers_has:
  assumes "ce_settings env = st"
  shows "has_servers qs st i rows (cl_settings (write_servers qs env i rows c))"
proof (induction rows arbitrary: i c)
  case (Cons r rows)
  show ?case using Cons.IH [of "Suc i"]
    by (simp add: has_servers_Cons write_servers_other [OF assms] write_server_same [OF assms])
qed (simp add: has_servers_def)

end

lemma write_servers_server:
  assumes "\<forall>r \<in> set rows. \<not> sv_checked r"
  shows "cp_server (cl_p (write_servers qs env i rows c)) = cp_server (cl_p c)"
  using assms by (induction rows arbitrary: i c) (simp_all add: write_server_def Let_def)

lemma write_servers_append:
  "write_servers qs env i (xs @ ys) c = write_servers qs env (i + length xs) ys (write_servers qs env i xs c)"
  by (induction xs arbitrary: i c) simp_all

lemma write_server_checked: "sv_checked r \<Longrightarrow> cp_server (cl_p (write_server qs env i r c)) = endpoint qs r"
  by (simp add: write_server_def Let_def SetServer_def send_config_state)

definition servers_read :: "qstring_ops \<Rightarrow> string \<Rightarrow> server_row list \<Rightarrow> server_row list \<Rightarrow> server_row list" where
  "servers_read qs select rows acc = fold (\<lambda>r. add_server qs select (r\<lparr>sv_checked := False\<rparr>)) rows acc"

lemma servers_loop_read:
  assumes "has_servers qs st i rows s" "\<forall>r \<in> set rows. qs_number qs (qs_toInt qs (sv_port r)) = sv_port r"
  shows "servers_loop qs st select i (length rows) s acc = servers_read qs select rows acc"
  using assms
proof (induction rows arbitrary: i acc)
  case (Cons r rows)
  have e: "\<lparr>sv_ip = sv_ip r, sv_port = sv_port r, sv_desc = sv_desc r, sv_checked = False\<rparr> = r\<lparr>sv_checked := False\<rparr>" by simp
  show ?case using Cons by (simp add: has_servers_Cons Let_def servers_read_def e)
qed (simp add: servers_read_def)

lemma servers_read_none:
  assumes "\<forall>r \<in> set rows. endpoint qs r \<noteq> select \<and> \<not> sv_checked r"
  shows "servers_read qs select rows acc = acc @ rows"
proof -
  have "endpoint qs (r\<lparr>sv_checked := b\<rparr>) = endpoint qs r" for r b by (simp add: endpoint_def)
  then show ?thesis using assms by (induction rows arbitrary: acc) (simp_all add: servers_read_def add_server_def)
qed

lemma uncheck_same: "\<forall>r \<in> set rows. \<not> sv_checked r \<Longrightarrow> map (sv_checked_update (\<lambda>_. False)) rows = rows"
  by (induction rows) simp_all

section \<open>Properties\<close>

text \<open>C35: The domains survive a restart. When the dialog accepts a changed list, whose names have no bar and no place marker,
the dialog of a client started anew on the settings file shows the same rows.\<close>

theorem domains_survive_restart:
  assumes "qstring qs" "settings_file (ce_settings env)" "\<forall>r \<in> set rows. row_ok r"
    and "map (row_entry qs) rows \<noteq> cp_domains (cl_p c)"
  shows "domains_open qs (controller_new env null (cl_settings (domains_accept qs env rows c))) = Some rows"
proof -
  let ?ds = "map (row_entry qs) rows"
  have "cl_settings (domains_accept qs env rows c) = write_settings (ce_settings env) (cl_p (domains_accept qs env rows c)) (cl_settings c)"
    using exec_settings [of env "Set_domains ?ds" c] assms(4) by (simp add: domains_accept_def eq_commute)
  moreover have "cp_domains (cl_p (domains_accept qs env rows c)) = ?ds"
    by (simp add: domains_accept_def SetDomainList_def send_config_state)
  ultimately have d: "cp_domains (cl_p (controller_new env null (cl_settings (domains_accept qs env rows c)))) = ?ds"
    using restart_written [OF assms(2), of null "cl_p (domains_accept qs env rows c)" "cl_settings c"] by (simp add: config_of_def)
  have "those (map (\<lambda>r. entry_row qs (row_entry qs r)) rows) = Some (map (\<lambda>r. r) rows)"
    by (rule those_map_Some) (use assms(3) qstring.row_round [OF assms(1)] in blast)
  then show ?thesis by (simp add: domains_open_def d comp_def)
qed


text \<open>The dialog of servers. Accepting a list with one checked server, whose end point no other row has, makes it the
controller's server, and the dialog shows the same list with the same server checked again.\<close>

theorem servers_round:
  assumes "qstring qs" "settings_file (ce_settings env)" "rows = xs @ r # ys" "sv_checked r"
    and "\<forall>r' \<in> set (xs @ ys). \<not> sv_checked r' \<and> endpoint qs r' \<noteq> endpoint qs r"
    and "\<forall>r' \<in> set rows. \<exists>p. 0 \<le> p \<and> p < 2 ^ 16 \<and> sv_port r' = qs_number qs p"
  shows "cp_server (cl_p (servers_accept qs env rows c)) = endpoint qs r \<and> servers_open qs env (servers_accept qs env rows c) = rows"
proof -
  let ?c = "servers_accept qs env rows c" and ?st = "ce_settings env"
  have server: "cp_server (cl_p ?c) = endpoint qs r"
    using assms(5) by (simp add: servers_accept_def assms(3) write_servers_append write_servers_server write_server_checked [OF assms(4)])
  have port: "\<forall>r' \<in> set rows. qs_number qs (qs_toInt qs (sv_port r')) = sv_port r'"
    using assms(6) qstring.number_toInt [OF assms(1)] by fastforce
  have "has_servers qs ?st 0 rows (cl_settings ?c)"
    using settings_file.write_servers_has [OF assms(2) refl, of qs 0 rows c]
    by (simp add: servers_accept_def has_servers_def settings_file.other [OF assms(2)])
  moreover have "st_int ?st (Array_size '''' ''Servers'') 0 (cl_settings ?c) = int (length rows)"
    by (simp add: servers_accept_def settings_file.same [OF assms(2)])
  ultimately have shown: "servers_open qs env ?c = servers_read qs (endpoint qs r) rows []"
    using servers_loop_read [OF _ port] by (simp add: servers_open_def server)
  have e: "endpoint qs (r\<lparr>sv_checked := False\<rparr>) = endpoint qs r" "r\<lparr>sv_checked := True\<rparr> = r"
    using assms(4) by (simp_all add: endpoint_def)
  have "servers_read qs (endpoint qs r) rows [] = servers_read qs (endpoint qs r) ys (add_server qs (endpoint qs r) (r\<lparr>sv_checked := False\<rparr>)
      (servers_read qs (endpoint qs r) xs []))" by (simp add: servers_read_def assms(3))
  also have "servers_read qs (endpoint qs r) xs [] = xs" using servers_read_none [of xs qs "endpoint qs r" "[]"] assms(5) by auto
  also have "add_server qs (endpoint qs r) (r\<lparr>sv_checked := False\<rparr>) xs = xs @ [r]"
    using uncheck_same [of xs] assms(5) e by (simp add: add_server_def)
  also have "servers_read qs (endpoint qs r) ys (xs @ [r]) = rows"
    using servers_read_none [of ys qs "endpoint qs r" "xs @ [r]"] assms(3,5) by auto
  finally show ?thesis using server shown by simp
qed

text \<open>The boxes of the protocols show what was accepted.\<close>

lemma checked_names:
  "length checked = length names \<Longrightarrow> distinct names \<Longrightarrow>
     map (\<lambda>x. x \<in> set (map snd (filter fst (zip checked names)))) names = checked"
proof (induction checked names rule: list_induct2)
  case (Cons b bs n ns)
  define P where "P = set (map snd (filter fst (zip bs ns)))"
  have "P \<subseteq> set ns" by (auto simp: P_def dest: set_zip_rightD)
  then have n: "n \<notin> P" using Cons.prems by auto
  have IH: "map (\<lambda>x. x \<in> P) ns = bs" using Cons.IH Cons.prems by (simp only: P_def distinct.simps)
  have "map (\<lambda>x. x \<in> insert n P) ns = map (\<lambda>x. x \<in> P) ns" using Cons.prems by (intro map_cong) auto
  then have "map (\<lambda>x. x \<in> (if b then insert n P else P)) (n # ns) = b # bs" using IH n by simp
  moreover have "set (map snd (filter fst (zip (b # bs) (n # ns)))) = (if b then insert n P else P)" by (simp add: P_def)
  ultimately show ?case by (simp only:)
qed simp

lemma protocols_round: "length checked = 6 \<Longrightarrow> protocols_open (protocols_accept env checked c) = checked"
  using checked_names [of checked protocol_boxes]
  by (simp add: protocols_open_def protocols_accept_def SetProtocolList_def send_config_state) (simp add: protocol_boxes_def)

section \<open>The bytes of a captured packet\<close>

text \<open>A node with the ends \<open>x\<close> and \<open>y\<close> puts the cursor on \<open>y\<close> and the start of the selection on \<open>x\<close>.\<close>

lemma item_clicked:
  assumes "cursor_ok (vcursor v)" "0 < cu_lineWidth (vcursor v)" "x \<le> y" "y < 2 ^ 24" "tn_point node = (of_nat x, of_nat y)"
  shows "\<exists>v'. treeWidget_itemClicked node v = Some v' \<and> cursor_ok (vcursor v') \<and> at_offset (cu_selection (vcursor v')) = x \<and>
    at_offset (cu_position (vcursor v')) = y \<and> doc_buffer (vw_document v') = doc_buffer (vw_document v) \<and>
    hasSelection (vcursor v') = (x \<noteq> y)"
proof -
  let ?w = "cu_lineWidth (vcursor v)" and ?p = "cu_position (vcursor v)" and ?s = "cu_selection (vcursor v)"
  let ?line = "\<lambda>k. of_nat (k div unat ?w) :: u64" and ?col = "\<lambda>k. of_nat (k mod unat ?w) :: cint"
  have w: "ps_lineWidth ?p = ?w" "ps_lineWidth ?s = ?w" using assms(1) by (simp_all add: cursor_ok_def pos_ok_def)
  have k31: "k < 2 ^ 31" "k div unat ?w < 2 ^ 31" "k mod unat ?w < 2 ^ 31" if "k < 2 ^ 24" for k
  proof -
    show "k < 2 ^ 31" using that by simp
    then show "k div unat ?w < 2 ^ 31" "k mod unat ?w < 2 ^ 31"
      using div_below le_less_trans [OF mod_less_eq_dividend] by blast+
  qed
  have cells: "(word_of_int (sint (of_nat k :: cint) sdiv uint ?w) :: u64) = ?line k"
      "(word_of_int (sint (of_nat k :: cint) smod uint ?w) :: cint) = ?col k" if "k < 2 ^ 24" for k
  proof -
    have u: "uint ?w = int (unat ?w)" by simp
    show "(word_of_int (sint (of_nat k :: cint) sdiv uint ?w) :: u64) = ?line k"
      "(word_of_int (sint (of_nat k :: cint) smod uint ?w) :: cint) = ?col k"
      unfolding sint_of_nat_cint [OF k31(1) [OF that]] u sdiv_nat smod_nat by simp_all
  qed
  have x: "x < 2 ^ 24" "x < 2 ^ 63" "y < 2 ^ 63" using assms(3,4) by simp_all
  let ?v = "on_cursor (cursor_select (?line y) (?col y) 1) (on_cursor (moveTo (?line x) (?col x) 1) v)"
  have "treeWidget_itemClicked node v = Some ?v"
    using assms(2) by (simp add: treeWidget_itemClicked_def Let_def assms(5) w(1) cells [OF x(1)] cells [OF assms(4)])
  moreover have "cu_position (vcursor ?v) = set_pos (?line y) (?col y) 1 ?p" "cu_selection (vcursor ?v) = set_pos (?line x) (?col x) 1 ?s"
    "cu_lineWidth (vcursor ?v) = ?w" "doc_buffer (vw_document ?v) = doc_buffer (vw_document v)"
    by (simp_all add: on_cursor_def on_document_def vcursor_def cursor_select_def moveTo_def set_pos_def)
  moreover from calculation(2-4) set_cells [OF x(3) assms(2) w(1), of 1] set_cells [OF x(2) assms(2) w(2), of 1]
  have at: "cursor_ok (vcursor ?v)" "at_offset (cu_selection (vcursor ?v)) = x" "at_offset (cu_position (vcursor ?v)) = y"
    by (simp_all add: cursor_ok_def)
  moreover have "hasSelection (vcursor ?v) = (x \<noteq> y)"
  proof
    assume "hasSelection (vcursor ?v)"
    then show "x \<noteq> y" unfolding hasSelection_def pos_eq_def calculation(2,3) by (auto simp: set_pos_def)
  next
    assume "x \<noteq> y"
    then show "hasSelection (vcursor ?v)" using no_selection [OF _ at(1)] at(2,3) by metis
  qed
  ultimately show ?thesis by blast
qed

text \<open>The tree selects one byte too many. Clicking on a captured packet shows the header's two
addresses, and clicking on this Ethernet node selects fifteen bytes of the packet, one more than the header has.\<close>

theorem capture_selects:
  fixes v :: "(byte list, 's, 'c) hexview"
  assumes "qbytearray qt" "15 \<le> length data" "length data < 2 ^ 24"
  shows "\<exists>node v1 v2. CreateTree qs w s data v = Some (node, v1) \<and> treeWidget_itemClicked node v1 = Some v2 \<and>
    tn_text node = eth_text qs (take 6 (drop 6 data)) (take 6 data) \<and>
    fst (selectedBytes (memory_ops qt) (vw_document v2)) = take 15 data"
proof -
  obtain m :: "'c qhexmetadata" where m: "metadata_setLineWidth 0x10 (metadata_new w) = Some m" using new_effect by blast
  let ?doc = "\<lparr>doc_buffer = data, doc_metadata = m, doc_undostack = s, doc_cursor = setLineWidth 0x10 cursor_new,
    doc_baseaddress = 0, doc_areaindent = 0x01, doc_hexlinewidth = 0x10, doc_documentChanged = 0\<rparr>"
  let ?node = "\<lparr>tn_text = eth_text qs (take 6 (drop 6 data)) (take 6 data), tn_point = (0, 14)\<rparr>" and ?v1 = "setDocument ?doc v"
  have tree: "CreateTree qs w s data v = Some (?node, ?v1)"
    using assms(2) by (simp add: CreateTree_def document_new_def m CreateEth_def bytes_at_Some)
  have c: "cursor_ok (vcursor ?v1)" "0 < cu_lineWidth (vcursor ?v1)"
    by (simp_all add: vcursor_def setDocument_def setLineWidth_def cursor_new_def cursor_ok_def pos_ok_def at_offset_def)
  obtain v2 where v2: "treeWidget_itemClicked ?node ?v1 = Some v2" "cursor_ok (vcursor v2)" "at_offset (cu_selection (vcursor v2)) = 0"
      "at_offset (cu_position (vcursor v2)) = 14" "doc_buffer (vw_document v2) = data" "hasSelection (vcursor v2)"
    using item_clicked [OF c, of 0 14 ?node] by (auto simp: setDocument_def)
  note S = selection_order [OF v2(2)]
  have ends: "at_offset (selectionStart (vcursor v2)) = 0" "at_offset (selectionEnd (vcursor v2)) = 14" using S(1,2) v2(3,4) by simp_all
  have len: "sint (selectionLength (vcursor v2)) = 15" "unat (selectionLength (vcursor v2)) = 15"
    using selection_length [OF v2(2)] ends by simp_all
  have off: "unat (pos_offset (selectionStart (vcursor v2))) = 0" using pos_offset_nat(2) [OF S(3)] ends(1) by simp
  have "fst (selectedBytes (memory_ops qt) (vw_document v2)) =
      mem_read qt (pos_offset (selectionStart (vcursor v2))) (selectionLength (vcursor v2)) data"
    using v2(5,6) by (simp add: selectedBytes_def memory_ops_def vcursor_def)
  also have "\<dots> = take 15 data"
    using qbytearray.mem_read_eq [OF assms(1), of "pos_offset (selectionStart (vcursor v2))" "selectionLength (vcursor v2)" data] off len by simp
  finally show ?thesis using tree v2(1) by (intro exI conjI) auto
qed

section \<open>Instances\<close>

fun split_bar :: "string \<Rightarrow> string list" where
  "split_bar [] = [[]]"
| "split_bar (c # s) = (if c = CHR 0x7C then [] # split_bar s else case split_bar s of x # xs \<Rightarrow> (c # x) # xs | [] \<Rightarrow> [[c]])"

text \<open>The first marker is replaced, once.\<close>

fun replace_marker :: "string \<Rightarrow> string \<Rightarrow> string" where
  "replace_marker (c # d # s) a = (if c = CHR 0x25 \<and> d \<in> set ''123456789'' then a @ s else c # replace_marker (d # s) a)"
| "replace_marker s a = s"

fun decimal :: "nat \<Rightarrow> string" where
  "decimal n = (if n < 10 then [char_of (48 + n)] else decimal (n div 10) @ [char_of (48 + n mod 10)])"

fun in_base :: "nat \<Rightarrow> nat \<Rightarrow> string" where
  "in_base b n = (if n < b \<or> b < 2 then [''0123456789abcdef'' ! (n mod 16)] else in_base b (n div b) @ [''0123456789abcdef'' ! (n mod b mod 16)])"

declare in_base.simps [simp del]

definition from_decimal :: "string \<Rightarrow> nat" where
  "from_decimal s = foldl (\<lambda>n c. 10 * n + (of_char c - 48)) 0 s"

definition std_string :: qstring_ops where
  "std_string = \<lparr>qs_split = split_bar, qs_arg = replace_marker,
     qs_argInt = (\<lambda>s n w b c. replace_marker s (replicate (nat w - length (in_base (nat b) (nat n))) c @ in_base (nat b) (nat n))),
     qs_number = (\<lambda>i. if i < 0 then CHR 0x2D # decimal (nat (- i)) else decimal (nat i)),
     qs_toInt = (\<lambda>s. case s of c # r \<Rightarrow> if c = CHR 0x2D then - int (from_decimal r) else int (from_decimal s) | [] \<Rightarrow> 0)\<rparr>"

declare decimal.simps [simp del]

lemma from_decimal_decimal: "from_decimal (decimal n) = n"
proof (induction n rule: decimal.induct)
  case (1 n)
  then show ?case
    by (subst decimal.simps) (simp add: from_decimal_def)
qed

lemma decimal_digits: "c \<in> set (decimal n) \<Longrightarrow> \<exists>k < 10. c = char_of (48 + k :: nat)"
proof (induction n rule: decimal.induct)
  case (1 n)
  show ?case
  proof (cases "n < 10")
    case True
    then show ?thesis using 1(2) by (auto simp: decimal.simps [of n])
  next
    case False
    then have "c \<in> set (decimal (n div 10)) \<or> c = char_of (48 + n mod 10)" using 1(2) by (auto simp: decimal.simps [of n])
    then show ?thesis using 1(1) [OF False] by (auto intro: exI [of _ "n mod 10"])
  qed
qed

lemma digit_neq: "k < 10 \<Longrightarrow> char_of (48 + k :: nat) \<noteq> c" if "of_char c < (48 :: nat) \<or> 57 < (of_char c :: nat)"
proof
  assume k: "k < 10" and "char_of (48 + k :: nat) = c"
  then have "(of_char c :: nat) = (48 + k) mod 256" by (metis of_char_of)
  then show False using that k by simp
qed

lemma decimal_no: "of_char c < (48 :: nat) \<or> 57 < (of_char c :: nat) \<Longrightarrow> c \<notin> set (decimal n)"
  using decimal_digits digit_neq by blast

lemma decimal_nonempty: "decimal n \<noteq> []"
  by (subst decimal.simps) simp

lemma split_bar_nonempty: "split_bar s \<noteq> []"
  by (induction s) (auto split: list.split)

lemma split_bar_plain: "CHR 0x7C \<notin> set s \<Longrightarrow> split_bar s = [s]"
  by (induction s) auto

lemma split_bar_append: "CHR 0x7C \<notin> set s \<Longrightarrow> split_bar (s @ CHR 0x7C # t) = s # split_bar t"
  by (induction s) auto

lemma split_bar_parts: "a \<in> set (split_bar s) \<Longrightarrow> CHR 0x7C \<notin> set a"
  by (induction s arbitrary: a) (auto split: list.splits if_splits)

lemma replace_marker_at:
  assumes "CHR 0x25 \<notin> set p" "d \<in> set ''123456789''"
  shows "replace_marker (p @ CHR 0x25 # d # s) a = p @ a @ s"
  using assms(1)
proof (induction p)
  case Nil
  then show ?case using assms(2) by simp
next
  case (Cons c p)
  then show ?case by (cases p) auto
qed

interpretation std_string: qstring std_string
proof unfold_locales
  fix a b c
  assume "CHR ''|'' \<notin> set a" "CHR ''|'' \<notin> set b" "CHR ''|'' \<notin> set c"
  then show "qs_split std_string (a @ ''|'' @ b @ ''|'' @ c) = [a, b, c]"
    by (simp add: std_string_def split_bar_append split_bar_plain)
next
  fix a s
  assume "a \<in> set (qs_split std_string s)"
  then show "CHR ''|'' \<notin> set a" by (simp add: std_string_def split_bar_parts)
next
  fix a
  show "qs_arg std_string ''%1|%2|%3'' a = a @ ''|%2|%3''" "qs_arg std_string ''%1:%2'' a = a @ '':%2''"
    by (simp_all add: std_string_def)
next
  fix p a
  assume "CHR ''%'' \<notin> set p"
  then show "qs_arg std_string (p @ ''%2|%3'') a = p @ a @ ''|%3''" "qs_arg std_string (p @ ''%2'') a = p @ a"
    "qs_arg std_string (p @ ''%3'') a = p @ a"
    by (simp_all add: std_string_def replace_marker_at)
next
  fix i :: int
  obtain c r where d: "decimal (nat i) = c # r" using decimal_nonempty by (cases "decimal (nat i)") auto
  then have "c \<noteq> CHR 0x2D" using decimal_no [of "CHR 0x2D" "nat i"] by auto
  moreover have "from_decimal (c # r) = nat i" using from_decimal_decimal [of "nat i"] d by simp
  ultimately show "qs_toInt std_string (qs_number std_string i) = i" using d by (simp add: std_string_def from_decimal_decimal)
  show "CHR ''|'' \<notin> set (qs_number std_string i)" "CHR ''%'' \<notin> set (qs_number std_string i)"
    by (auto simp: std_string_def decimal_no)
qed

theorem domains_survive_restart_witness:
  "domains_open std_string (controller_new std_client 0 (cl_settings (domains_accept std_string std_client
      [domain_new, \<lparr>lr_name = ''b'', lr_combo = 2, lr_desc = ''x''\<rparr>] fresh_client))) =
    Some [domain_new, \<lparr>lr_name = ''b'', lr_combo = 2, lr_desc = ''x''\<rparr>]"
proof -
  let ?rows = "[domain_new, \<lparr>lr_name = ''b'', lr_combo = 2, lr_desc = ''x''\<rparr>]"
  have "settings_file (ce_settings std_client)" using std_file.settings_file_axioms by (simp add: std_client_def)
  moreover have "\<forall>r \<in> set ?rows. row_ok r" by (simp add: row_ok_def domain_new_def)
  moreover have "map (row_entry std_string) ?rows \<noteq> cp_domains (cl_p fresh_client)" using fresh_config by (simp add: config_of_def)
  ultimately show ?thesis by (rule domains_survive_restart [OF std_string.qstring_axioms])
qed


theorem servers_round_witness:
  "cp_server (cl_p (servers_accept std_string std_client [server_new std_string, \<lparr>sv_ip = ''10.0.0.1'', sv_port = ''80'', sv_desc = [], sv_checked = True\<rparr>]
      fresh_client)) = ''10.0.0.1:80''"
proof -
  let ?r = "\<lparr>sv_ip = ''10.0.0.1'', sv_port = ''80'', sv_desc = [], sv_checked = True\<rparr>"
  have st: "settings_file (ce_settings std_client)" using std_file.settings_file_axioms by (simp add: std_client_def)
  have e: "endpoint std_string ?r = ''10.0.0.1:80''" by (simp add: endpoint_def std_string_def)
  have n: "qs_number std_string 80 = ''80''" "qs_number std_string 48888 = ''48888''"
    by (simp_all add: std_string_def decimal.simps char_of_def bit_0)
  have "endpoint std_string (server_new std_string) = ''127.0.0.1:48888''"
    unfolding server_new_def n by (simp add: endpoint_def std_string_def)
  then have others: "\<forall>r' \<in> set ([server_new std_string] @ []). \<not> sv_checked r' \<and> endpoint std_string r' \<noteq> endpoint std_string ?r"
    using e by (simp add: server_new_def)
  have ports: "\<forall>r' \<in> set [server_new std_string, ?r]. \<exists>p. 0 \<le> p \<and> p < 2 ^ 16 \<and> sv_port r' = qs_number std_string p"
    using n by (auto simp: server_new_def intro: exI [of _ 48888] exI [of _ 80])
  show ?thesis using servers_round [OF std_string.qstring_axioms st _ _ others ports, of fresh_client] e by simp
qed

theorem capture_selects_witness:
  "\<exists>node v1 v2. CreateTree std_string 0x10 ([], []) (replicate 20 7) std_widget = Some (node, v1) \<and>
    treeWidget_itemClicked node v1 = Some v2 \<and> length (fst (selectedBytes (memory_ops std_qt) (vw_document v2))) = 15"
  using capture_selects [OF std.qbytearray_axioms, of "replicate 20 7" std_string "0x10" "([], [])" std_widget] by fastforce

end
