(* ===== verification/Capture_Window.thy ===== *)
theory Capture_Window
  imports Client_Dialogs
begin

text \<open>
  The main window and the capture dialog while the client runs (\<open>client/MainWindow.cpp\<close>, \<open>CaptureDialog.cpp\<close> and the
  sockets of \<open>Controller.cpp\<close>): the table of captured packets, and the life of the dialog against the signals of the
  controller.

  The dialog is modal: while it is shown the actions of the main window do nothing. Its slot for captured packets is a
  lambda that is connected without the dialog as its context, so the connection outlives the dialog; a packet
  that reaches the slot of a dialog that is gone is \<open>None\<close>, as are the faults of the dialog's own operations.

  The theorems: the table holds the packets signalled since the dialog was opened, a click shows the packet of its
  row, the client captures only while the dialog is shown, and the first packet after it was closed is a fault.
\<close>

section \<open>The table of packets\<close>

text \<open>A row: the time, with the packet as its data, and the other four columns, whose functions are empty in the source.\<close>

record packet_row =
  pk_time :: string
  pk_data :: "byte list"
  pk_cells :: "string list"

definition GetAddress :: "byte list \<Rightarrow> string" where "GetAddress data = ''''"
definition GetProtocol :: "byte list \<Rightarrow> string" where "GetProtocol data = ''''"
definition GetLength :: "byte list \<Rightarrow> string" where "GetLength data = ''''"
definition GetDescription :: "byte list \<Rightarrow> string" where "GetDescription data = ''''"

definition packet_row_new :: "string \<Rightarrow> byte list \<Rightarrow> packet_row" where
  "packet_row_new now data = \<lparr>pk_time = now, pk_data = data, pk_cells = [GetAddress data, GetProtocol data, GetLength data, GetDescription data]\<rparr>"

text \<open>The dialog: its table, its tree, the hex view, whether the settings can be edited and the text of the button.\<close>

datatype capture_label = Label_start | Label_stop

record ('t, 'c) capture_dialog =
  cd_rows :: "packet_row list"
  cd_tree :: "tree_node list"
  cd_hex :: "(byte list, 't, 'c) hexview"
  cd_enabled :: bool
  cd_button :: capture_label

definition dialog_captureItem :: "string \<Rightarrow> byte list \<Rightarrow> ('t, 'c) capture_dialog \<Rightarrow> ('t, 'c) capture_dialog" where
  "dialog_captureItem now data d = d\<lparr>cd_rows := cd_rows d @ [packet_row_new now data]\<rparr>"

text \<open>The constructor puts a row of 87 digits into the table; \<open>v\<close> is the hex view that \<open>setupUi\<close> made.\<close>

definition sample_packet :: "byte list" where "sample_packet = replicate 87 0x31"

definition dialog_new :: "string \<Rightarrow> (byte list, 't, 'c) hexview \<Rightarrow> ('t, 'c) capture_dialog" where
  "dialog_new now v = dialog_captureItem now sample_packet
     \<lparr>cd_rows = [], cd_tree = [], cd_hex = setReadOnly True v, cd_enabled = True, cd_button = Label_start\<rparr>"

definition pushButton_clicked :: "'s client_env \<Rightarrow> string \<Rightarrow> ('a, 's) client \<Rightarrow> ('t, 'c) capture_dialog \<Rightarrow>
    ('a, 's) client \<times> ('t, 'c) capture_dialog" where
  "pushButton_clicked env line_text c d =
     (if cp_isCapture (cl_p c) then (capture_clicked env line_text c, d\<lparr>cd_enabled := True, cd_button := Label_start\<rparr>)
      else (capture_clicked env line_text c, d\<lparr>cd_enabled := False, cd_button := Label_stop\<rparr>))"

definition tableWidget_cellClicked :: "qstring_ops \<Rightarrow> u8 \<Rightarrow> 't \<Rightarrow> nat \<Rightarrow> ('t, 'c) capture_dialog \<Rightarrow> ('t, 'c) capture_dialog option" where
  "tableWidget_cellClicked qs w t row d =
     (if row < length (cd_rows d) then do {
        (node, v) \<leftarrow> CreateTree qs w t (pk_data (cd_rows d ! row)) (cd_hex d);
        Some (d\<lparr>cd_tree := [node], cd_hex := v\<rparr>)
      } else Some d)"

definition dialog_itemClicked :: "nat \<Rightarrow> ('t, 'c) capture_dialog \<Rightarrow> ('t, 'c) capture_dialog option" where
  "dialog_itemClicked i d =
     (if i < length (cd_tree d) then map_option (\<lambda>v. d\<lparr>cd_hex := v\<rparr>) (treeWidget_itemClicked (cd_tree d ! i) (cd_hex d)) else Some d)"

section \<open>The windows and the controller\<close>

record ('a, 's, 't, 'c) windows =
  ws_client :: "('a, 's) client"
  ws_dialog :: "('t, 'c) capture_dialog option"
  ws_gone :: nat

text \<open>What surrounds the windows: strings, settings, the uninitialised line width, a new undo stack and a new hex view.\<close>

record ('s, 't, 'c) window_env =
  we_strings :: qstring_ops
  we_client :: "'s client_env"
  we_width :: u8
  we_stack :: 't
  we_view :: "(byte list, 't, 'c) hexview"

text \<open>Actions and the event filter of the main window, what the user does in the dialog, and datagrams.\<close>

datatype window_event =
    Action_start | Action_stop | Filtered bool bool | Action_capture string
  | Button string | Row_clicked nat | Node_clicked nat | Dialog_closed
  | Config_packet "byte list" | Captured_packet string "byte list"

text \<open>The slots connected to \<open>captureItem\<close> run in the order of connection: those of former dialogs first.\<close>

definition emit_captureItem :: "string \<Rightarrow> byte list \<Rightarrow> ('a, 's, 't, 'c) windows \<Rightarrow> ('a, 's, 't, 'c) windows option" where
  "emit_captureItem now data w =
     (if 0 < ws_gone w then None else Some (w\<lparr>ws_dialog := map_option (dialog_captureItem now data) (ws_dialog w)\<rparr>))"

definition on_dialog :: "(('t, 'c) capture_dialog \<Rightarrow> ('t, 'c) capture_dialog option) \<Rightarrow> ('a, 's, 't, 'c) windows \<Rightarrow> ('a, 's, 't, 'c) windows option" where
  "on_dialog f w = (case ws_dialog w of None \<Rightarrow> Some w | Some d \<Rightarrow> map_option (\<lambda>d. w\<lparr>ws_dialog := Some d\<rparr>) (f d))"

definition main_action :: "(('a, 's) client \<Rightarrow> ('a, 's) client) \<Rightarrow> ('a, 's, 't, 'c) windows \<Rightarrow> ('a, 's, 't, 'c) windows" where
  "main_action f w = (if ws_dialog w = None then w\<lparr>ws_client := f (ws_client w)\<rparr> else w)"

fun windows_step :: "('s, 't, 'c) window_env \<Rightarrow> window_event \<Rightarrow> ('a, 's, 't, 'c) windows \<Rightarrow> ('a, 's, 't, 'c) windows option" where
  "windows_step env Action_start w = Some (main_action (StartService (we_client env)) w)"
| "windows_step env Action_stop w = Some (main_action (StopService (we_client env)) w)"
| "windows_step env (Filtered label release) w =
     Some (if label \<and> release then main_action (labelConnect_clicked (we_client env)) w else w)"
| "windows_step env (Action_capture now) w =
     Some (if ws_dialog w = None then w\<lparr>ws_dialog := Some (dialog_new now (we_view env))\<rparr> else w)"
| "windows_step env (Button line_text) w =
     Some (case ws_dialog w of None \<Rightarrow> w
       | Some d \<Rightarrow> (case pushButton_clicked (we_client env) line_text (ws_client w) d of (c, d) \<Rightarrow> w\<lparr>ws_client := c, ws_dialog := Some d\<rparr>))"
| "windows_step env (Row_clicked row) w = on_dialog (tableWidget_cellClicked (we_strings env) (we_width env) (we_stack env) row) w"
| "windows_step env (Node_clicked i) w = on_dialog (dialog_itemClicked i) w"
| "windows_step env Dialog_closed w =
     Some (case ws_dialog w of None \<Rightarrow> w
       | Some d \<Rightarrow> w\<lparr>ws_client := capture_closeEvent (ws_client w), ws_dialog := None, ws_gone := Suc (ws_gone w)\<rparr>)"
| "windows_step env (Config_packet buf) w = Some (w\<lparr>ws_client := configDatagram (we_client env) buf (ws_client w)\<rparr>)"
| "windows_step env (Captured_packet now data) w =
     emit_captureItem now data (w\<lparr>ws_client := captureDatagram data (ws_client w)\<rparr>)"

fun windows_run :: "('s, 't, 'c) window_env \<Rightarrow> window_event list \<Rightarrow> ('a, 's, 't, 'c) windows \<Rightarrow> ('a, 's, 't, 'c) windows option" where
  "windows_run env [] w = Some w"
| "windows_run env (e # es) w = windows_step env e w \<bind> windows_run env es"

definition windows_new :: "('s, 't, 'c) window_env \<Rightarrow> 'a \<Rightarrow> 's \<Rightarrow> ('a, 's, 't, 'c) windows" where
  "windows_new env null s = \<lparr>ws_client = controller_new (we_client env) null s, ws_dialog = None, ws_gone = 0\<rparr>"

lemma windows_run_append: "windows_run env (es @ es') w = windows_run env es w \<bind> windows_run env es'"
  by (induction es arbitrary: w) (auto split: bind_splits)

section \<open>What the operations keep\<close>

definition captured :: "('a, 's) client \<Rightarrow> byte list list" where
  "captured c = List.map_filter (\<lambda>e. case e of CaptureItem data \<Rightarrow> Some data | _ \<Rightarrow> None) (cl_events c)"

fun arrivals :: "window_event list \<Rightarrow> byte list list" where
  "arrivals [] = []"
| "arrivals (Captured_packet now data # es) = data # arrivals es"
| "arrivals (e # es) = arrivals es"

lemmas client_unfolds = StartService_def StopService_def labelConnect_clicked_def send_config_def send_def client_emit_def on_p_def
  configDatagram_def ReadConfig_def read_json_def read_settings_def WriteConfig_def capture_clicked_def StartCapture_def
  StopCapture_def capture_closeEvent_def captureDatagram_def captured_def

lemma service_keeps [simp]:
  "cp_isCapture (cl_p (StartService ce c)) = cp_isCapture (cl_p c)" "captured (StartService ce c) = captured c"
  "cp_isCapture (cl_p (StopService ce c)) = cp_isCapture (cl_p c)" "captured (StopService ce c) = captured c"
  "cp_isCapture (cl_p (labelConnect_clicked ce c)) = cp_isCapture (cl_p c)" "captured (labelConnect_clicked ce c) = captured c"
  "cp_isCapture (cl_p (configDatagram ce buf c)) = cp_isCapture (cl_p c)" "captured (configDatagram ce buf c) = captured c"
  by (simp_all add: client_unfolds Let_def List.map_filter_def)

lemma capture_changes [simp]:
  "cp_isCapture (cl_p (capture_clicked ce line c)) = (\<not> cp_isCapture (cl_p c))" "captured (capture_clicked ce line c) = captured c"
  "\<not> cp_isCapture (cl_p (capture_closeEvent c))" "captured (capture_closeEvent c) = captured c"
  "cp_isCapture (cl_p (captureDatagram data c)) = cp_isCapture (cl_p c)" "captured (captureDatagram data c) = captured c @ [data]"
  by (simp_all add: client_unfolds Let_def List.map_filter_def)

text \<open>The state of the dialog follows the state of the capture.\<close>

definition dialog_follows :: "('a, 's, 't, 'c) windows \<Rightarrow> bool" where
  "dialog_follows w = (case ws_dialog w of None \<Rightarrow> \<not> cp_isCapture (cl_p (ws_client w))
     | Some d \<Rightarrow> cd_enabled d = (\<not> cp_isCapture (cl_p (ws_client w))) \<and> (cd_button d = Label_stop) = cp_isCapture (cl_p (ws_client w)))"

lemma dialog_ops_keep:
  "tableWidget_cellClicked qs width t row d = Some d' \<Longrightarrow> cd_enabled d' = cd_enabled d \<and> cd_button d' = cd_button d \<and> cd_rows d' = cd_rows d"
  "dialog_itemClicked i d = Some d' \<Longrightarrow> cd_enabled d' = cd_enabled d \<and> cd_button d' = cd_button d \<and> cd_rows d' = cd_rows d"
  by (auto simp: tableWidget_cellClicked_def dialog_itemClicked_def split: bind_splits if_splits)

lemma on_dialog_cases:
  assumes "on_dialog f w = Some w'"
  obtains "ws_dialog w = None" "w' = w" | d d' where "ws_dialog w = Some d" "f d = Some d'" "w' = w\<lparr>ws_dialog := Some d'\<rparr>"
  using assms by (auto simp: on_dialog_def split: option.splits)

lemma step_follows: "windows_step env e w = Some w' \<Longrightarrow> dialog_follows w \<Longrightarrow> dialog_follows w'"
proof (cases e)
  case (Row_clicked row)
  assume "windows_step env e w = Some w'" "dialog_follows w"
  then show ?thesis unfolding Row_clicked
    by (auto simp: dialog_follows_def dest!: dialog_ops_keep(1) elim!: on_dialog_cases)
next
  case (Node_clicked i)
  assume "windows_step env e w = Some w'" "dialog_follows w"
  then show ?thesis unfolding Node_clicked
    by (auto simp: dialog_follows_def dest!: dialog_ops_keep(2) elim!: on_dialog_cases)
qed (auto simp: dialog_follows_def main_action_def pushButton_clicked_def emit_captureItem_def dialog_new_def dialog_captureItem_def
    split: option.splits if_splits)

lemma step_gone: "windows_step env e w = Some w' \<Longrightarrow> ws_gone w \<le> ws_gone w'"
  by (cases e) (auto simp: main_action_def emit_captureItem_def split: option.splits prod.splits if_splits elim!: on_dialog_cases)

lemma step_gone_same: "windows_step env e w = Some w' \<Longrightarrow> e \<noteq> Dialog_closed \<Longrightarrow> ws_gone w' = ws_gone w"
  by (cases e) (auto simp: main_action_def emit_captureItem_def split: option.splits prod.splits if_splits elim!: on_dialog_cases)

lemma run_gone_same: "windows_run env es w = Some w' \<Longrightarrow> Dialog_closed \<notin> set es \<Longrightarrow> ws_gone w' = ws_gone w"
  by (induction es arbitrary: w) (auto split: bind_splits dest: step_gone_same)

lemma run_gone: "windows_run env es w = Some w' \<Longrightarrow> ws_gone w \<le> ws_gone w'"
  by (induction es arbitrary: w) (auto split: bind_splits dest!: step_gone intro: le_trans)

text \<open>While the dialog is shown and not closed, each packet becomes the last row.\<close>

lemma step_rows:
  assumes "windows_step env e w = Some w'" "ws_dialog w = Some d" "e \<noteq> Dialog_closed"
  shows "\<exists>d'. ws_dialog w' = Some d' \<and> map pk_data (cd_rows d') = map pk_data (cd_rows d) @ arrivals [e] \<and>
    captured (ws_client w') = captured (ws_client w) @ arrivals [e] \<and> ws_gone w' = ws_gone w"
proof (cases e)
  case (Row_clicked row)
  with assms show ?thesis by (auto dest!: dialog_ops_keep(1) elim!: on_dialog_cases)
next
  case (Node_clicked i)
  with assms show ?thesis by (auto dest!: dialog_ops_keep(2) elim!: on_dialog_cases)
qed (use assms in \<open>auto simp: main_action_def pushButton_clicked_def emit_captureItem_def dialog_captureItem_def packet_row_new_def
    split: if_splits\<close>)

lemma arrivals_Cons: "arrivals (e # es) = arrivals [e] @ arrivals es" by (cases e) simp_all

lemma run_rows:
  assumes "windows_run env es w = Some w'" "ws_dialog w = Some d" "Dialog_closed \<notin> set es"
  shows "\<exists>d'. ws_dialog w' = Some d' \<and> map pk_data (cd_rows d') = map pk_data (cd_rows d) @ arrivals es \<and>
    captured (ws_client w') = captured (ws_client w) @ arrivals es"
  using assms
proof (induction es arbitrary: w d)
  case (Cons e es)
  obtain w1 where w1: "windows_step env e w = Some w1" "windows_run env es w1 = Some w'" using Cons.prems(1) by (auto split: bind_splits)
  show ?case using step_rows [OF w1(1) Cons.prems(2)] Cons.IH [OF w1(2)] Cons.prems(3) arrivals_Cons [of e es] by fastforce
qed auto

lemma CreateTree_shows:
  assumes "14 \<le> length data"
  shows "\<exists>node v'. CreateTree qs width t data (v :: (byte list, 't, 'c) hexview) = Some (node, v') \<and>
    doc_buffer (vw_document v') = data \<and> tn_text node = eth_text qs (take 6 (drop 6 data)) (take 6 data)"
proof -
  obtain m :: "'c qhexmetadata" where m: "metadata_setLineWidth 0x10 (metadata_new width) = Some m" using new_effect by blast
  have "bytes_at data 6 6 = Some (take 6 (drop 6 data))" "bytes_at data 0 6 = Some (take 6 data)"
    using assms by (simp_all add: bytes_at_Some)
  then show ?thesis by (simp add: CreateTree_def document_new_def m CreateEth_def setDocument_def)
qed

section \<open>Properties\<close>

text \<open>The client captures only while the dialog is shown, and the button and the settings of the dialog follow the capture.\<close>

theorem capture_while_shown:
  assumes "windows_run env es (windows_new env null s) = Some w"
  shows "cp_isCapture (cl_p (ws_client w)) \<Longrightarrow> \<exists>d. ws_dialog w = Some d \<and> \<not> cd_enabled d \<and> cd_button d = Label_stop"
    and "\<not> cp_isCapture (cl_p (ws_client w)) \<Longrightarrow> ws_dialog w = Some d \<Longrightarrow> cd_enabled d \<and> cd_button d = Label_start"
proof -
  have keep: "dialog_follows v \<Longrightarrow> windows_run env es v = Some w \<Longrightarrow> dialog_follows w" for v
    by (induction es arbitrary: v) (auto split: bind_splits dest: step_follows)
  have "dialog_follows (windows_new env null s)"
    by (simp add: dialog_follows_def windows_new_def controller_new_def private_new_def client_unfolds Let_def)
  from keep [OF this assms] show "cp_isCapture (cl_p (ws_client w)) \<Longrightarrow> \<exists>d. ws_dialog w = Some d \<and> \<not> cd_enabled d \<and> cd_button d = Label_stop"
    "\<not> cp_isCapture (cl_p (ws_client w)) \<Longrightarrow> ws_dialog w = Some d \<Longrightarrow> cd_enabled d \<and> cd_button d = Label_start"
    by (cases "cd_button d"; auto simp: dialog_follows_def split: option.splits)+
qed


text \<open>A closed dialog is still connected. Once a capture dialog has been shown and closed, the next captured packet
calls a slot of the dialog that is gone, whatever happens in between.\<close>

theorem closed_dialog_called:
  assumes "ws_dialog w = Some d"
  shows "windows_run env (Dialog_closed # es @ [Captured_packet now data]) w = None"
proof -
  let ?w = "w\<lparr>ws_client := capture_closeEvent (ws_client w), ws_dialog := None, ws_gone := Suc (ws_gone w)\<rparr>"
  have "windows_run env (es @ [Captured_packet now data]) ?w = None"
    using run_gone [of env es ?w] by (auto simp: windows_run_append emit_captureItem_def split: bind_splits)
  then show ?thesis using assms by simp
qed

text \<open>Before the first dialog is closed no packet is a fault.\<close>

theorem packet_before_close:
  assumes "windows_run env es (windows_new env null s) = Some w" "Dialog_closed \<notin> set es"
  shows "\<exists>w'. windows_step env (Captured_packet now data) w = Some w'"
  using run_gone_same [OF assms] by (simp add: emit_captureItem_def windows_new_def)

section \<open>Instances\<close>

definition std_windows :: "(setting_key \<Rightarrow> variant option, hex_command list \<times> hex_command list, nat) window_env" where
  "std_windows = \<lparr>we_strings = std_string, we_client = std_client, we_width = 0x10, we_stack = ([], []), we_view = std_widget\<rparr>"


end
