(* ===== verification/Protocol_Layout.thy ===== *)
theory Protocol_Layout
  imports Task_Dispatch
begin

text \<open>
  The structures of \<open>common/common.h\<close> in memory: the headers of the protocols as the C compiler lays them out.

  The layout is that of the little-endian System V ABI, as in \<open>Task_Dispatch\<close>: fields in order at their natural
  alignment, bit fields from the low bits of their unit on. A structure is read from the first bytes of a list
  (\<open>None\<close> when they are too few) and written as its bytes. Multi-byte fields are the values a load finds; the code
  converts them with \<open>ntohs\<close> where it needs to.

  The locale \<open>c_struct\<close> is what a structure is relied on for: reading and writing are inverse, over exactly
  \<open>sizeof\<close> bytes. It is interpreted for every structure. The theorems: where the fields of the standard headers end up
  in these structures, and that the dispatch of packets to tasks reads exactly these fields.
\<close>

section \<open>Loads and stores\<close>

definition le16 :: "byte \<Rightarrow> byte \<Rightarrow> u16" where
  "le16 a b = ucast a OR push_bit 8 (ucast b)"

definition le32 :: "byte \<Rightarrow> byte \<Rightarrow> byte \<Rightarrow> byte \<Rightarrow> u32" where
  "le32 a b c d = ucast a OR push_bit 8 (ucast b) OR push_bit 16 (ucast c) OR push_bit 24 (ucast d)"

definition u16_at :: "byte list \<Rightarrow> nat \<Rightarrow> u16 option" where
  "u16_at bs off = do { a \<leftarrow> byte_at bs off; b \<leftarrow> byte_at bs (off + 1); Some (le16 a b) }"

definition u32_at :: "byte list \<Rightarrow> nat \<Rightarrow> u32 option" where
  "u32_at bs off = do {
     a \<leftarrow> byte_at bs off; b \<leftarrow> byte_at bs (off + 1); c \<leftarrow> byte_at bs (off + 2); d \<leftarrow> byte_at bs (off + 3);
     Some (le32 a b c d)
   }"

named_theorems layout "loads and stores of the fields of a structure"

lemma byte_no_bit [simp]: "8 \<le> n \<Longrightarrow> \<not> bit (b :: byte) n"
  using bit_imp_le_length by force

lemma nibble_no_bit [simp]: "4 \<le> n \<Longrightarrow> \<not> bit (x :: 4 word) n"
  using bit_imp_le_length by force

lemma le16_round [layout]: "le16 (ucast w) (ucast (drop_bit 8 w)) = w"
  by (rule bit_eqI) (auto simp: le16_def bit_simps)

lemma le16_bytes_round [layout]: "le16_bytes (le16 a b) = [a, b]"
  by (auto simp: le16_bytes_def le16_def bit_simps intro!: bit_eqI)

lemma le32_round [layout]: "le32 (ucast w) (ucast (drop_bit 8 w)) (ucast (drop_bit 16 w)) (ucast (drop_bit 24 w)) = w"
proof (rule bit_eqI)
  fix n assume "possible_bit TYPE(32 word) n"
  then consider "n < 8" | "8 \<le> n" "n < 16" | "16 \<le> n" "n < 24" | "24 \<le> n" "n < 32" by force
  then show "bit (le32 (ucast w) (ucast (drop_bit 8 w)) (ucast (drop_bit 16 w)) (ucast (drop_bit 24 w))) n = bit w n"
    by cases (auto simp: le32_def bit_simps)
qed

lemma le32_bytes_round [layout]: "le32_bytes (le32 a b c d) = [a, b, c, d]"
  by (auto simp: le32_bytes_def le32_def bit_simps intro!: bit_eqI)

text \<open>Two fields of four bits in a byte.\<close>

definition nibbles :: "4 word \<Rightarrow> 4 word \<Rightarrow> byte" where
  "nibbles lo hi = ucast lo OR push_bit 4 (ucast hi)"

lemma nibbles_round [layout]:
  "(ucast (nibbles lo hi) :: 4 word) = lo" "(ucast (drop_bit 4 (nibbles lo hi)) :: 4 word) = hi"
  "nibbles (ucast b) (ucast (drop_bit 4 b)) = b"
  by (auto simp: nibbles_def bit_simps intro!: bit_eqI)

text \<open>A structure from explicit bytes, and the first bytes of a list one by one.\<close>

lemma u16_at_Some: "off + 1 < length bs \<Longrightarrow> u16_at bs off = Some (le16 (bs ! off) (bs ! (off + 1)))"
  by (simp add: u16_at_def byte_at_def)

lemma u32_at_Some:
  "off + 3 < length bs \<Longrightarrow> u32_at bs off = Some (le32 (bs ! off) (bs ! (off + 1)) (bs ! (off + 2)) (bs ! (off + 3)))"
  by (simp add: u32_at_def byte_at_def)

section \<open>What a structure is\<close>

locale c_struct =
  fixes size_of :: nat and load :: "byte list \<Rightarrow> 'a option" and store :: "'a \<Rightarrow> byte list" and fits :: "'a \<Rightarrow> bool"
  assumes load_store: "fits x \<Longrightarrow> load (store x @ rest) = Some x"
    and store_load: "load bs = Some x \<Longrightarrow> store x = take size_of bs"
    and load_fits: "load bs = Some x \<Longrightarrow> fits x"
    and load_defined: "load bs \<noteq> None \<longleftrightarrow> size_of \<le> length bs"
begin

lemma store_length: "fits x \<Longrightarrow> length (store x) = size_of"
proof -
  assume x: "fits x"
  then have "load (store x) = Some x" using load_store [of x "[]"] by simp
  then have "store x = take size_of (store x)" "size_of \<le> length (store x)"
    using store_load [of "store x" x] load_defined [of "store x"] by simp_all
  then show ?thesis by (metis length_take min.absorb2)
qed

text \<open>Only the first \<open>sizeof\<close> bytes matter, and they are the value.\<close>

lemma load_iff: "load bs = Some x \<longleftrightarrow> fits x \<and> size_of \<le> length bs \<and> take size_of bs = store x"
proof
  assume "load bs = Some x"
  then show "fits x \<and> size_of \<le> length bs \<and> take size_of bs = store x"
    using load_fits store_load load_defined [of bs] by auto
next
  assume x: "fits x \<and> size_of \<le> length bs \<and> take size_of bs = store x"
  then have "bs = store x @ drop size_of bs" by (metis append_take_drop_id)
  then show "load bs = Some x" using load_store [of x "drop size_of bs"] x by simp
qed

lemma load_take:
  assumes "size_of \<le> length bs"
  shows "load (take size_of bs) = load bs"
proof -
  obtain x where "load bs = Some x" using load_defined assms by blast
  moreover from this have "fits x" "take size_of bs = store x" unfolding load_iff by simp_all
  then have "load (take size_of bs) = Some x" using load_store [of x "[]"] by simp
  ultimately show ?thesis by simp
qed

lemma store_inject: "fits x \<Longrightarrow> fits y \<Longrightarrow> store x = store y \<Longrightarrow> x = y"
  using load_store [of x "[]"] load_store [of y "[]"] by simp

end

section \<open>Commands\<close>

text \<open>The enumeration \<open>command\<close>: its constants are numbered from zero in the order they are declared, and compare by
their numbers.\<close>

datatype command = DROP | QUEUE | RESET | ACCEPT | SERVER

fun command_number :: "command \<Rightarrow> nat" where
  "command_number DROP = 0"
| "command_number QUEUE = 1"
| "command_number RESET = 2"
| "command_number ACCEPT = 3"
| "command_number SERVER = 4"

lemma command_number_inject: "command_number a = command_number b \<Longrightarrow> a = b"
  by (cases a; cases b) simp_all

instantiation command :: linorder
begin

definition less_eq_command :: "command \<Rightarrow> command \<Rightarrow> bool" where "a \<le> b \<longleftrightarrow> command_number a \<le> command_number b"

definition less_command :: "command \<Rightarrow> command \<Rightarrow> bool" where "a < b \<longleftrightarrow> command_number a < command_number b"

instance
  by standard (auto simp: less_eq_command_def less_command_def command_number_inject)

end

section \<open>Addresses and Ethernet\<close>

text \<open>The union \<open>ipv6_addr\<close> is its 16 bytes; its three members are views of them.\<close>

definition addr8 :: "byte list \<Rightarrow> nat \<Rightarrow> byte option" where "addr8 a i = byte_at a i"
definition addr16 :: "byte list \<Rightarrow> nat \<Rightarrow> u16 option" where "addr16 a i = u16_at a (2 * i)"
definition addr32 :: "byte list \<Rightarrow> nat \<Rightarrow> u32 option" where "addr32 a i = u32_at a (4 * i)"

text \<open>An endpoint: two bytes of padding align the union of the two addresses.\<close>

record endpoint_t =
  ep_port :: u16
  ep_padding :: u16
  ep_addr :: "byte list"

definition load_endpoint :: "byte list \<Rightarrow> endpoint_t option" where
  "load_endpoint bs = do {
     port \<leftarrow> u16_at bs 0; padding \<leftarrow> u16_at bs 2; addr \<leftarrow> bytes_at bs 4 16;
     Some \<lparr>ep_port = port, ep_padding = padding, ep_addr = addr\<rparr>
   }"

definition store_endpoint :: "endpoint_t \<Rightarrow> byte list" where
  "store_endpoint p = le16_bytes (ep_port p) @ le16_bytes (ep_padding p) @ ep_addr p"

definition endpoint_v4 :: "endpoint_t \<Rightarrow> u32 option" where "endpoint_v4 p = u32_at (ep_addr p) 0"

record protocol_eth =
  eth_dst :: "byte list"
  eth_src :: "byte list"
  eth_type :: u16

definition load_eth :: "byte list \<Rightarrow> protocol_eth option" where
  "load_eth bs = do {
     dst \<leftarrow> bytes_at bs 0 6; src \<leftarrow> bytes_at bs 6 6; type \<leftarrow> u16_at bs 12;
     Some \<lparr>eth_dst = dst, eth_src = src, eth_type = type\<rparr>
   }"

definition store_eth :: "protocol_eth \<Rightarrow> byte list" where
  "store_eth h = eth_dst h @ eth_src h @ le16_bytes (eth_type h)"

section \<open>IP\<close>

record protocol_ipv4 =
  ip4_version :: "4 word"
  ip4_ihl :: "4 word"
  ip4_tos :: u8
  ip4_tot_len :: u16
  ip4_id :: u16
  ip4_frag_off :: u16
  ip4_ttl :: u8
  ip4_protocol :: u8
  ip4_check :: u16
  ip4_saddr :: u32
  ip4_daddr :: u32

definition load_ipv4 :: "byte list \<Rightarrow> protocol_ipv4 option" where
  "load_ipv4 bs = do {
     unit \<leftarrow> byte_at bs 0; tos \<leftarrow> byte_at bs 1; tot_len \<leftarrow> u16_at bs 2; ident \<leftarrow> u16_at bs 4; frag_off \<leftarrow> u16_at bs 6;
     ttl \<leftarrow> byte_at bs 8; protocol \<leftarrow> byte_at bs 9; check \<leftarrow> u16_at bs 10; saddr \<leftarrow> u32_at bs 12; daddr \<leftarrow> u32_at bs 16;
     Some \<lparr>ip4_version = ucast unit, ip4_ihl = ucast (drop_bit 4 unit), ip4_tos = tos, ip4_tot_len = tot_len, ip4_id = ident,
       ip4_frag_off = frag_off, ip4_ttl = ttl, ip4_protocol = protocol, ip4_check = check, ip4_saddr = saddr, ip4_daddr = daddr\<rparr>
   }"

definition store_ipv4 :: "protocol_ipv4 \<Rightarrow> byte list" where
  "store_ipv4 h = [nibbles (ip4_version h) (ip4_ihl h), ip4_tos h] @ le16_bytes (ip4_tot_len h) @ le16_bytes (ip4_id h) @
     le16_bytes (ip4_frag_off h) @ [ip4_ttl h, ip4_protocol h] @ le16_bytes (ip4_check h) @ le32_bytes (ip4_saddr h) @
     le32_bytes (ip4_daddr h)"

record protocol_ipv6 =
  ip6_version :: "4 word"
  ip6_priority :: u8
  ip6_flow_lbl :: "20 word"
  ip6_payload_len :: u16
  ip6_nexthdr :: u8
  ip6_hop_limit :: u8
  ip6_saddr :: "byte list"
  ip6_daddr :: "byte list"

definition load_ipv6 :: "byte list \<Rightarrow> protocol_ipv6 option" where
  "load_ipv6 bs = do {
     unit \<leftarrow> u32_at bs 0; payload_len \<leftarrow> u16_at bs 4; nexthdr \<leftarrow> byte_at bs 6; hop_limit \<leftarrow> byte_at bs 7;
     saddr \<leftarrow> bytes_at bs 8 16; daddr \<leftarrow> bytes_at bs 24 16;
     Some \<lparr>ip6_version = ucast unit, ip6_priority = ucast (drop_bit 4 unit), ip6_flow_lbl = ucast (drop_bit 12 unit),
       ip6_payload_len = payload_len, ip6_nexthdr = nexthdr, ip6_hop_limit = hop_limit, ip6_saddr = saddr, ip6_daddr = daddr\<rparr>
   }"

definition ipv6_unit :: "protocol_ipv6 \<Rightarrow> u32" where
  "ipv6_unit h = ucast (ip6_version h) OR push_bit 4 (ucast (ip6_priority h)) OR push_bit 12 (ucast (ip6_flow_lbl h))"

definition store_ipv6 :: "protocol_ipv6 \<Rightarrow> byte list" where
  "store_ipv6 h = le32_bytes (ipv6_unit h) @ le16_bytes (ip6_payload_len h) @ [ip6_nexthdr h, ip6_hop_limit h] @ ip6_saddr h @ ip6_daddr h"

section \<open>TCP, UDP and DNS\<close>

text \<open>A one-bit field is a truth value.\<close>

record protocol_tcp =
  tcp_source :: u16
  tcp_dest :: u16
  tcp_seq :: u32
  tcp_ack_seq :: u32
  tcp_res1 :: "4 word"
  tcp_doff :: "4 word"
  tcp_fin :: bool
  tcp_syn :: bool
  tcp_rst :: bool
  tcp_psh :: bool
  tcp_ack :: bool
  tcp_urg :: bool
  tcp_res2 :: "2 word"
  tcp_window :: u16
  tcp_check :: u16
  tcp_urg_ptr :: u16

definition load_tcp :: "byte list \<Rightarrow> protocol_tcp option" where
  "load_tcp bs = do {
     source \<leftarrow> u16_at bs 0; dest \<leftarrow> u16_at bs 2; seq \<leftarrow> u32_at bs 4; ack_seq \<leftarrow> u32_at bs 8; unit \<leftarrow> u16_at bs 12;
     window \<leftarrow> u16_at bs 14; check \<leftarrow> u16_at bs 16; urg_ptr \<leftarrow> u16_at bs 18;
     Some \<lparr>tcp_source = source, tcp_dest = dest, tcp_seq = seq, tcp_ack_seq = ack_seq, tcp_res1 = ucast unit,
       tcp_doff = ucast (drop_bit 4 unit), tcp_fin = bit unit 8, tcp_syn = bit unit 9, tcp_rst = bit unit 10, tcp_psh = bit unit 11,
       tcp_ack = bit unit 12, tcp_urg = bit unit 13, tcp_res2 = ucast (drop_bit 14 unit), tcp_window = window, tcp_check = check,
       tcp_urg_ptr = urg_ptr\<rparr>
   }"

definition tcp_unit :: "protocol_tcp \<Rightarrow> u16" where
  "tcp_unit h = ucast (tcp_res1 h) OR push_bit 4 (ucast (tcp_doff h)) OR push_bit 8 (of_bool (tcp_fin h)) OR
     push_bit 9 (of_bool (tcp_syn h)) OR push_bit 10 (of_bool (tcp_rst h)) OR push_bit 11 (of_bool (tcp_psh h)) OR
     push_bit 12 (of_bool (tcp_ack h)) OR push_bit 13 (of_bool (tcp_urg h)) OR push_bit 14 (ucast (tcp_res2 h))"

definition store_tcp :: "protocol_tcp \<Rightarrow> byte list" where
  "store_tcp h = le16_bytes (tcp_source h) @ le16_bytes (tcp_dest h) @ le32_bytes (tcp_seq h) @ le32_bytes (tcp_ack_seq h) @
     le16_bytes (tcp_unit h) @ le16_bytes (tcp_window h) @ le16_bytes (tcp_check h) @ le16_bytes (tcp_urg_ptr h)"

record protocol_udp =
  udp_source :: u16
  udp_dest :: u16
  udp_len :: u16
  udp_check :: u16

definition load_udp :: "byte list \<Rightarrow> protocol_udp option" where
  "load_udp bs = do {
     source \<leftarrow> u16_at bs 0; dest \<leftarrow> u16_at bs 2; len \<leftarrow> u16_at bs 4; check \<leftarrow> u16_at bs 6;
     Some \<lparr>udp_source = source, udp_dest = dest, udp_len = len, udp_check = check\<rparr>
   }"

definition store_udp :: "protocol_udp \<Rightarrow> byte list" where
  "store_udp h = le16_bytes (udp_source h) @ le16_bytes (udp_dest h) @ le16_bytes (udp_len h) @ le16_bytes (udp_check h)"

record protocol_dns =
  dns_tid :: u16
  dns_flags :: u16
  dns_qdcount :: u16
  dns_ancount :: u16
  dns_nscount :: u16
  dns_arcount :: u16

definition load_dns :: "byte list \<Rightarrow> protocol_dns option" where
  "load_dns bs = do {
     tid \<leftarrow> u16_at bs 0; flags \<leftarrow> u16_at bs 2; qdcount \<leftarrow> u16_at bs 4; ancount \<leftarrow> u16_at bs 6; nscount \<leftarrow> u16_at bs 8;
     arcount \<leftarrow> u16_at bs 10;
     Some \<lparr>dns_tid = tid, dns_flags = flags, dns_qdcount = qdcount, dns_ancount = ancount, dns_nscount = nscount, dns_arcount = arcount\<rparr>
   }"

definition store_dns :: "protocol_dns \<Rightarrow> byte list" where
  "store_dns h = le16_bytes (dns_tid h) @ le16_bytes (dns_flags h) @ le16_bytes (dns_qdcount h) @ le16_bytes (dns_ancount h) @
     le16_bytes (dns_nscount h) @ le16_bytes (dns_arcount h)"

section \<open>Every structure is read and written back\<close>

lemma take_nths: "n \<le> length bs \<Longrightarrow> take n bs = map ((!) bs) [0..<n]"
  by (rule nth_equalityI) simp_all

lemma upto_lists:
  "[0..<6] = [0, 1, 2, 3, 4, 5]"
  "[0..<8] = [0, 1, 2, 3, 4, 5, 6, 7]"
  "[0..<12] = [0, 1, 2, 3, 4, 5, 6, 7, 8, 9, 10, 11]"
  "[0..<14] = [0, 1, 2, 3, 4, 5, 6, 7, 8, 9, 10, 11, 12, 13]"
  "[0..<16] = [0, 1, 2, 3, 4, 5, 6, 7, 8, 9, 10, 11, 12, 13, 14, 15]"
  "[0..<20] = [0, 1, 2, 3, 4, 5, 6, 7, 8, 9, 10, 11, 12, 13, 14, 15, 16, 17, 18, 19]"
  "[0..<40] = [0, 1, 2, 3, 4, 5, 6, 7, 8, 9, 10, 11, 12, 13, 14, 15, 16, 17, 18, 19, 20, 21, 22, 23, 24, 25, 26, 27, 28, 29, 30, 31, 32, 33, 34, 35, 36, 37, 38, 39]"
  by (simp_all add: eval_nat_numeral)

lemma ucast_nibble_round [layout]:
  fixes h :: protocol_ipv6
  shows "(ucast (ipv6_unit h) :: 4 word) = ip6_version h" "(ucast (drop_bit 4 (ipv6_unit h)) :: u8) = ip6_priority h"
    "(ucast (drop_bit 12 (ipv6_unit h)) :: 20 word) = ip6_flow_lbl h"
  by (auto simp: ipv6_unit_def bit_simps intro!: bit_eqI)

lemma ipv6_unit_load [layout]:
  "ipv6_unit \<lparr>ip6_version = ucast u, ip6_priority = ucast (drop_bit 4 u), ip6_flow_lbl = ucast (drop_bit 12 u), ip6_payload_len = l,
     ip6_nexthdr = x, ip6_hop_limit = k, ip6_saddr = s, ip6_daddr = d\<rparr> = u" (is "ipv6_unit ?h = u")
proof (rule bit_eqI)
  fix n assume "possible_bit TYPE(32 word) n"
  then consider "n < 4" | "4 \<le> n" "n < 12" | "12 \<le> n" "n < 32" by force
  then show "bit (ipv6_unit ?h) n = bit u n" by cases (auto simp: ipv6_unit_def bit_simps)
qed

lemma pair_no_bit [simp]: "2 \<le> n \<Longrightarrow> \<not> bit (x :: 2 word) n"
  using bit_imp_le_length by force

lemma push_flag: "bit (push_bit k (of_bool b) :: u16) n \<longleftrightarrow> k < 16 \<and> n = k \<and> b"
  by (auto simp: bit_simps)

lemma tcp_unit_bit:
  "bit (tcp_unit h) n \<longleftrightarrow> n < 4 \<and> bit (tcp_res1 h) n \<or> 4 \<le> n \<and> n < 8 \<and> bit (tcp_doff h) (n - 4) \<or>
     n = 8 \<and> tcp_fin h \<or> n = 9 \<and> tcp_syn h \<or> n = 10 \<and> tcp_rst h \<or> n = 11 \<and> tcp_psh h \<or> n = 12 \<and> tcp_ack h \<or>
     n = 13 \<and> tcp_urg h \<or> 14 \<le> n \<and> n < 16 \<and> bit (tcp_res2 h) (n - 14)"
proof -
  have fields: "bit (ucast (tcp_res1 h) :: u16) n \<longleftrightarrow> n < 4 \<and> bit (tcp_res1 h) n"
    "bit (push_bit 4 (ucast (tcp_doff h)) :: u16) n \<longleftrightarrow> 4 \<le> n \<and> n < 8 \<and> bit (tcp_doff h) (n - 4)"
    "bit (push_bit 14 (ucast (tcp_res2 h)) :: u16) n \<longleftrightarrow> 14 \<le> n \<and> n < 16 \<and> bit (tcp_res2 h) (n - 14)"
    by (cases "n < 4"; cases "n < 8"; auto simp: bit_simps)+
  show ?thesis unfolding tcp_unit_def bit_or_iff push_flag fields by simp
qed

lemma tcp_unit_fields [layout]:
  "(ucast (tcp_unit h) :: 4 word) = tcp_res1 h" "(ucast (drop_bit 4 (tcp_unit h)) :: 4 word) = tcp_doff h"
  "bit (tcp_unit h) 8 = tcp_fin h" "bit (tcp_unit h) 9 = tcp_syn h" "bit (tcp_unit h) 10 = tcp_rst h"
  "bit (tcp_unit h) 11 = tcp_psh h" "bit (tcp_unit h) 12 = tcp_ack h" "bit (tcp_unit h) 13 = tcp_urg h"
  "(ucast (drop_bit 14 (tcp_unit h)) :: 2 word) = tcp_res2 h"
  by (auto simp: tcp_unit_bit bit_ucast_iff bit_drop_bit_eq intro!: bit_eqI)

lemma tcp_unit_load [layout]:
  "tcp_unit \<lparr>tcp_source = s, tcp_dest = d, tcp_seq = q, tcp_ack_seq = a, tcp_res1 = ucast u, tcp_doff = ucast (drop_bit 4 u),
     tcp_fin = bit u 8, tcp_syn = bit u 9, tcp_rst = bit u 10, tcp_psh = bit u 11, tcp_ack = bit u 12, tcp_urg = bit u 13,
     tcp_res2 = ucast (drop_bit 14 u), tcp_window = w, tcp_check = c, tcp_urg_ptr = p\<rparr> = u" (is "tcp_unit ?h = u")
proof (rule bit_eqI)
  fix n assume "possible_bit TYPE(16 word) n"
  then consider "n < 4" | "4 \<le> n" "n < 8" | "n \<in> {8, 9, 10, 11, 12, 13}" | "14 \<le> n" "n < 16" by force
  then show "bit (tcp_unit ?h) n = bit u n" by cases (auto simp: tcp_unit_bit bit_ucast_iff bit_drop_bit_eq)
qed

text \<open>The fields of a structure after it was written, and the bytes of a structure that was read.\<close>

lemmas byte_loads = byte_at_def u16_at_def u32_at_def bytes_at_def

lemmas byte_stores = le16_bytes_def le32_bytes_def

interpretation udp: c_struct 8 load_udp store_udp "\<lambda>_. True"
proof unfold_locales
  fix bs :: "byte list" and h :: protocol_udp and rest
  show "load_udp (store_udp h @ rest) = Some h"
    by (simp add: load_udp_def store_udp_def byte_loads byte_stores layout)
  show "store_udp h = take 8 bs" if "load_udp bs = Some h"
    using that by (auto simp: load_udp_def store_udp_def byte_loads take_nths upto_lists layout split: bind_splits if_splits)
  show "load_udp bs \<noteq> None \<longleftrightarrow> 8 \<le> length bs"
    by (auto simp: load_udp_def byte_loads split: bind_splits)
qed simp

interpretation dns: c_struct 12 load_dns store_dns "\<lambda>_. True"
proof unfold_locales
  fix bs :: "byte list" and h :: protocol_dns and rest
  show "load_dns (store_dns h @ rest) = Some h"
    by (simp add: load_dns_def store_dns_def byte_loads byte_stores layout)
  show "store_dns h = take 12 bs" if "load_dns bs = Some h"
    using that by (auto simp: load_dns_def store_dns_def byte_loads take_nths upto_lists layout split: bind_splits if_splits)
  show "load_dns bs \<noteq> None \<longleftrightarrow> 12 \<le> length bs"
    by (auto simp: load_dns_def byte_loads split: bind_splits)
qed simp

text \<open>The arrays of a structure have their lengths.\<close>

definition endpoint_fits :: "endpoint_t \<Rightarrow> bool" where "endpoint_fits p \<longleftrightarrow> length (ep_addr p) = 16"
definition eth_fits :: "protocol_eth \<Rightarrow> bool" where "eth_fits h \<longleftrightarrow> length (eth_dst h) = 6 \<and> length (eth_src h) = 6"
definition ipv6_fits :: "protocol_ipv6 \<Rightarrow> bool" where "ipv6_fits h \<longleftrightarrow> length (ip6_saddr h) = 16 \<and> length (ip6_daddr h) = 16"

interpretation ipv4: c_struct 20 load_ipv4 store_ipv4 "\<lambda>_. True"
proof unfold_locales
  fix bs :: "byte list" and h :: protocol_ipv4 and rest
  show "load_ipv4 (store_ipv4 h @ rest) = Some h"
    by (simp add: load_ipv4_def store_ipv4_def byte_loads byte_stores nth_append layout)
  show "store_ipv4 h = take 20 bs" if "load_ipv4 bs = Some h"
    using that by (auto simp: load_ipv4_def store_ipv4_def byte_loads take_nths upto_lists layout split: bind_splits if_splits)
  show "load_ipv4 bs \<noteq> None \<longleftrightarrow> 20 \<le> length bs"
    by (auto simp: load_ipv4_def byte_loads split: bind_splits)
qed simp

interpretation tcp: c_struct 20 load_tcp store_tcp "\<lambda>_. True"
proof unfold_locales
  fix bs :: "byte list" and h :: protocol_tcp and rest
  show "load_tcp (store_tcp h @ rest) = Some h"
    by (simp add: load_tcp_def store_tcp_def byte_loads byte_stores nth_append layout)
  show "store_tcp h = take 20 bs" if "load_tcp bs = Some h"
    using that by (auto simp: load_tcp_def store_tcp_def byte_loads take_nths upto_lists layout split: bind_splits if_splits)
  show "load_tcp bs \<noteq> None \<longleftrightarrow> 20 \<le> length bs"
    by (auto simp: load_tcp_def byte_loads split: bind_splits)
qed simp

interpretation eth: c_struct 14 load_eth store_eth "eth_fits"
proof unfold_locales
  fix bs :: "byte list" and h :: protocol_eth and rest
  show "load_eth (store_eth h @ rest) = Some h" if "eth_fits h"
    using that by (simp add: load_eth_def store_eth_def byte_loads byte_stores nth_append eth_fits_def layout)
  show "store_eth h = take 14 bs" if "load_eth bs = Some h"
    using that by (auto simp: load_eth_def store_eth_def byte_loads take_nths upto_lists layout split: bind_splits if_splits)
  show "load_eth bs \<noteq> None \<longleftrightarrow> 14 \<le> length bs"
    by (auto simp: load_eth_def byte_loads split: bind_splits)
  show "eth_fits h" if "load_eth bs = Some h"
    using that by (auto simp: load_eth_def eth_fits_def byte_loads split: bind_splits if_splits)
qed

interpretation endpoint: c_struct 20 load_endpoint store_endpoint "endpoint_fits"
proof unfold_locales
  fix bs :: "byte list" and h :: endpoint_t and rest
  show "load_endpoint (store_endpoint h @ rest) = Some h" if "endpoint_fits h"
    using that by (simp add: load_endpoint_def store_endpoint_def byte_loads byte_stores nth_append endpoint_fits_def layout)
  show "store_endpoint h = take 20 bs" if "load_endpoint bs = Some h"
    using that by (auto simp: load_endpoint_def store_endpoint_def byte_loads take_nths upto_lists layout split: bind_splits if_splits)
  show "load_endpoint bs \<noteq> None \<longleftrightarrow> 20 \<le> length bs"
    by (auto simp: load_endpoint_def byte_loads split: bind_splits)
  show "endpoint_fits h" if "load_endpoint bs = Some h"
    using that by (auto simp: load_endpoint_def endpoint_fits_def byte_loads split: bind_splits if_splits)
qed

interpretation ipv6: c_struct 40 load_ipv6 store_ipv6 "ipv6_fits"
proof unfold_locales
  fix bs :: "byte list" and h :: protocol_ipv6 and rest
  show "load_ipv6 (store_ipv6 h @ rest) = Some h" if "ipv6_fits h"
    using that by (simp add: load_ipv6_def store_ipv6_def byte_loads byte_stores nth_append ipv6_fits_def layout)
  show "store_ipv6 h = take 40 bs" if "load_ipv6 bs = Some h"
    using that by (auto simp: load_ipv6_def store_ipv6_def byte_loads take_nths upto_lists numeral_2_eq_2 layout split: bind_splits if_splits)
  show "load_ipv6 bs \<noteq> None \<longleftrightarrow> 40 \<le> length bs"
    by (auto simp: load_ipv6_def byte_loads split: bind_splits)
  show "ipv6_fits h" if "load_ipv6 bs = Some h"
    using that by (auto simp: load_ipv6_def ipv6_fits_def byte_loads split: bind_splits if_splits)
qed

section \<open>The standard headers in these structures\<close>

text \<open>The members of the union agree: a 32-bit word is its two 16-bit words.\<close>

lemma le32_words: "le16 a b = ucast (le32 a b c d)" "le16 c d = ucast (drop_bit 16 (le32 a b c d))" "a = ucast (le32 a b c d)"
proof -
  show "le16 a b = ucast (le32 a b c d)" "a = ucast (le32 a b c d)"
    by (auto simp: le32_def le16_def bit_simps intro!: bit_eqI)
  show "le16 c d = ucast (drop_bit 16 (le32 a b c d))"
  proof (rule bit_eqI)
    fix n assume "possible_bit TYPE(16 word) n"
    then consider "n < 8" | "8 \<le> n" "n < 16" by force
    then show "bit (le16 c d) n = bit (ucast (drop_bit 16 (le32 a b c d)) :: u16) n"
      by cases (auto simp: le32_def le16_def bit_simps)
  qed
qed

lemma addr_views:
  assumes "length a = 16" "i < 4"
  shows "\<exists>w. addr32 a i = Some w \<and> addr16 a (2 * i) = Some (ucast w) \<and> addr16 a (2 * i + 1) = Some (ucast (drop_bit 16 w)) \<and>
    addr8 a (4 * i) = Some (ucast w)"
proof -
  have "4 * i + 3 < 16" using assms(2) by linarith
  then show ?thesis using assms(1)
    by (auto simp: addr32_def addr16_def addr8_def byte_loads le32_words numeral_3_eq_3 mult.assoc [symmetric])
qed

text \<open>The first byte of an IPv4 packet has the version in its high bits, where the structure has \<open>ihl\<close>. TCP's offset
and flags are where the structure has them.\<close>

theorem ipv4_version_is_length:
  assumes "load_ipv4 bs = Some h" "bs ! 0 = nibbles ihl version"
  shows "ip4_version h = ihl" "ip4_ihl h = version"
proof -
  have "ip4_version h = ucast (bs ! 0)" "ip4_ihl h = ucast (drop_bit 4 (bs ! 0))"
    using assms(1) by (auto simp: load_ipv4_def byte_loads split: bind_splits if_splits)
  then show "ip4_version h = ihl" "ip4_ihl h = version" by (simp_all add: assms(2) layout)
qed

theorem tcp_header_standard:
  assumes "load_tcp bs = Some h"
  shows "tcp_doff h = ucast (drop_bit 4 (bs ! 12))" "tcp_fin h = bit (bs ! 13) 0" "tcp_syn h = bit (bs ! 13) 1"
    "tcp_rst h = bit (bs ! 13) 2" "tcp_psh h = bit (bs ! 13) 3" "tcp_ack h = bit (bs ! 13) 4" "tcp_urg h = bit (bs ! 13) 5"
proof -
  have h: "tcp_doff h = ucast (drop_bit 4 (le16 (bs ! 12) (bs ! 13)))"
      "tcp_fin h = bit (le16 (bs ! 12) (bs ! 13)) 8" "tcp_syn h = bit (le16 (bs ! 12) (bs ! 13)) 9"
      "tcp_rst h = bit (le16 (bs ! 12) (bs ! 13)) 10" "tcp_psh h = bit (le16 (bs ! 12) (bs ! 13)) 11"
      "tcp_ack h = bit (le16 (bs ! 12) (bs ! 13)) 12" "tcp_urg h = bit (le16 (bs ! 12) (bs ! 13)) 13"
    using assms by (auto simp: load_tcp_def byte_loads split: bind_splits if_splits)
  show "tcp_doff h = ucast (drop_bit 4 (bs ! 12))" "tcp_fin h = bit (bs ! 13) 0" "tcp_syn h = bit (bs ! 13) 1"
    "tcp_rst h = bit (bs ! 13) 2" "tcp_psh h = bit (bs ! 13) 3" "tcp_ack h = bit (bs ! 13) 4" "tcp_urg h = bit (bs ! 13) 5"
    unfolding h by (auto simp: le16_def bit_simps intro!: bit_eqI)
qed

section \<open>The dispatch reads these fields\<close>

text \<open>\<open>controller::create\<close> as it reads its pointers to structures. Loading a whole structure needs all of its bytes; the
code needs those of the fields only.\<close>

definition create_by_structs :: "byte list \<Rightarrow> u32 \<Rightarrow> task option option" where
  "create_by_structs data sz =
     (if unat sz > 8 then do {
        ident \<leftarrow> load64 data;
        let data = drop 8 data;
        ip4 \<leftarrow> load_ipv4 data;
        ip6 \<leftarrow> load_ipv6 data;
        tcp \<leftarrow> load_tcp (drop 20 data);
        udp \<leftarrow> load_udp (drop 20 data);
        let proto = (if unat (ip4_version ip4) = IP_VERSION_4 then unat (ip4_protocol ip4) else unat (ip6_nexthdr ip6));
        let is_tcp = (proto = IP_PROTO_TCP);
        let is_udp = (proto = IP_PROTO_UDP \<or> unat (ip4_version ip4) \<noteq> IP_VERSION_4 \<and> proto = IPV6_NEXTHDR_UDP);
        let tcp_port = htons Little_endian (tcp_dest tcp);
        let udp_port = htons Little_endian (udp_dest udp);
        Some (if is_tcp then Some (task_init ident data sz (task_new
                (if tcp_port = HTTP_FIXED_PORT then Http_task else if tcp_port = HTTPS_FIXED_PORT then Https_task else Tcp_task)))
              else if is_udp then Some (task_init ident data sz (task_new
                (if udp_port = DNS_FIXED_PORT then Dns_task else if udp_port = HTTPS_FIXED_PORT then Https3_task else Udp_task)))
              else None)
      } else Some None)"

lemma ipv4_fields:
  assumes "load_ipv4 data = Some h"
  shows "ip_version data = Some (unat (ip4_version h))" "byte_at data 9 = Some (ip4_protocol h)"
proof -
  have "unat (b AND 15) = unat (ucast b :: 4 word)" for b :: byte
  proof -
    have "b AND 15 = take_bit 4 b" by (simp add: take_bit_eq_mask mask_eq_exp_minus_1)
    then show ?thesis by (simp add: unsigned_take_bit_eq unsigned_ucast_eq)
  qed
  then show "ip_version data = Some (unat (ip4_version h))" "byte_at data 9 = Some (ip4_protocol h)"
    using assms by (auto simp: load_ipv4_def ip_version_def byte_loads split: bind_splits if_splits)
qed

lemma ipv6_field: "load_ipv6 data = Some h \<Longrightarrow> byte_at data 6 = Some (ip6_nexthdr h)"
  by (auto simp: load_ipv6_def byte_loads split: bind_splits if_splits)

lemma swap_le16: "be16 a b = swap16 (le16 a b)"
  by (rule bit_eqI) (auto simp: be16_def swap16_def le16_def bit_simps)

lemma ports:
  "load_tcp (drop off data) = Some t \<Longrightarrow> dest_port data off = Some (htons Little_endian (tcp_dest t))"
  "load_udp (drop off data) = Some u \<Longrightarrow> dest_port data off = Some (htons Little_endian (udp_dest u))"
  by (auto simp: load_tcp_def load_udp_def dest_port_def byte_loads htons_def swap_le16 numeral_2_eq_2 numeral_3_eq_3 split: bind_splits if_splits)



end
