(* ===== verification/Client_Route.thy ===== *)
theory Client_Route
  imports Client_Controller
begin

text \<open>
  The client and the route module together: the datagrams that \<open>client/Controller.cpp\<close> sends reach the hook of
  \<open>server/main.c\<close> as UDP frames, in the order they were sent.

  The machine of the route is big-endian here: on a little-endian one the hook takes no datagram at all
  (\<open>Route_Filter.little_endian_inert\<close>). A frame ends with its datagram, so that a read behind it is \<open>None\<close>.

  The theorems: the state of the route after any run of the client, and that the first datagram of every client is too short
  for what the route reads.
\<close>

section \<open>Frames that carry datagrams\<close>

definition carries :: "route_skb \<Rightarrow> byte list \<Rightarrow> u16 \<Rightarrow> bool" where
  "carries skb data port \<longleftrightarrow> eth_proto Big_endian skb = Some ETH_TYPE_IPV4 \<and> byte_at (rk_mem skb) (rk_nh skb + 9) = Some 17 \<and>
     (\<exists>daddr \<in> set (rk_dev_ipv4 skb). bytes_at (rk_mem skb) (rk_nh skb + 16) 4 = Some daddr) \<and>
     read16 Big_endian (rk_mem skb) (rk_th skb + 2) = Some port \<and> udp_payload skb = data"

fun datagrams :: "'a client_event list \<Rightarrow> (byte list \<times> u16) list" where
  "datagrams [] = []"
| "datagrams (Datagram data addr port # es) = (data, port) # datagrams es"
| "datagrams (e # es) = datagrams es"

text \<open>The hook on frames one after the other, with all that it sends.\<close>

fun route_frames :: "'m filter_env \<Rightarrow> byte list \<Rightarrow> route_skb list \<Rightarrow> 'm route_device \<Rightarrow> ('m route_device \<times> filter_effect list) option" where
  "route_frames env ident [] d = Some (d, [])"
| "route_frames env ident (skb # skbs) d = do {
     (d, fx, v) \<leftarrow> route_nf_handle env ident skb d;
     (d, fx') \<leftarrow> route_frames env ident skbs d;
     Some (d, fx @ fx')
   }"

section \<open>What the client sends\<close>

lemma datagrams_append: "datagrams (es @ es') = datagrams es @ datagrams es'"
  by (induction es rule: datagrams.induct) simp_all

text \<open>The datagrams of the client: a JSON text of a configuration or two braces to the configuration port, anything to the
other port.\<close>

definition config_text :: "'s client_env \<Rightarrow> byte list \<Rightarrow> bool" where
  "config_text ce data \<longleftrightarrow> data = braces \<or>
     (\<exists>start server domains. data = js_print (ce_json ce) [(''Start'', JBool start), (''Server'', JString server),
        (''Domains'', JArray (map JString domains)), (''Protocols'', JArray [])])"

definition client_datagram :: "'s client_env \<Rightarrow> byte list \<times> u16 \<Rightarrow> bool" where
  "client_datagram ce dg \<longleftrightarrow> snd dg = ROUTE_CAPTURE_PORT \<or> snd dg = ROUTE_CONFIG_PORT \<and> config_text ce (fst dg)"

lemma config_object_list:
  "config_object p = [(''Start'', JBool (cp_isStart p)), (''Server'', JString (cp_server p)),
     (''Domains'', JArray (map JString (cp_domains p))), (''Protocols'', JArray [])]"
proof -
  have "foldl (\<lambda>ds it. ds @ [JString it]) zs xs = zs @ map JString xs" for zs xs
    by (induction xs arbitrary: zs) simp_all
  then show ?thesis by (simp add: config_object_def json_insert_def Let_def)
qed

lemma event_datagrams:
  "datagrams (cl_events (client_emit ConfigChanged c)) = datagrams (cl_events c)"
  "datagrams (cl_events (client_emit (CaptureItem data) c)) = datagrams (cl_events c)"
  "datagrams (cl_events (send data port c)) = datagrams (cl_events c) @ [(data, port)]"
  "datagrams (cl_events (on_p f c)) = datagrams (cl_events c)"
  "datagrams (cl_events (ReadConfig ce data c)) = datagrams (cl_events c)"
  "datagrams (cl_events (send_config ce c)) = datagrams (cl_events c) @ [(js_print (ce_json ce) (config_object (cl_p c)), ROUTE_CONFIG_PORT)]"
  by (simp_all add: client_emit_def send_def on_p_def ReadConfig_def send_config_def WriteConfig_def datagrams_append)

lemma lookup_datagrams:
  "datagrams (cl_events (foldl (\<lambda>c address. on_p (cp_routeAddress_update (\<lambda>_. address)) c) c hs)) = datagrams (cl_events c)"
  by (induction hs arbitrary: c) (simp_all add: event_datagrams)

lemma config_text_sent: "config_text ce braces" "config_text ce (js_print (ce_json ce) (config_object p))"
  by (auto simp: config_text_def config_object_list)

lemma exec_datagrams:
  "\<exists>dgs. datagrams (cl_events (client_exec ce op c)) = datagrams (cl_events c) @ dgs \<and> (\<forall>dg \<in> set dgs. client_datagram ce dg)"
  by (cases op) (auto simp: client_ops OnLookupHost_def Let_def event_datagrams lookup_datagrams client_datagram_def config_text_sent
      split: option.split)

lemma run_datagrams:
  "\<exists>dgs. datagrams (cl_events (fold (client_exec ce) ops c)) = datagrams (cl_events c) @ dgs \<and> (\<forall>dg \<in> set dgs. client_datagram ce dg)"
proof (induction ops arbitrary: c)
  case (Cons op ops)
  show ?case using exec_datagrams [of ce op c] Cons.IH [of "client_exec ce op c"] by fastforce
qed simp

section \<open>What the route does with them\<close>

lemma port_neq: "ROUTE_CAPTURE_PORT \<noteq> ROUTE_CONFIG_PORT" "ROUTE_CAPTURE_PORT \<noteq> DNS_FIXED_PORT" "ROUTE_CONFIG_PORT \<noteq> DNS_FIXED_PORT"
  by (simp_all add: ROUTE_CAPTURE_PORT_def ROUTE_CONFIG_PORT_def DNS_FIXED_PORT_def)

lemma addr_listed_set: "addr_listed a as \<longleftrightarrow> a \<in> set as"
  by (induction as) auto

lemma carried_port:
  assumes "carries skb data port" "fe_endian env = Big_endian"
  shows "local_udp_to env skb p = Some (p = port)" "port \<noteq> DNS_FIXED_PORT \<Longrightarrow> skb_is_dns env skb = Some False"
  using assms by (auto simp: carries_def local_udp_to_def htons_def proto_is_def IP_PROTO_UDP_def is_local_ipv4_def addr_listed_set
      udp_dest_is_def skb_is_dns_def dns_name_in_def)

text \<open>A frame to the configuration port is loaded, one to the capture port changes nothing.\<close>

lemma handle_config:
  assumes "carries skb data ROUTE_CONFIG_PORT" "fe_endian env = Big_endian"
  shows "route_nf_handle env ident skb d = map_option (\<lambda>d'. (d', [], NF_DROP)) (load_config env data d)"
  using carried_port [OF assms] port_neq assms(1)
  by (cases "load_config env data d") (simp_all add: route_nf_handle_def skb_is_config_def skb_recv_config_def carries_def)

lemma handle_capture:
  assumes "carries skb data ROUTE_CAPTURE_PORT" "fe_endian env = Big_endian"
  shows "route_nf_handle env ident skb d = Some (d, [], NF_ACCEPT)"
  using carried_port [OF assms] port_neq
  by (simp add: route_nf_handle_def skb_is_config_def skb_is_set_capture_def skb_recv_capture_def)

text \<open>The last datagram to the configuration port.\<close>

definition last_config :: "(byte list \<times> u16) list \<Rightarrow> byte list option" where
  "last_config dgs = (case filter (\<lambda>dg. snd dg = ROUTE_CONFIG_PORT) dgs of [] \<Rightarrow> None | cs \<Rightarrow> Some (fst (last cs)))"

lemma last_config_Cons:
  "last_config ((data, port) # dgs) =
     (case last_config dgs of None \<Rightarrow> (if port = ROUTE_CONFIG_PORT then Some data else None) | Some x \<Rightarrow> Some x)"
  by (auto simp: last_config_def split: list.splits)

definition with_config :: "'m filter_env \<Rightarrow> byte list option \<Rightarrow> 'm route_device \<Rightarrow> 'm route_device" where
  "with_config env conf d = (case conf of None \<Rightarrow> d
     | Some data \<Rightarrow> d\<lparr>rd_config := take (fe_config_size env) data, rd_limit_map := fe_create env\<rparr>)"

lemma frames_result:
  assumes "list_all2 (\<lambda>skb (data, port). carries skb data port) skbs dgs" "\<forall>dg \<in> set dgs. client_datagram ce dg"
    and "fe_endian env = Big_endian" "route_frames env ident skbs d = Some (d', fx)"
  shows "d' = with_config env (last_config dgs) d \<and> fx = []"
  using assms(1,2,4)
proof (induction arbitrary: d fx rule: list_all2_induct)
  case (Cons skb skbs dg dgs)
  obtain data port where dg: "dg = (data, port)" by fastforce
  obtain d1 fx1 v fx2 where s: "route_nf_handle env ident skb d = Some (d1, fx1, v)" "route_frames env ident skbs d1 = Some (d', fx2)"
      "fx = fx1 @ fx2"
    using Cons.prems(2) by (auto split: bind_splits)
  have IH: "d' = with_config env (last_config dgs) d1 \<and> fx2 = []" using Cons.IH s(2) Cons.prems(1) by simp
  have carried: "carries skb data port" using Cons.hyps(1) dg by simp
  consider "port = ROUTE_CAPTURE_PORT" | "port = ROUTE_CONFIG_PORT" using Cons.prems(1) dg by (auto simp: client_datagram_def)
  then show ?case
  proof cases
    case 1
    then show ?thesis using handle_capture [of skb data env] carried assms(3) s IH port_neq dg
      by (simp add: last_config_Cons split: option.split)
  next
    case 2
    then have "load_config env data d = Some d1" "fx1 = []" using handle_config [of skb data env] carried assms(3) s(1) by auto
    then show ?thesis using load_config_fields [of env data d d1] s(3) IH 2 dg
      by (auto simp: last_config_Cons with_config_def split: option.split)
  qed
qed (simp add: with_config_def last_config_def)

lemma short_config_faults:
  assumes "list_all2 (\<lambda>skb (data, port). carries skb data port) skbs dgs" "(data, ROUTE_CONFIG_PORT) \<in> set dgs"
    and "length data < fe_config_size env" "fe_endian env = Big_endian"
  shows "route_frames env ident skbs d = None"
  using assms(1,2)
proof (induction arbitrary: d rule: list_all2_induct)
  case (Cons skb skbs dg dgs)
  show ?case
  proof (cases "dg = (data, ROUTE_CONFIG_PORT)")
    case True
    have "load_config env data d = None" using assms(3) by (simp add: load_config_def bytes_at_def)
    then show ?thesis using True handle_config [of skb data env] Cons.hyps(1) assms(4) by simp
  next
    case False
    then show ?thesis using Cons.IH Cons.prems by (auto split: bind_splits)
  qed
qed simp

lemma new_client_datagrams: "datagrams (cl_events (controller_new ce null s)) = []"
  by (simp add: controller_new_def event_datagrams)

section \<open>Properties\<close>


text \<open>Every client's first words are too short. Once the client has found the route's address it sends \<open>{}\<close> to both ports;
a route whose configuration structure has more than two bytes reads behind this datagram.\<close>

theorem client_startup_overread:
  assumes "Host_found (Some addresses) \<in> set ops" "2 < fe_config_size env" "fe_endian env = Big_endian"
    and "list_all2 (\<lambda>skb (data, port). carries skb data port) skbs (datagrams (cl_events (fold (client_exec ce) ops c)))"
  shows "route_frames env ident skbs d = None"
proof -
  have "(braces, ROUTE_CONFIG_PORT) \<in> set (datagrams (cl_events (fold (client_exec ce) ops c)))" using assms(1)
  proof (induction ops arbitrary: c)
    case (Cons op ops)
    show ?case
    proof (cases "op = Host_found (Some addresses)")
      case True
      then have "(braces, ROUTE_CONFIG_PORT) \<in> set (datagrams (cl_events (client_exec ce op c)))"
        by (simp add: OnLookupHost_def Let_def event_datagrams)
      then show ?thesis using run_datagrams [of ce ops "client_exec ce op c"] by auto
    next
      case False
      then show ?thesis using Cons by simp
    qed
  qed simp
  moreover have "length braces < fe_config_size env" using assms(2) by (simp add: braces_def)
  ultimately show ?thesis using assms(3) by (rule short_config_faults [OF assms(4)])
qed

section \<open>Instances\<close>

text \<open>A frame for any datagram and port.\<close>

definition frame_of :: "byte list \<Rightarrow> u16 \<Rightarrow> route_skb" where
  "frame_of data port = \<lparr>rk_mem = [2, 0, 0, 0, 0, 1, 2, 0, 0, 0, 0, 2, 8, 0,
       0x45, 0, 0, 37, 0, 0, 0, 0, 64, 17, 0, 0, 10, 0, 0, 2, 10, 0, 0, 1, 0xc0, 0] @ store16 Big_endian port @ [0, 17, 0, 0] @ data,
     rk_mac = 0, rk_nh = 14, rk_th = 34, rk_data = 14, rk_len = 28 + length data, rk_csum = 0,
     rk_dev_mac = [2, 0, 0, 0, 0, 1], rk_dev_ipv4 = [[10, 0, 0, 1]], rk_dev_ipv6 = []\<rparr>"

lemma frame_carries: "carries (frame_of data port) data port"
proof -
  have "be16 (ucast (drop_bit 8 port)) (ucast port) = port"
    by (rule bit_eqI) (auto simp: be16_def bit_simps)
  then show ?thesis
    by (simp add: carries_def frame_of_def eth_proto_def read16_def byte_at_def bytes_at_def load16_def store16_def udp_payload_def
        ETH_TYPE_IPV4_def be16_def)
qed

lemma frames_carry: "list_all2 (\<lambda>skb (data, port). carries skb data port) (map (\<lambda>(data, port). frame_of data port) dgs) dgs"
  by (induction dgs) (auto simp: frame_carries)


theorem client_startup_overread_witness:
  "route_frames ((list_env Big_endian)\<lparr>fe_config_size := 3\<rparr>) [0, 0]
      (map (\<lambda>(data, port). frame_of data port)
        (datagrams (cl_events (fold (client_exec std_client) [Host_found (Some [7]), Start_service] fresh_client)))) d = None"
  by (rule client_startup_overread [OF _ _ _ frames_carry]) (simp_all add: list_env_def)

end
