(* ===== verification/Apnic_Download.thy ===== *)
theory Apnic_Download
  imports Apnic
begin

text \<open>
  The thread of \<open>apnic::sync\<close> (\<open>controller/apnic.cpp\<close>) beside the thread that calls \<open>release\<close>, as a step relation: the
  thread resolves the name of the server, connects, writes its request and reads until \<open>_exit\<close> or an error; every line it
  takes is a step. The release unmaps both files, sets \<open>_exit\<close> and joins.

  What the network does is nondeterministic: the endpoints of the name, failures, and the bytes that \<open>read_some\<close> returns, at
  least one and at most the 512 prepared. As \<open>asio\<close> documents, a failed \<open>connect\<close> may leave the socket open. A step is
  labelled with the bytes it receives. The state \<open>Terminated\<close> is an exception that nobody catches or an access to an
  unmapped file; both end the process.

  The theorems: until the release the database is the one of \<open>Apnic.sync_chunks\<close> on the bytes received; once \<open>_exit\<close> is set
  every run ends; the release waits for the network; and it can end the process.
\<close>

section \<open>The two threads\<close>

datatype 'e dl_pc = No_thread | Resolving | Connecting "'e list" | Testing_open | Writing | Testing_exit | Reading | Lining
  | Returned | Terminated

datatype release_pc = Running | Unmapped_ipv4 | Unmapped | Exit_set | Released

text \<open>The private data of the class, the thread's local buffer, and how far the release is.\<close>

record 'e download =
  dl_db :: apnic
  dl_open :: bool
  dl_pc :: "'e dl_pc"
  dl_buf :: string
  dl_release :: release_pc

text \<open>A new thread object is assigned; when the old one is joinable the process ends.\<close>

definition sync_start :: "'e download \<Rightarrow> 'e download option" where
  "sync_start s = (if dl_pc s \<noteq> No_thread then None else Some (s\<lparr>dl_open := False, dl_pc := Resolving, dl_buf := []\<rparr>))"

definition download_init :: "byte list option \<Rightarrow> byte list option \<Rightarrow> 'e download \<Rightarrow> 'e download option" where
  "download_init file4 file6 s = sync_start (s\<lparr>dl_db := apnic_init file4 file6 (dl_db s), dl_release := Running\<rparr>)"

text \<open>The body of the loop over the lines.\<close>

definition line_step :: "(string \<Rightarrow> u32 option) \<Rightarrow> (string \<Rightarrow> byte list option) \<Rightarrow> 'e download \<Rightarrow> 'e download" where
  "line_step v4_of v6_of s =
     (let line = takeWhile (\<lambda>c. c \<noteq> newline) (dl_buf s);
          s = s\<lparr>dl_buf := drop (Suc (length line)) (dl_buf s)\<rparr>
      in if line = [] then s\<lparr>dl_pc := Testing_exit\<rparr>
         else case parse_line v4_of v6_of line of
             None \<Rightarrow> s\<lparr>dl_pc := Terminated\<rparr>
           | Some e \<Rightarrow> (case mark_entry e (dl_db s) of None \<Rightarrow> s\<lparr>dl_pc := Terminated\<rparr> | Some a \<Rightarrow> s\<lparr>dl_db := a\<rparr>))"

inductive dl_step :: "(string \<Rightarrow> u32 option) \<Rightarrow> (string \<Rightarrow> byte list option) \<Rightarrow> 'e download \<Rightarrow> string list \<Rightarrow> 'e download \<Rightarrow> bool"
  for v4_of v6_of where
  resolve_fails: "dl_pc s = Resolving \<Longrightarrow> dl_step v4_of v6_of s [] (s\<lparr>dl_pc := Terminated\<rparr>)"
| resolve: "dl_pc s = Resolving \<Longrightarrow> dl_step v4_of v6_of s [] (s\<lparr>dl_pc := Connecting es\<rparr>)"
| connect_none: "dl_pc s = Connecting [] \<Longrightarrow> dl_step v4_of v6_of s [] (s\<lparr>dl_pc := Testing_open\<rparr>)"
| connect_ok: "dl_pc s = Connecting (e # es) \<Longrightarrow> dl_step v4_of v6_of s [] (s\<lparr>dl_pc := Testing_open, dl_open := True\<rparr>)"
| connect_fails: "dl_pc s = Connecting (e # es) \<Longrightarrow> dl_open s \<longrightarrow> opened \<Longrightarrow>
    dl_step v4_of v6_of s [] (s\<lparr>dl_pc := Connecting es, dl_open := opened\<rparr>)"
| test_open: "dl_pc s = Testing_open \<Longrightarrow> dl_step v4_of v6_of s [] (s\<lparr>dl_pc := if dl_open s then Writing else Returned\<rparr>)"
| write_ok: "dl_pc s = Writing \<Longrightarrow> dl_step v4_of v6_of s [] (s\<lparr>dl_pc := Testing_exit\<rparr>)"
| write_fails: "dl_pc s = Writing \<Longrightarrow> dl_step v4_of v6_of s [] (s\<lparr>dl_pc := Returned\<rparr>)"
| test_exit: "dl_pc s = Testing_exit \<Longrightarrow>
    dl_step v4_of v6_of s [] (s\<lparr>dl_pc := if ap_exit (dl_db s) then Returned else Reading\<rparr>)"
| read_data: "dl_pc s = Reading \<Longrightarrow> chunk \<noteq> [] \<Longrightarrow> length chunk \<le> 512 \<Longrightarrow>
    dl_step v4_of v6_of s [chunk] (s\<lparr>dl_pc := Lining, dl_buf := dl_buf s @ chunk\<rparr>)"
| read_fails: "dl_pc s = Reading \<Longrightarrow> dl_step v4_of v6_of s [] (s\<lparr>dl_pc := Returned\<rparr>)"
| line: "dl_pc s = Lining \<Longrightarrow> dl_step v4_of v6_of s [] (line_step v4_of v6_of s)"
| unmap_ipv4: "dl_release s = Running \<Longrightarrow> dl_pc s \<noteq> Terminated \<Longrightarrow>
    dl_step v4_of v6_of s [] (s\<lparr>dl_db := (dl_db s)\<lparr>ap_ipv4 := mmap_close (ap_ipv4 (dl_db s))\<rparr>, dl_release := Unmapped_ipv4\<rparr>)"
| unmap_ipv6: "dl_release s = Unmapped_ipv4 \<Longrightarrow> dl_pc s \<noteq> Terminated \<Longrightarrow>
    dl_step v4_of v6_of s [] (s\<lparr>dl_db := (dl_db s)\<lparr>ap_ipv6 := mmap_close (ap_ipv6 (dl_db s))\<rparr>, dl_release := Unmapped\<rparr>)"
| set_exit: "dl_release s = Unmapped \<Longrightarrow> dl_pc s \<noteq> Terminated \<Longrightarrow>
    dl_step v4_of v6_of s [] (s\<lparr>dl_db := (dl_db s)\<lparr>ap_exit := True\<rparr>, dl_release := Exit_set\<rparr>)"
| join: "dl_release s = Exit_set \<Longrightarrow> dl_pc s = Returned \<or> dl_pc s = No_thread \<Longrightarrow>
    dl_step v4_of v6_of s [] (s\<lparr>dl_pc := No_thread, dl_release := Released\<rparr>)"

text \<open>A run with all that was received.\<close>

inductive dl_run :: "(string \<Rightarrow> u32 option) \<Rightarrow> (string \<Rightarrow> byte list option) \<Rightarrow> 'e download \<Rightarrow> string list \<Rightarrow> 'e download \<Rightarrow> bool"
  for v4_of v6_of s where
  run_start: "dl_run v4_of v6_of s [] s"
| run_step: "dl_run v4_of v6_of s cs t \<Longrightarrow> dl_step v4_of v6_of t c u \<Longrightarrow> dl_run v4_of v6_of s (cs @ c) u"

section \<open>The database of a run\<close>

lemma sync_chunks_snoc:
  "sync_chunks v4_of v6_of buf (cs @ [c]) a = do { (buf, a) \<leftarrow> sync_chunks v4_of v6_of buf cs a; sync_lines v4_of v6_of (buf @ c) a }"
  by (induction cs arbitrary: buf a) (simp_all add: split_def)

lemma mark_exit: "mark_entry e a = Some b \<Longrightarrow> ap_exit b = ap_exit a"
  by (auto simp: mark_entry_def split: cn_entry.splits)

definition downloaded :: "(string \<Rightarrow> u32 option) \<Rightarrow> (string \<Rightarrow> byte list option) \<Rightarrow> apnic \<Rightarrow> string list \<Rightarrow> 'e download \<Rightarrow> bool" where
  "downloaded v4_of v6_of a cs s \<longleftrightarrow> (dl_release s = Running \<longrightarrow> \<not> ap_exit (dl_db s) \<and>
     (case dl_pc s of
        No_thread \<Rightarrow> False
      | Lining \<Rightarrow> sync_chunks v4_of v6_of [] cs a = sync_lines v4_of v6_of (dl_buf s) (dl_db s)
      | Terminated \<Rightarrow> cs = [] \<or> sync_chunks v4_of v6_of [] cs a = None
      | Testing_exit \<Rightarrow> sync_chunks v4_of v6_of [] cs a = Some (dl_buf s, dl_db s)
      | Reading \<Rightarrow> sync_chunks v4_of v6_of [] cs a = Some (dl_buf s, dl_db s)
      | Returned \<Rightarrow> sync_chunks v4_of v6_of [] cs a = Some (dl_buf s, dl_db s)
      | _ \<Rightarrow> cs = [] \<and> dl_buf s = [] \<and> dl_db s = a))"

lemma line_release [simp]: "dl_release (line_step v4_of v6_of s) = dl_release s"
  by (simp add: line_step_def Let_def split: option.split)

lemma line_downloaded:
  assumes "downloaded v4_of v6_of a cs s" "dl_pc s = Lining"
  shows "downloaded v4_of v6_of a cs (line_step v4_of v6_of s)"
proof (cases "dl_release s = Running")
  case True
  then have "sync_chunks v4_of v6_of [] cs a = sync_lines v4_of v6_of (dl_buf s) (dl_db s)" "\<not> ap_exit (dl_db s)"
    using assms by (simp_all add: downloaded_def)
  then show ?thesis using assms(2) mark_exit
    by (subst (asm) sync_lines.simps) (auto simp: downloaded_def line_step_def Let_def split: option.split)
qed (simp add: downloaded_def)

lemma step_downloaded:
  assumes "dl_step v4_of v6_of s c t" "downloaded v4_of v6_of a cs s"
  shows "downloaded v4_of v6_of a (cs @ c) t"
  using assms
proof cases
  case line
  then show ?thesis using line_downloaded [OF assms(2)] by simp
qed (auto simp: downloaded_def sync_chunks_snoc)

lemma run_downloaded: "dl_run v4_of v6_of s cs t \<Longrightarrow> downloaded v4_of v6_of a [] s \<Longrightarrow> downloaded v4_of v6_of a cs t"
  by (induction rule: dl_run.induct) (auto intro: step_downloaded)

section \<open>The end of the release\<close>

text \<open>How far a thread that finds \<open>_exit\<close> set is from its end.\<close>

fun pc_rank :: "'e dl_pc \<Rightarrow> nat" where
  "pc_rank Resolving = 8"
| "pc_rank (Connecting es) = 7"
| "pc_rank Testing_open = 6"
| "pc_rank Writing = 5"
| "pc_rank Reading = 4"
| "pc_rank Lining = 3"
| "pc_rank Testing_exit = 2"
| "pc_rank Returned = 1"
| "pc_rank No_thread = 1"
| "pc_rank Terminated = 0"

definition work_left :: "'e download \<Rightarrow> nat" where
  "work_left s = (case dl_pc s of Connecting es \<Rightarrow> length es | _ \<Rightarrow> length (dl_buf s))"

definition stopping :: "'e download \<Rightarrow> bool" where
  "stopping s \<longleftrightarrow> dl_release s = Exit_set \<and> ap_exit (dl_db s)"

definition joined :: "'e download \<Rightarrow> bool" where
  "joined s \<longleftrightarrow> dl_release s = Released \<and> dl_pc s = No_thread"

definition release_measure :: "('e download \<times> 'e download) set" where
  "release_measure = measures [\<lambda>s. (if dl_release s = Released then 0 else 1), \<lambda>s. pc_rank (dl_pc s), work_left]"

lemma stopping_step:
  assumes "dl_step v4_of v6_of s c t" "stopping s"
  shows "(t, s) \<in> release_measure \<and> (stopping t \<or> joined t)"
  using assms
proof cases
  case line
  have "drop (Suc n) (dl_buf s) = [] \<or> length (drop (Suc n) (dl_buf s)) < length (dl_buf s)" for n by auto
  moreover have "takeWhile (\<lambda>c. c \<noteq> newline) (dl_buf s) \<noteq> [] \<Longrightarrow> dl_buf s \<noteq> []" by auto
  ultimately show ?thesis using line assms(2)
    by (auto simp: line_step_def Let_def release_measure_def work_left_def stopping_def mark_exit split: option.split)
qed (auto simp: release_measure_def stopping_def joined_def work_left_def)

lemma joined_step: "joined s \<Longrightarrow> \<not> dl_step v4_of v6_of s c t"
  by (auto simp: joined_def elim: dl_step.cases)

lemma run_append: "dl_run v4_of v6_of t ds u \<Longrightarrow> dl_run v4_of v6_of s cs t \<Longrightarrow> dl_run v4_of v6_of s (cs @ ds) u"
  by (induction rule: dl_run.induct) (auto simp flip: append_assoc intro: run_step)

lemma exit_is_set:
  assumes "dl_run v4_of v6_of s cs t" "dl_release s = Running" "dl_release t = Exit_set"
  shows "stopping t"
proof -
  have "dl_release t = Exit_set \<Longrightarrow> ap_exit (dl_db t)" using assms(1)
  proof (induction rule: dl_run.induct)
    case (run_step cs t c u)
    from run_step(2,3,4) show ?case
      by cases (auto simp: line_step_def Let_def mark_exit split: option.split if_splits)
  qed (simp add: assms(2))
  then show ?thesis using assms(3) by (simp add: stopping_def)
qed

lemma stopping_run: "dl_run v4_of v6_of s cs t \<Longrightarrow> stopping s \<Longrightarrow> stopping t \<or> joined t"
  by (induction rule: dl_run.induct) (auto dest: stopping_step joined_step)

text \<open>From there no run is infinite.\<close>

lemma stopping_ends:
  assumes "stopping (f 0)" "\<And>i. \<exists>c. dl_step v4_of v6_of (f i) c (f (Suc i))"
  shows False
proof -
  have "stopping (f i)" for i
  proof (induction i)
    case (Suc i)
    then show ?case using assms(2) [of i] assms(2) [of "Suc i"] stopping_step joined_step by blast
  qed (rule assms(1))
  then have "(f (Suc i), f i) \<in> release_measure" for i using assms(2) [of i] stopping_step by blast
  moreover have "wf release_measure" by (simp add: release_measure_def)
  ultimately show False unfolding wf_iff_no_infinite_down_chain by blast
qed

text \<open>A thread that is not at its end can go on.\<close>

lemma thread_goes_on:
  assumes "dl_pc s \<notin> {No_thread, Returned, Terminated}"
  shows "\<exists>c t. dl_step v4_of v6_of s c t"
proof (cases "dl_pc s")
  case (Connecting es)
  then show ?thesis by (cases es) (blast intro: dl_step.intros)+
qed (use assms in \<open>blast intro: dl_step.intros\<close>)+

lemma init_start:
  assumes "download_init file4 file6 s0 = Some s"
  shows "dl_release s = Running" "downloaded v4_of v6_of (dl_db s) [] s"
  using assms by (auto simp: download_init_def sync_start_def downloaded_def apnic_init_def split: if_splits)

section \<open>Runs\<close>

lemma run_silent: "dl_run v4_of v6_of s cs t \<Longrightarrow> dl_step v4_of v6_of t [] u \<Longrightarrow> u = v \<Longrightarrow> dl_run v4_of v6_of s cs v"
  using run_step by fastforce

text \<open>The server is found at once.\<close>

lemma reading_reached:
  assumes "dl_pc s = Resolving" "\<not> ap_exit (dl_db s)"
  shows "dl_run v4_of v6_of s [] (s\<lparr>dl_open := True, dl_pc := Reading\<rparr>)"
proof -
  let ?o = "s\<lparr>dl_open := True\<rparr>"
  have "dl_run v4_of v6_of s [] (s\<lparr>dl_pc := Connecting [e]\<rparr>)" for e
    by (rule run_silent [OF run_start dl_step.resolve]) (simp_all add: assms)
  then have "dl_run v4_of v6_of s [] (?o\<lparr>dl_pc := Testing_open\<rparr>)"
    by (rule run_silent [OF _ dl_step.connect_ok]) simp_all
  then have "dl_run v4_of v6_of s [] (?o\<lparr>dl_pc := Writing\<rparr>)"
    by (rule run_silent [OF _ dl_step.test_open]) simp_all
  then have "dl_run v4_of v6_of s [] (?o\<lparr>dl_pc := Testing_exit\<rparr>)"
    by (rule run_silent [OF _ dl_step.write_ok]) simp_all
  then have "dl_run v4_of v6_of s [] (?o\<lparr>dl_pc := Reading\<rparr>)"
    by (rule run_silent [OF _ dl_step.test_exit]) (simp_all add: assms)
  then show ?thesis by simp
qed

text \<open>A record of China arrives in one piece.\<close>

lemma record_line:
  "takeWhile (\<lambda>c. c \<noteq> newline) (cn_record @ [newline]) = cn_record"
  "v4_of ''1.0.1.0'' = Some ip \<Longrightarrow> parse_line v4_of v6_of cn_record = Some (Cn_v4 ip)"
  "cn_record \<noteq> []" "drop (Suc (length cn_record)) (cn_record @ [newline]) = []"
  by (simp_all add: cn_record_def newline_def parse_line_def find_char_def)

lemma record_received:
  assumes "dl_pc s = Reading" "dl_buf s = []"
  shows "dl_run v4_of v6_of s [cn_record @ [newline]] (s\<lparr>dl_pc := Lining, dl_buf := cn_record @ [newline]\<rparr>)"
proof -
  have "dl_step v4_of v6_of s [cn_record @ [newline]] (s\<lparr>dl_pc := Lining, dl_buf := dl_buf s @ cn_record @ [newline]\<rparr>)"
    by (rule dl_step.read_data [OF assms(1)]) (simp_all add: cn_record_def)
  from run_step [OF run_start this] show ?thesis by (simp add: assms(2))
qed

lemma record_marked:
  assumes "dl_pc s = Reading" "dl_buf s = []" "\<not> ap_exit (dl_db s)" "v4_of ''1.0.1.0'' = Some ip"
    and "mmap_write (ap_ipv4 (dl_db s)) (v4_index ip) True = Some m"
  shows "dl_run v4_of v6_of s [cn_record @ [newline]] (s\<lparr>dl_db := (dl_db s)\<lparr>ap_ipv4 := m\<rparr>\<rparr>)"
proof -
  let ?c = "[cn_record @ [newline]]" and ?l = "s\<lparr>dl_pc := Lining, dl_buf := cn_record @ [newline]\<rparr>"
  let ?m = "s\<lparr>dl_db := (dl_db s)\<lparr>ap_ipv4 := m\<rparr>\<rparr>"
  have one: "line_step v4_of v6_of ?l = ?m\<lparr>dl_pc := Lining, dl_buf := []\<rparr>"
    using record_line(2) [where v4_of = v4_of and v6_of = v6_of, OF assms(4)] by (simp add: line_step_def record_line(1,3,4) mark_entry_def assms(5))
  have two: "line_step v4_of v6_of (?m\<lparr>dl_pc := Lining, dl_buf := []\<rparr>) = ?m\<lparr>dl_pc := Testing_exit, dl_buf := []\<rparr>"
    by (simp add: line_step_def)
  have "dl_run v4_of v6_of s ?c (?m\<lparr>dl_pc := Lining, dl_buf := []\<rparr>)"
    by (rule run_silent [OF record_received [OF assms(1,2)] dl_step.line one]) simp
  then have "dl_run v4_of v6_of s ?c (?m\<lparr>dl_pc := Testing_exit, dl_buf := []\<rparr>)"
    by (rule run_silent [OF _ dl_step.line two]) simp
  then have "dl_run v4_of v6_of s ?c (?m\<lparr>dl_pc := Reading, dl_buf := []\<rparr>)"
    by (rule run_silent [OF _ dl_step.test_exit]) (simp_all add: assms(3))
  moreover have "?m\<lparr>dl_pc := Reading, dl_buf := []\<rparr> = ?m" using assms(1,2) by simp
  ultimately show ?thesis by simp
qed

section \<open>Properties\<close>


text \<open>C25: The release ends with the network. Once it has set \<open>_exit\<close>, there is no infinite run, whatever the thread was doing
and whatever still arrives, and where a run cannot go on the thread is joined or the process has ended.\<close>

theorem release_ends:
  assumes "download_init file4 file6 s0 = Some s" "dl_run v4_of v6_of s cs t" "dl_release t = Exit_set"
  shows "(\<nexists>f. f 0 = t \<and> (\<forall>i. \<exists>c. dl_step v4_of v6_of (f i) c (f (Suc i)))) \<and>
    (\<forall>ds u. dl_run v4_of v6_of t ds u \<and> (\<nexists>c u'. dl_step v4_of v6_of u c u') \<longrightarrow> dl_release u = Released \<or> dl_pc u = Terminated)"
proof (intro conjI allI impI)
  have t: "stopping t" by (rule exit_is_set [OF assms(2) init_start(1) [OF assms(1)] assms(3)])
  then show "\<nexists>f. f 0 = t \<and> (\<forall>i. \<exists>c. dl_step v4_of v6_of (f i) c (f (Suc i)))"
    using stopping_ends by metis
  fix ds u assume u: "dl_run v4_of v6_of t ds u \<and> (\<nexists>c u'. dl_step v4_of v6_of u c u')"
  then have "stopping u \<or> joined u" using stopping_run [OF _ t] by blast
  then show "dl_release u = Released \<or> dl_pc u = Terminated"
    using u thread_goes_on [of u v4_of v6_of] dl_step.join [of u v4_of v6_of] by (auto simp: stopping_def joined_def)
qed

text \<open>The join waits for the network. While the thread reads, setting \<open>_exit\<close> does not wake it: only bytes that arrive or a
failure of the connection take it further.\<close>

theorem release_waits_for_network:
  assumes "dl_step v4_of v6_of s c t" "dl_release s = Exit_set" "dl_pc s = Reading"
  shows "(\<exists>chunk. c = [chunk] \<and> chunk \<noteq> []) \<or> t = s\<lparr>dl_pc := Returned\<rparr>"
  using assms by cases auto

text \<open>The release can end the process. It unmaps the files first; a record that arrives then is written through the null
pointer.\<close>

theorem release_terminates_process:
  assumes "dl_pc s = Reading" "dl_release s = Running" "dl_buf s = []" "v4_of ''1.0.1.0'' = Some ip"
  shows "\<exists>t. dl_run v4_of v6_of s [cn_record @ [newline]] t \<and> dl_pc t = Terminated \<and> dl_release t = Unmapped_ipv4"
proof -
  let ?r = "s\<lparr>dl_pc := Lining, dl_buf := cn_record @ [newline]\<rparr>"
  let ?u = "?r\<lparr>dl_db := (dl_db s)\<lparr>ap_ipv4 := mmap_close (ap_ipv4 (dl_db s))\<rparr>, dl_release := Unmapped_ipv4\<rparr>"
  have "dl_run v4_of v6_of s [cn_record @ [newline]] ?r" by (rule record_received [OF assms(1,3)])
  then have "dl_run v4_of v6_of s [cn_record @ [newline]] ?u"
    by (rule run_silent [OF _ dl_step.unmap_ipv4]) (simp_all add: assms(2))
  then have "dl_run v4_of v6_of s [cn_record @ [newline]] (line_step v4_of v6_of ?u)"
    by (rule run_silent [OF _ dl_step.line]) simp_all
  moreover have "line_step v4_of v6_of ?u = ?u\<lparr>dl_buf := [], dl_pc := Terminated\<rparr>"
    using record_line(2) [where v4_of = v4_of and v6_of = v6_of, OF assms(4)] by (simp add: line_step_def record_line(1,3,4) mark_entry_def mmap_write_def mmap_close_def)
  ultimately show ?thesis by auto
qed

section \<open>Instances\<close>

text \<open>A thread on a blank file, up to its first read and the first record.\<close>

definition fresh_download :: "nat download" where
  "fresh_download = \<lparr>dl_db = \<lparr>ap_ipv4 = \<lparr>mm_address = None\<rparr>, ap_ipv6 = \<lparr>mm_address = None\<rparr>, ap_exit = True\<rparr>,
     dl_open = False, dl_pc = No_thread, dl_buf = [], dl_release = Released\<rparr>"

definition started :: "nat download" where
  "started = \<lparr>dl_db = \<lparr>ap_ipv4 = blank_map 8192, ap_ipv6 = \<lparr>mm_address = None\<rparr>, ap_exit = False\<rparr>,
     dl_open = False, dl_pc = Resolving, dl_buf = [], dl_release = Running\<rparr>"

lemma fresh_started: "download_init (Some (replicate 8192 0)) None fresh_download = Some started"
  by (simp add: download_init_def sync_start_def fresh_download_def started_def apnic_init_def mmap_open_def mmap_close_def blank_map_def)


theorem release_ends_witness:
  "\<exists>t. dl_run (\<lambda>_. None) (\<lambda>_. None) started [] t \<and> dl_release t = Exit_set \<and> dl_pc t = Reading \<and>
    (\<nexists>f. f 0 = t \<and> (\<forall>i. \<exists>c. dl_step (\<lambda>_. None) (\<lambda>_. None) (f i) c (f (Suc i))))"
proof -
  let ?r = "started\<lparr>dl_open := True, dl_pc := Reading\<rparr>"
  let ?r1 = "?r\<lparr>dl_db := (dl_db ?r)\<lparr>ap_ipv4 := mmap_close (ap_ipv4 (dl_db ?r))\<rparr>, dl_release := Unmapped_ipv4\<rparr>"
  let ?r2 = "?r1\<lparr>dl_db := (dl_db ?r1)\<lparr>ap_ipv6 := mmap_close (ap_ipv6 (dl_db ?r1))\<rparr>, dl_release := Unmapped\<rparr>"
  let ?t = "?r2\<lparr>dl_db := (dl_db ?r2)\<lparr>ap_exit := True\<rparr>, dl_release := Exit_set\<rparr>"
  have "dl_run (\<lambda>_. None) (\<lambda>_. None) started [] ?r" by (rule reading_reached) (simp_all add: started_def)
  then have "dl_run (\<lambda>_. None) (\<lambda>_. None) started [] ?r1"
    by (rule run_silent [OF _ dl_step.unmap_ipv4]) (simp_all add: started_def)
  then have "dl_run (\<lambda>_. None) (\<lambda>_. None) started [] ?r2"
    by (rule run_silent [OF _ dl_step.unmap_ipv6]) simp_all
  then have run: "dl_run (\<lambda>_. None) (\<lambda>_. None) started [] ?t"
    by (rule run_silent [OF _ dl_step.set_exit]) simp_all
  have "dl_release ?t = Exit_set" "dl_pc ?t = Reading" by simp_all
  then show ?thesis using release_ends [OF fresh_started run] run by blast
qed

end
