(* ===== verification/Spec2Isabelle.thy ===== *)
theory Spec2Isabelle
  imports Queue_Concurrency Route_Device Sky_Module Route_Proxy Controller_Life Hex_Header Hex_File Capture_Window Protocol_Layout
    Client_Route Apnic_Download
begin

text \<open>
  XSKY is a transparent proxy for a local network. Its parts, in \<open>src/\<close>:

  \<^item> \<open>route/\<close>: a kernel module that takes UDP datagrams of chosen subnets out of the network path into a packet queue,
    which a process reads through a character device;
  \<^item> \<open>server/server.c\<close>: a kernel module that sends TCP connections through a local proxy and back, with a translation
    table and a TCP option that carries the original destination;
  \<^item> \<open>server/main.c\<close>: a kernel module on the route that answers DNS queries, loads the configuration and mirrors captures;
  \<^item> \<open>controller/\<close>: a process that turns the packets into tasks for a pool of workers and keeps a database of addresses;
  \<^item> \<open>client/\<close>: a Qt program that configures the system and shows captured packets in a hex view (\<open>client/QHexView/\<close>).

  The client sends its configuration to the route module and gets captures back; the modules hand packets to the
  processes. This development models each part's own logic, translated from the sources, and proves what it does.

  \<^bold>\<open>How programs are modelled.\<close> A struct or class is a record, an enum a datatype, an integer a word of its width. A
  fault (a null or dangling pointer, an access outside a buffer, a division by zero, a loop that does not end) is \<open>None\<close>;
  the errors of the code are values. C memory is a byte list with offsets, or a store of cells where cells are linked
  and freed (the packet queue). What other CPUs or threads do is a step relation with their program counters. Kernel,
  Qt, asio and missing code are arguments: records of operations with their documented laws in a locale, and for every
  locale an instance that meets the laws, on which the witnesses run.

  \<^bold>\<open>The kernel modules.\<close>

  \<^item> \<open>Ring_Queue\<close>, \<open>Queue_Concurrency\<close> (\<open>route/queue.h\<close>): \<open>xsky_queue_init\<close>, \<open>push\<close>, \<open>pop\<close>, \<open>reset\<close>, \<open>release\<close> over a
    store of cells. The ring invariant \<open>queue_on\<close> gives a bounded FIFO (locale \<open>packet_fifo\<close>); with the tests before the
    lock as steps of their own, one producer is safe and two are not.
  \<^item> \<open>Subnet\<close>, \<open>Route_Device\<close> (\<open>route/main.c\<close>, \<open>dev_ctl.h\<close>): \<open>calc_subnet\<close> as bits; the hook, the file operations and
    ioctls, loading and unloading over a state of the module and of what it registered with the kernel. The hook
    refines an abstract specification, no run of events faults, and the reader gets the queued packets in order.
  \<^item> \<open>Nat_Table\<close>, \<open>Toa_Option\<close>, \<open>Sky_Module\<close> (\<open>server/server.c\<close>, \<open>server.h\<close>): buckets of pages as a map of connections
    (locale \<open>nat_map\<close>), the TCP option and the payload mask on bytes, and the hooks that use them: a connection is
    entered by its SYN and later segments are translated.
  \<^item> \<open>Route_Filter\<close> (\<open>server/main.c\<close>, \<open>common/common.h\<close>): every classifier on either byte order, the DNS reply, the
    configuration and capture handlers, the hook. \<open>Route_Proxy\<close>: the two senders to the proxy, which the hook never reaches,
    over freshly allocated buffers, and unloading.
  \<^item> \<open>Protocol_Layout\<close> (\<open>common/common.h\<close>): the packed structures as records with their reading and writing, an
    interpretation of one locale (\<open>c_struct\<close>) each, and what their bit fields are in the packets of the standards; the
    dispatch of the controller is the one over these structures.

  \<^bold>\<open>The controller.\<close>

  \<^item> \<open>Apnic\<close>, \<open>Apnic_Download\<close> (\<open>controller/mmap.cpp\<close>, \<open>apnic.cpp\<close>): a bit map over mapped memory and the parser that
    fills it by chunks; the thread that downloads them beside the release, as a step relation that refines the parser
    and whose release ends as far as the network lets it.
  \<^item> \<open>Task_Dispatch\<close>, \<open>Controller_Life\<close> (\<open>controller/controller.cpp\<close>, \<open>task.cpp\<close>, \<open>device.cpp\<close>, \<open>main.cpp\<close>): which task a
    packet becomes, the pool of workers as a step relation (tasks are conserved; a wake-up can be lost), and the life
    cycle: whatever happens, the release ends.

  \<^bold>\<open>The client.\<close>

  \<^item> \<open>Hex_Cursor\<close>, \<open>Hex_Metadata\<close>, \<open>Hex_Buffer\<close>, \<open>Hex_Document\<close>, \<open>Hex_File\<close> (\<open>client/QHexView/document/\<close>): positions and
    selections, ranges of metadata and their items per line, the three buffers (locale \<open>editable_buffer\<close>), the undoable
    commands (locale \<open>undoable\<close>: undo and redo walk the history of the contents), the clipboard, searching, loading, saving.
  \<^item> \<open>Hex_Renderer\<close>, \<open>Hex_Paint\<close>, \<open>Hex_Header\<close> (\<open>qhexrenderer.cpp\<close>): lines and columns in pixels with hit testing as
    their inverse, what is drawn (texts, formats and places), and the header and frame that the code leaves out today.
  \<^item> \<open>Hex_View\<close>, \<open>Hex_Scroll\<close> (\<open>qhexview.cpp\<close>): keys, mouse and focus, with the invariant \<open>in_document\<close>; scroll bars.
  \<^item> \<open>Client_Controller\<close>, \<open>Client_Dialogs\<close>, \<open>Capture_Window\<close> (\<open>Controller.cpp\<close>, \<open>MainWindow.cpp\<close> and the dialogs): the
    configuration in the settings file and in datagrams, what windows show, the lists as they are edited and put back, and
    the table of captured packets in runs of the windows (a packet after the dialog was closed is a fault).
  \<^item> \<open>Client_Route\<close>: the client and the route module together. The datagrams of any run of the client, carried in
    frames to the hook of \<open>server/main.c\<close>, decide the state of the route: the text of the last configuration, and
    no capture.

  \<open>Xsky_Prelude\<close> has the word types, byte order, C's memory routines and generic lemmas (collection \<open>xsky_mem\<close>).

  \<^bold>\<open>Parameters.\<close> \<open>sky_kernel\<close> and \<open>filter_env\<close>: the kernel's checksums, memory and helpers, and for \<open>server/main.c\<close> also the
  hash map and the configuration structures of \<open>common/common.c\<close>, which the repository does not have. \<open>proxy_env\<close>: \<open>skb_put\<close> and
  the endpoint of the server. \<open>window_env\<close>: what surrounds the windows. \<open>asio_ops\<close>: the context
  of asio. \<open>qt_env\<close>, \<open>device_ops\<close>, \<open>undo_ops\<close>, \<open>font\<close>, \<open>view_env\<close>, \<open>scroll_ops\<close>, \<open>text_ops\<close>, \<open>palette\<close>, \<open>number_ops\<close>,
  \<open>settings_ops\<close>, \<open>json_ops\<close>, \<open>qstring_ops\<close>: what the client uses of Qt. Uninitialised memory is an argument as well.

  \<^bold>\<open>Bounds and fuel.\<close> No definition has fuel that can run out: loops recurse on what they count or on the list they
  read; loops that may not end are \<open>partial_function (option)\<close> and proved to return within the stated bounds. The hex view's
  theorems are for documents below 16 MiB (\<open>2 ^ 24\<close> bytes), because the renderer counts lines in single precision and
  is exact only below (\<open>float_line_lost\<close> is the first failure); the buffers' are for offsets that fit an \<open>int\<close>.

  \<^bold>\<open>Not modelled.\<close> \<open>common/common.c\<close> is missing from the repository (its functions are parameters). Empty functions: \<open>chr_write\<close>, the
  \<open>execute\<close> of the six tasks, \<open>config\<close>, and \<open>CreateArp\<close> and the like of the capture dialog. Pens and colours of the
  painter, menus, message boxes, the connections of signals and the generated user interface classes are glue around
  Qt. The tables of hook operations are constants of the kernel's types. The non-Windows branch of \<open>mmap::open\<close>
  calls the class's own members instead of the system's and cannot be given a meaning. Nothing else of the program's
  own logic is left out.
\<close>

end
